(* ===== verification/Dev_Prelude.thy ===== *)
theory Dev_Prelude
  imports Main "HOL-Library.Word"
begin

text \<open>
  Shared vocabulary of the development: the machine integer types of the drivers, the error
  codes they return, power-of-two masks on words, and circular buffers over lists. The ring
  lemmas are stated once on \<^typ>\<open>nat\<close> indices; every component that keeps a ring
  (\<open>tty/libtty/fifo.h\<close>, \<open>tty/libtty/libtty-lf-fifo.h\<close>, \<open>librtt/librtt.c\<close>) reads its word
  indices through them.
\<close>

unbundle bit_operations_syntax

type_synonym u8 = "8 word"
type_synonym u16 = "16 word"
type_synonym u32 = "32 word"
type_synonym u64 = "64 word"

text \<open>
  Error codes are symbolic: their numeric values belong to the C library's headers, the
  drivers only ever return the negated name.
\<close>

datatype errno =
    EPERM | ENOENT | EIO | EBADF | EAGAIN | ENOMEM | EBUSY | ENODEV | EINVAL | ENOTTY
  | EFBIG | EPIPE | EPROTO | ENOSYS | ETIME | EWOULDBLOCK | EACCES | ENOSPC | EFAULT
  | ETIMEDOUT | ENFILE

text \<open>\<open>ring\<close>: facts about rings and masks used as rewrite rules by the components.\<close>

named_theorems ring "rewrite rules for circular buffers and power-of-two masks"

subsection \<open>Power-of-two masks\<close>

definition is_pow2 :: "'a::len word \<Rightarrow> bool" where
  "is_pow2 x \<longleftrightarrow> x \<noteq> 0 \<and> x AND (x - 1) = 0"

lemma nat_pow2_odd_split:
  assumes "0 < (n::nat)"
  shows "\<exists>k q. n = 2 ^ k * (2 * q + 1)"
  using assms
proof (induction n rule: less_induct)
  case (less n)
  show ?case
  proof (cases "even n")
    case True
    then obtain m where m: "n = 2 * m" by blast
    with less.prems have "0 < m" "m < n" by auto
    with less.IH obtain k q where "m = 2 ^ k * (2 * q + 1)" by blast
    with m have "n = 2 ^ Suc k * (2 * q + 1)" by simp
    then show ?thesis by blast
  next
    case False
    then obtain q where "n = 2 * q + 1" by (blast elim: oddE)
    then have "n = 2 ^ 0 * (2 * q + 1)" by simp
    then show ?thesis by blast
  qed
qed

lemma nat_and_pred_pow2:
  assumes "0 < (n::nat)" and "n AND (n - 1) = 0"
  shows "\<exists>k. n = 2 ^ k"
proof -
  obtain k q where n: "n = 2 ^ k * (2 * q + 1)"
    using nat_pow2_odd_split [OF assms(1)] by blast
  have "n - 1 = 2 ^ k * (2 * q) + (2 ^ k - 1)"
    by (simp add: n algebra_simps)
  also have "\<dots> = (2 ^ k - 1) + q * (2 * 2 ^ k)" by (simp add: algebra_simps)
  finally have "drop_bit (Suc k) (n - 1) = ((2 ^ k - 1) + q * (2 * 2 ^ k)) div (2 * 2 ^ k)"
    by (simp only: drop_bit_eq_div power_Suc)
  also have "\<dots> = q + (2 ^ k - 1) div (2 * 2 ^ k)" by (subst div_mult_self1) auto
  also have "(2 ^ k - 1) div (2 * 2 ^ k) = (0::nat)"
    by (rule div_less) (simp add: less_imp_diff_less)
  finally have "drop_bit (Suc k) (n - 1) = q" by simp
  moreover have "drop_bit (Suc k) n = (2 ^ k + q * (2 * 2 ^ k)) div (2 * 2 ^ k)"
    by (simp add: drop_bit_eq_div n algebra_simps)
  then have "drop_bit (Suc k) n = q" by (simp add: div_mult_self1)
  ultimately have "q = drop_bit (Suc k) (n AND (n - 1))"
    by (simp add: drop_bit_and)
  with assms(2) have "q = 0" by simp
  with n show ?thesis by auto
qed

lemma is_pow2_unat:
  fixes x :: "'a::len word"
  assumes "is_pow2 x"
  shows "\<exists>k < LENGTH('a). unat x = 2 ^ k"
proof -
  from assms have nz: "x \<noteq> 0" and z: "x AND (x - 1) = 0"
    by (simp_all add: is_pow2_def)
  from z have "unat x AND unat (x - 1) = 0"
    by (metis unsigned_0 unsigned_and_eq)
  with nz have "unat x AND (unat x - 1) = 0" "0 < unat x"
    by (simp_all add: unat_minus_one unat_gt_0)
  then obtain k where k: "unat x = 2 ^ k"
    using nat_and_pred_pow2 by blast
  have "(2::nat) ^ k < 2 ^ LENGTH('a)"
    using unsigned_less [of x, where 'a = nat] k by simp
  then have "k < LENGTH('a)" by (simp add: power_strict_increasing_iff)
  with k show ?thesis by blast
qed

lemma is_pow2_mask:
  fixes x :: "'a::len word"
  assumes "unat x = 2 ^ k" and "k < LENGTH('a)"
  shows "x - 1 = mask k"
proof -
  from assms have "x = 2 ^ k"
    by (metis of_nat_numeral of_nat_power of_nat_unat ucast_id)
  then show ?thesis by (simp add: mask_eq_exp_minus_1)
qed

lemma unat_and_mask: "unat (x AND mask k :: 'a::len word) = unat x mod 2 ^ k"
  by (simp add: unsigned_take_bit_eq flip: take_bit_eq_mask take_bit_eq_mod)

lemma unat_mask_less: "unat (x AND mask k :: 'a::len word) < 2 ^ k"
  by (simp add: unat_and_mask)

lemma unat_succ_and_mask [ring]:
  fixes x :: "'a::len word"
  assumes "k \<le> LENGTH('a)"
  shows "unat ((x + 1) AND mask k) = Suc (unat x) mod 2 ^ k"
proof -
  have "(2::nat) ^ k dvd 2 ^ LENGTH('a)" using assms by (rule le_imp_power_dvd)
  then show ?thesis
    by (simp add: unat_and_mask unat_word_ariths mod_mod_cancel mod_Suc_eq)
qed

lemma succ_and_mask_eq_iff [ring]:
  fixes x :: "'a::len word"
  assumes "k \<le> LENGTH('a)"
  shows "(x + 1) AND mask k = y \<longleftrightarrow> Suc (unat x) mod 2 ^ k = unat y"
  using assms by (simp add: word_unat_eq_iff unat_succ_and_mask)

lemma unat_mask_eq:
  assumes "k \<le> LENGTH('a)"
  shows "unat (mask k :: 'a::len word) = 2 ^ k - 1"
proof -
  have "unat (mask k :: 'a word) = mask k"
    by (rule bit_eqI) (use assms in \<open>auto simp: bit_unsigned_iff bit_mask_iff\<close>)
  then show ?thesis by (simp add: mask_eq_exp_minus_1)
qed

lemma le_mask_iff:
  fixes x :: "'a::len word"
  assumes "k \<le> LENGTH('a)"
  shows "x \<le> mask k \<longleftrightarrow> unat x < 2 ^ k"
proof -
  have "x \<le> mask k \<longleftrightarrow> unat x \<le> 2 ^ k - 1"
    using assms by (simp add: word_le_nat_alt unat_mask_eq)
  also have "\<dots> \<longleftrightarrow> unat x < 2 ^ k"
    by (metis One_nat_def Suc_pred less_Suc_eq_le zero_less_numeral zero_less_power)
  finally show ?thesis .
qed

lemma unat_exp:
  assumes "k < LENGTH('a)"
  shows "unat (2 ^ k :: 'a::len word) = 2 ^ k"
proof -
  have "(2 ^ k :: 'a word) = of_nat (2 ^ k)" by simp
  then have "unat (2 ^ k :: 'a word) = 2 ^ k mod 2 ^ LENGTH('a)"
    by (simp only: unsigned_of_nat take_bit_eq_mod of_nat_id)
  with assms show ?thesis by simp
qed

lemma is_pow2_exp: "k < LENGTH('a) \<Longrightarrow> is_pow2 (2 ^ k :: 'a::len word)"
  by (simp add: is_pow2_def word_unat_eq_iff unat_and_mask unat_exp flip: mask_eq_exp_minus_1)

lemma unat_diff_and_mask [ring]:
  fixes a b :: "'a::len word"
  assumes "k \<le> LENGTH('a)" and "unat b \<le> 2 ^ k"
  shows "unat ((a - b) AND mask k) = (unat a + 2 ^ k - unat b) mod 2 ^ k"
proof -
  have d: "(2::int) ^ k dvd 2 ^ LENGTH('a)" using assms(1) by (rule le_imp_power_dvd)
  have i: "int (unat a + 2 ^ k - unat b) = (uint a - uint b) + 2 ^ k"
    using assms(2) by simp
  have "int (unat ((a - b) AND mask k)) = (uint a - uint b) mod 2 ^ k"
    using d by (simp add: unat_and_mask zmod_int uint_nat [symmetric] uint_word_ariths
      take_bit_eq_mod mod_mod_cancel)
  also have "\<dots> = (uint a - uint b + 2 ^ k) mod 2 ^ k" by (rule mod_add_self2 [symmetric])
  also have "\<dots> = int (unat a + 2 ^ k - unat b) mod 2 ^ k" by (simp only: i)
  also have "\<dots> = int ((unat a + 2 ^ k - unat b) mod 2 ^ k)" by (simp add: zmod_int)
  finally show ?thesis by (simp only: of_nat_eq_iff)
qed

lemma sint_u32_small:
  fixes x :: u32
  assumes "unat x < 2 ^ 31"
  shows "sint x = int (unat x)"
proof -
  have u: "uint x = int (unat x)" by simp
  have "uint x < 2 ^ 31" unfolding u using assms by (simp only: of_nat_less_numeral_power_cancel_iff)
  moreover have "- (2 ^ 31) \<le> uint x" unfolding u by (rule order_trans [of _ 0]) simp_all
  ultimately have "signed_take_bit 31 (uint x) = uint x" by (intro signed_take_bit_int_eq_self)
  then show ?thesis by (simp add: sint_uint)
qed

subsection \<open>Circular buffers over lists\<close>

text \<open>
  A ring over \<^term>\<open>d\<close> with read position \<^term>\<open>t\<close> and write position \<^term>\<open>h\<close> holds the
  cells \<open>t, t + 1, \<dots>, h - 1\<close>, indices modulo the length of \<^term>\<open>d\<close>. One cell stays free,
  so that equal positions mean an empty ring.
\<close>

definition ring_len :: "nat \<Rightarrow> nat \<Rightarrow> nat \<Rightarrow> nat" where
  "ring_len n t h = (h + n - t) mod n"

definition ring_list :: "'a list \<Rightarrow> nat \<Rightarrow> nat \<Rightarrow> 'a list" where
  "ring_list d t h = map (\<lambda>i. d ! ((t + i) mod length d)) [0..<ring_len (length d) t h]"

lemma ring_len_cases:
  assumes "t < n" and "h < n"
  shows "ring_len n t h = (if t \<le> h then h - t else h + n - t)"
proof (cases "t \<le> h")
  case True
  then have "h + n - t = (h - t) + n" by simp
  then have "(h + n - t) mod n = h - t" using assms(2) by (simp only: mod_add_self2) simp
  with True show ?thesis by (simp add: ring_len_def)
next
  case False
  with assms show ?thesis by (simp add: ring_len_def)
qed

lemma length_ring_list [simp]: "length (ring_list d t h) = ring_len (length d) t h"
  by (simp add: ring_list_def)

lemma ring_len_less: "t < n \<Longrightarrow> h < n \<Longrightarrow> ring_len n t h < n"
  by (auto simp: ring_len_cases)

lemma ring_len_0: "t < n \<Longrightarrow> h < n \<Longrightarrow> ring_len n t h = 0 \<longleftrightarrow> h = t"
  by (auto simp: ring_len_cases)

lemma ring_list_Nil [simp]: "ring_list d t t = []"
  by (simp add: ring_list_def ring_len_def)

lemma ring_list_eq_Nil:
  "t < length d \<Longrightarrow> h < length d \<Longrightarrow> ring_list d t h = [] \<longleftrightarrow> h = t"
  by (simp add: ring_list_def ring_len_0)

lemma mod_succ_cases: "x < n \<Longrightarrow> Suc x mod n = (if Suc x = n then 0 else Suc x)"
  by auto

lemma mod_pred_cases: "x < n \<Longrightarrow> (x + n - Suc 0) mod n = (if x = 0 then n - Suc 0 else x - 1)"
  by (cases x) auto

lemma ring_len_full:
  assumes "t < n" and "h < n"
  shows "Suc h mod n = t \<longleftrightarrow> ring_len n t h = n - Suc 0"
  using assms by (auto simp: ring_len_cases mod_succ_cases)

lemma ring_len_push:
  assumes "t < n" and "h < n" and "Suc h mod n \<noteq> t"
  shows "ring_len n t (Suc h mod n) = Suc (ring_len n t h)"
  using assms by (auto simp: ring_len_cases mod_succ_cases split: if_splits)

lemma ring_len_pop:
  assumes "t < n" and "h < n" and "h \<noteq> t"
  shows "ring_len n t h = Suc (ring_len n (Suc t mod n) h)"
  using assms by (auto simp: ring_len_cases mod_succ_cases split: if_splits)

lemma ring_len_unpush:
  assumes "t < n" and "h < n" and "h \<noteq> t"
  shows "ring_len n t h = Suc (ring_len n t ((h + n - Suc 0) mod n))"
  using assms by (auto simp: ring_len_cases mod_pred_cases split: if_splits)

lemma ring_index_less:
  assumes "t < n" and "h < n" and "i < ring_len n t h"
  shows "h \<noteq> (t + i) mod n"
proof
  assume e: "h = (t + i) mod n"
  have "i < n" using assms ring_len_less less_trans by blast
  then have "(t + i) mod n = (if t + i < n then t + i else t + i - n)"
    using assms(1) by (simp add: mod_if)
  with e assms show False by (auto simp: ring_len_cases split: if_splits)
qed

lemma ring_index_len:
  assumes "t < n" and "h < n"
  shows "(t + ring_len n t h) mod n = h"
  using assms by (auto simp: ring_len_cases)

lemma ring_list_update [simp]:
  assumes "t < length d" and "h < length d"
  shows "ring_list (d[h := x]) t h = ring_list d t h"
  using assms ring_index_less [of t "length d" h] by (auto simp: ring_list_def)

lemma ring_list_snoc:
  assumes "t < length d" and "h < length d" and "Suc h mod length d \<noteq> t"
  shows "ring_list d t (Suc h mod length d) = ring_list d t h @ [d ! h]"
  using assms by (simp add: ring_list_def ring_len_push ring_index_len)

lemma ring_list_push [ring]:
  assumes "t < length d" and "h < length d" and "Suc h mod length d \<noteq> t"
  shows "ring_list (d[h := x]) t (Suc h mod length d) = ring_list d t h @ [x]"
  using assms ring_list_snoc [of t "d[h := x]" h] by simp

lemma ring_list_pop:
  assumes "t < length d" and "h < length d" and "h \<noteq> t"
  shows "ring_list d t h = d ! t # ring_list d (Suc t mod length d) h"
proof -
  let ?n = "length d"
  have "[0..<Suc m] = 0 # map Suc [0..<m]" for m
    by (simp add: upt_conv_Cons map_Suc_upt del: upt_Suc)
  moreover have "(t + Suc i) mod ?n = (Suc t mod ?n + i) mod ?n" for i
    by (simp add: mod_add_left_eq)
  ultimately show ?thesis
    using assms by (simp add: ring_list_def ring_len_pop [of t ?n h] o_def del: upt_Suc)
qed

lemma ring_list_unpush:
  assumes "t < length d" and "h < length d" and "h \<noteq> t"
  shows "ring_list d t h =
    ring_list d t ((h + length d - Suc 0) mod length d) @ [d ! ((h + length d - Suc 0) mod length d)]"
proof -
  let ?n = "length d" let ?h = "(h + length d - Suc 0) mod length d"
  have h: "?h < ?n" "Suc ?h mod ?n = h"
    using assms by (auto simp: mod_pred_cases)
  with assms ring_list_snoc [of t d ?h] show ?thesis by simp
qed

end
