(* ===== verification/Byte_Queue.thy ===== *)
theory Byte_Queue
  imports Dev_Prelude
begin

text \<open>
  The contract of the bounded FIFO queues the drivers are built on, and the two loops every
  client runs on them: store bytes until the queue is full, take bytes until it is empty. The
  queues that meet the contract are \<open>fifo_t\<close> (theory \<open>Fifo\<close>) and the two directions of an RTT
  pipe (theory \<open>Rtt\<close>).
\<close>

text \<open>The store loop: \<open>while (data < data_end && !full) push(*data++)\<close>; the bytes not stored
  come back.\<close>

fun push_while :: "('q \<Rightarrow> bool) \<Rightarrow> ('q \<Rightarrow> 'a \<Rightarrow> 'q) \<Rightarrow> 'q \<Rightarrow> 'a list \<Rightarrow> 'q \<times> 'a list" where
  "push_while is_full push q [] = (q, [])"
| "push_while is_full push q (x # xs) =
     (if is_full q then (q, x # xs) else push_while is_full push (push q x) xs)"

text \<open>The fetch loop: \<open>while (todo != 0 && !empty) { *data++ = pop(); todo--; }\<close>.\<close>

fun pop_while :: "('q \<Rightarrow> bool) \<Rightarrow> ('q \<Rightarrow> 'a \<times> 'q) \<Rightarrow> nat \<Rightarrow> 'q \<Rightarrow> 'a list \<times> 'q" where
  "pop_while is_empty pop 0 q = ([], q)"
| "pop_while is_empty pop (Suc n) q =
     (if is_empty q then ([], q)
      else let (x, q1) = pop q; (xs, q2) = pop_while is_empty pop n q1 in (x # xs, q2))"

locale bounded_queue =
  fixes ok :: "'q \<Rightarrow> bool"
    and content :: "'q \<Rightarrow> 'a list"
    and cap :: "'q \<Rightarrow> nat"
    and is_full :: "'q \<Rightarrow> bool"
    and is_empty :: "'q \<Rightarrow> bool"
    and push :: "'q \<Rightarrow> 'a \<Rightarrow> 'q"
    and pop :: "'q \<Rightarrow> 'a \<times> 'q"
  assumes content_le: "ok q \<Longrightarrow> length (content q) \<le> cap q"
    and full_iff: "ok q \<Longrightarrow> is_full q \<longleftrightarrow> length (content q) = cap q"
    and empty_iff: "ok q \<Longrightarrow> is_empty q \<longleftrightarrow> content q = []"
    and ok_push: "ok q \<Longrightarrow> \<not> is_full q \<Longrightarrow> ok (push q x)"
    and content_push: "ok q \<Longrightarrow> \<not> is_full q \<Longrightarrow> content (push q x) = content q @ [x]"
    and cap_push: "ok q \<Longrightarrow> \<not> is_full q \<Longrightarrow> cap (push q x) = cap q"
    and ok_pop: "ok q \<Longrightarrow> \<not> is_empty q \<Longrightarrow> ok (snd (pop q))"
    and content_pop: "ok q \<Longrightarrow> \<not> is_empty q \<Longrightarrow> content q = fst (pop q) # content (snd (pop q))"
    and cap_pop: "ok q \<Longrightarrow> \<not> is_empty q \<Longrightarrow> cap (snd (pop q)) = cap q"
begin

text \<open>The store loop appends exactly as many bytes as there is room for, in order, and hands
  back the rest.\<close>

lemma push_while_spec:
  assumes "ok q"
  shows "ok (fst (push_while is_full push q xs))"
    and "content (fst (push_while is_full push q xs)) =
      content q @ take (cap q - length (content q)) xs"
    and "cap (fst (push_while is_full push q xs)) = cap q"
    and "snd (push_while is_full push q xs) = drop (cap q - length (content q)) xs"
proof -
  have "ok (fst (push_while is_full push q xs)) \<and>
    content (fst (push_while is_full push q xs)) = content q @ take (cap q - length (content q)) xs \<and>
    cap (fst (push_while is_full push q xs)) = cap q \<and>
    snd (push_while is_full push q xs) = drop (cap q - length (content q)) xs"
    using assms
  proof (induction xs arbitrary: q)
    case Nil
    then show ?case by simp
  next
    case (Cons x xs)
    show ?case
    proof (cases "is_full q")
      case True
      with Cons.prems show ?thesis by (simp add: full_iff)
    next
      case False
      with Cons.prems have "length (content q) < cap q"
        using content_le full_iff le_neq_implies_less by blast
      then obtain m where m: "cap q - length (content q) = Suc m"
        by (metis Suc_diff_Suc)
      with False Cons.prems have "cap (push q x) - length (content (push q x)) = m"
        by (simp add: content_push cap_push)
      with m False Cons.prems Cons.IH [OF ok_push] show ?thesis
        by (simp add: content_push cap_push)
    qed
  qed
  then show "ok (fst (push_while is_full push q xs))"
    and "content (fst (push_while is_full push q xs)) =
      content q @ take (cap q - length (content q)) xs"
    and "cap (fst (push_while is_full push q xs)) = cap q"
    and "snd (push_while is_full push q xs) = drop (cap q - length (content q)) xs"
    by blast+
qed

text \<open>The fetch loop returns the oldest bytes in order and leaves the others.\<close>

lemma pop_while_spec:
  assumes "ok q"
  shows "ok (snd (pop_while is_empty pop n q))"
    and "content (snd (pop_while is_empty pop n q)) = drop n (content q)"
    and "cap (snd (pop_while is_empty pop n q)) = cap q"
    and "fst (pop_while is_empty pop n q) = take n (content q)"
proof -
  have "ok (snd (pop_while is_empty pop n q)) \<and>
    content (snd (pop_while is_empty pop n q)) = drop n (content q) \<and>
    cap (snd (pop_while is_empty pop n q)) = cap q \<and>
    fst (pop_while is_empty pop n q) = take n (content q)"
    using assms
  proof (induction n arbitrary: q)
    case 0
    then show ?case by simp
  next
    case (Suc n)
    show ?case
    proof (cases "is_empty q")
      case True
      with Suc.prems show ?thesis by (simp add: empty_iff)
    next
      case False
      with Suc.prems Suc.IH [OF ok_pop] content_pop [OF Suc.prems False] show ?thesis
        by (simp add: cap_pop case_prod_beta)
    qed
  qed
  then show "ok (snd (pop_while is_empty pop n q))"
    and "content (snd (pop_while is_empty pop n q)) = drop n (content q)"
    and "cap (snd (pop_while is_empty pop n q)) = cap q"
    and "fst (pop_while is_empty pop n q) = take n (content q)"
    by blast+
qed

text \<open>FIFO order across the two loops: what was stored into an empty queue comes out first, in
  the order it went in.\<close>

lemma push_while_pop_while:
  assumes "ok q" and "content q = []" and "length xs \<le> cap q"
  shows "fst (pop_while is_empty pop (length xs) (fst (push_while is_full push q xs))) = xs"
  using assms by (simp add: pop_while_spec push_while_spec)

end

text \<open>A queue whose newest byte can be looked at and taken back, for line editing.\<close>

locale bounded_deque = bounded_queue +
  fixes peek_last :: "'q \<Rightarrow> 'a"
    and pop_last :: "'q \<Rightarrow> 'a \<times> 'q"
  assumes peek_last: "ok q \<Longrightarrow> \<not> is_empty q \<Longrightarrow> peek_last q = last (content q)"
    and ok_pop_last: "ok q \<Longrightarrow> \<not> is_empty q \<Longrightarrow> ok (snd (pop_last q))"
    and content_pop_last: "ok q \<Longrightarrow> \<not> is_empty q \<Longrightarrow> content (snd (pop_last q)) = butlast (content q)"
    and fst_pop_last: "ok q \<Longrightarrow> \<not> is_empty q \<Longrightarrow> fst (pop_last q) = last (content q)"
    and cap_pop_last: "ok q \<Longrightarrow> \<not> is_empty q \<Longrightarrow> cap (snd (pop_last q)) = cap q"
begin

lemma push_pop_last:
  assumes "ok q" and "\<not> is_full q"
  shows "fst (pop_last (push q x)) = x" and "content (snd (pop_last (push q x))) = content q"
proof -
  have "ok (push q x)" "\<not> is_empty (push q x)"
    using assms by (simp_all add: ok_push empty_iff content_push)
  then show "fst (pop_last (push q x)) = x" "content (snd (pop_last (push q x))) = content q"
    using assms by (simp_all add: fst_pop_last content_pop_last content_push)
qed

end

end
