(* ===== verification/Fifo.thy ===== *)
theory Fifo
  imports Byte_Queue
begin

text \<open>
  The byte ring of the tty layer, \<open>tty/libtty/fifo.h\<close>: one definition per inline function, on
  32-bit indices kept in range by a power-of-two mask. The ring is shown to implement the
  queue contract of theory \<open>Byte_Queue\<close> with the cells between \<open>tail\<close> and \<open>head\<close> as content,
  and its search loop is shown to return.
\<close>

record fifo =
  f_head :: u32
  f_tail :: u32
  f_size_mask :: u32
  f_data :: "u8 list"

subsection \<open>Operations\<close>

definition fifo_init :: "fifo \<Rightarrow> u32 \<Rightarrow> fifo" where
  "fifo_init f sz = f\<lparr>f_head := 0, f_tail := 0, f_size_mask := sz - 1\<rparr>"

definition fifo_remove_all :: "fifo \<Rightarrow> fifo" where
  "fifo_remove_all f = f\<lparr>f_head := 0, f_tail := 0\<rparr>"

definition fifo_remove_all_but_one :: "fifo \<Rightarrow> fifo" where
  "fifo_remove_all_but_one f =
     (if f_head f \<noteq> f_tail f then f\<lparr>f_head := (f_tail f + 1) AND f_size_mask f\<rparr> else f)"

definition fifo_is_full :: "fifo \<Rightarrow> bool" where
  "fifo_is_full f \<longleftrightarrow> (f_head f + 1) AND f_size_mask f = f_tail f"

definition fifo_is_empty :: "fifo \<Rightarrow> bool" where
  "fifo_is_empty f \<longleftrightarrow> f_head f = f_tail f"

definition fifo_count :: "fifo \<Rightarrow> u32" where
  "fifo_count f = (f_head f - f_tail f) AND f_size_mask f"

definition fifo_freespace :: "fifo \<Rightarrow> u32" where
  "fifo_freespace f = (f_tail f - f_head f - 1) AND f_size_mask f"

definition fifo_push :: "fifo \<Rightarrow> u8 \<Rightarrow> fifo" where
  "fifo_push f byte = f\<lparr>f_data := (f_data f)[unat (f_head f) := byte],
     f_head := (f_head f + 1) AND f_size_mask f\<rparr>"

definition fifo_pop_back :: "fifo \<Rightarrow> u8 \<times> fifo" where
  "fifo_pop_back f = (f_data f ! unat (f_tail f), f\<lparr>f_tail := (f_tail f + 1) AND f_size_mask f\<rparr>)"

definition fifo_pop_front :: "fifo \<Rightarrow> u8 \<times> fifo" where
  "fifo_pop_front f =
     (let new_head = (f_head f - 1) AND f_size_mask f
      in (f_data f ! unat new_head, f\<lparr>f_head := new_head\<rparr>))"

definition fifo_peek_front :: "fifo \<Rightarrow> u8" where
  "fifo_peek_front f = f_data f ! unat ((f_head f - 1) AND f_size_mask f)"

text \<open>The search loop stops when the cursor reaches \<open>head\<close>; on a ring whose head is outside
  the mask it would not, so the loop is partial and \<^term>\<open>None\<close> stands for not returning.\<close>

partial_function (option) fifo_has_char_loop :: "fifo \<Rightarrow> u8 \<Rightarrow> u32 \<Rightarrow> bool option" where
  "fifo_has_char_loop f byte tail =
     (if tail \<noteq> f_head f
      then if f_data f ! unat tail = byte then Some True
        else fifo_has_char_loop f byte ((tail + 1) AND f_size_mask f)
      else Some False)"

declare fifo_has_char_loop.simps [code]

definition fifo_has_char :: "fifo \<Rightarrow> u8 \<Rightarrow> bool option" where
  "fifo_has_char f byte =
     (if fifo_is_empty f then Some False else fifo_has_char_loop f byte (f_tail f))"

lemmas fifo_defs = fifo_is_full_def fifo_is_empty_def fifo_push_def fifo_pop_back_def
  fifo_pop_front_def fifo_peek_front_def

subsection \<open>Well-formed rings and their content\<close>

definition fifo_ok :: "fifo \<Rightarrow> bool" where
  "fifo_ok f \<longleftrightarrow> is_pow2 (f_size_mask f + 1) \<and> length (f_data f) = unat (f_size_mask f + 1) \<and>
     f_head f \<le> f_size_mask f \<and> f_tail f \<le> f_size_mask f"

definition fifo_content :: "fifo \<Rightarrow> u8 list" where
  "fifo_content f = ring_list (f_data f) (unat (f_tail f)) (unat (f_head f))"

definition fifo_cap :: "fifo \<Rightarrow> nat" where
  "fifo_cap f = length (f_data f) - 1"

lemma fifo_okE:
  assumes "fifo_ok f"
  obtains k where "k < 32" "f_size_mask f = mask k" "length (f_data f) = 2 ^ k"
    "unat (f_head f) < 2 ^ k" "unat (f_tail f) < 2 ^ k"
proof -
  from assms obtain k where k: "k < 32" "unat (f_size_mask f + 1) = 2 ^ k"
    by (auto simp: fifo_ok_def dest: is_pow2_unat)
  then have m: "f_size_mask f = mask k"
    using is_pow2_mask [of "f_size_mask f + 1" k] by simp
  have "unat (f_head f) < 2 ^ k" "unat (f_tail f) < 2 ^ k"
    using assms m k by (simp_all add: fifo_ok_def le_mask_iff)
  with k m assms that show thesis by (simp add: fifo_ok_def)
qed

lemma fifo_okI:
  assumes "k < 32" "f_size_mask f = mask k" "length (f_data f) = 2 ^ k"
    "unat (f_head f) < 2 ^ k" "unat (f_tail f) < 2 ^ k"
  shows "fifo_ok f"
proof -
  have "mask k + 1 = (2 ^ k :: u32)" by (simp add: mask_eq_exp_minus_1)
  with assms show ?thesis by (simp add: fifo_ok_def is_pow2_exp le_mask_iff unat_exp)
qed

text \<open>The laws of the queue contract, in the words of the ring.\<close>

lemma fifo_full_iff: "fifo_ok f \<Longrightarrow> fifo_is_full f \<longleftrightarrow> length (fifo_content f) = fifo_cap f"
  by (erule fifo_okE)
    (simp add: fifo_is_full_def fifo_content_def fifo_cap_def ring_len_full [symmetric]
      succ_and_mask_eq_iff)

lemma fifo_empty_iff: "fifo_ok f \<Longrightarrow> fifo_is_empty f \<longleftrightarrow> fifo_content f = []"
  by (erule fifo_okE)
    (simp add: fifo_is_empty_def fifo_content_def ring_list_eq_Nil
      word_unat_eq_iff [of "f_head f"])

lemma fifo_content_le: "fifo_ok f \<Longrightarrow> length (fifo_content f) \<le> fifo_cap f"
  by (erule fifo_okE) (auto simp: fifo_content_def fifo_cap_def dest: ring_len_less
    [of "unat (f_tail f)" _ "unat (f_head f)"])

lemma fifo_push_ok: "fifo_ok f \<Longrightarrow> fifo_ok (fifo_push f b)"
  by (erule fifo_okE, rule fifo_okI) (auto simp: fifo_push_def ring)

lemma fifo_push_content:
  assumes "fifo_ok f" and "\<not> fifo_is_full f"
  shows "fifo_content (fifo_push f b) = fifo_content f @ [b]"
  using assms(1)
proof (rule fifo_okE)
  fix k
  assume "k < 32" "f_size_mask f = mask k" "length (f_data f) = 2 ^ k"
    "unat (f_head f) < 2 ^ k" "unat (f_tail f) < 2 ^ k"
  with assms(2) ring_list_push [of "unat (f_tail f)" "f_data f" "unat (f_head f)" b]
  show ?thesis by (simp add: fifo_is_full_def fifo_content_def fifo_push_def ring)
qed

lemma fifo_pop_back_ok: "fifo_ok f \<Longrightarrow> fifo_ok (snd (fifo_pop_back f))"
  by (erule fifo_okE, rule fifo_okI) (auto simp: fifo_pop_back_def ring)

lemma fifo_pop_back_content:
  assumes "fifo_ok f" and "\<not> fifo_is_empty f"
  shows "fifo_content f = fst (fifo_pop_back f) # fifo_content (snd (fifo_pop_back f))"
  using assms by (elim fifo_okE) (simp add: fifo_is_empty_def fifo_content_def fifo_pop_back_def
    unat_succ_and_mask ring_list_pop word_unat_eq_iff [of "f_head f"])

lemma fifo_pop_front_ok: "fifo_ok f \<Longrightarrow> fifo_ok (snd (fifo_pop_front f))"
  by (erule fifo_okE, rule fifo_okI) (auto simp: fifo_pop_front_def Let_def ring)

lemma fifo_pop_front_content:
  assumes "fifo_ok f" and "\<not> fifo_is_empty f"
  shows "fifo_content f = fifo_content (snd (fifo_pop_front f)) @ [fst (fifo_pop_front f)]"
  using assms by (elim fifo_okE) (simp add: fifo_is_empty_def fifo_content_def fifo_pop_front_def
    Let_def unat_diff_and_mask ring_list_unpush word_unat_eq_iff [of "f_head f"])

lemma fifo_peek_pop: "fifo_peek_front f = fst (fifo_pop_front f)"
  by (simp add: fifo_peek_front_def fifo_pop_front_def Let_def)

lemma fifo_cap_simps [simp]:
  "fifo_cap (fifo_push f b) = fifo_cap f"
  "fifo_cap (snd (fifo_pop_back f)) = fifo_cap f"
  "fifo_cap (snd (fifo_pop_front f)) = fifo_cap f"
  by (simp_all add: fifo_cap_def fifo_defs Let_def)

interpretation fq: bounded_queue fifo_ok fifo_content fifo_cap fifo_is_full fifo_is_empty
  fifo_push fifo_pop_back
proof unfold_locales
  fix q x
  assume q: "fifo_ok q"
  show "length (fifo_content q) \<le> fifo_cap q"
    and "fifo_is_full q \<longleftrightarrow> length (fifo_content q) = fifo_cap q"
    and "fifo_is_empty q \<longleftrightarrow> fifo_content q = []"
    using q by (rule fifo_content_le fifo_full_iff fifo_empty_iff)+
  show "fifo_ok (fifo_push q x)" and "fifo_ok (snd (fifo_pop_back q))"
    using q by (rule fifo_push_ok fifo_pop_back_ok)+
  show "fifo_cap (fifo_push q x) = fifo_cap q" and "fifo_cap (snd (fifo_pop_back q)) = fifo_cap q"
    by simp_all
  show "\<not> fifo_is_full q \<Longrightarrow> fifo_content (fifo_push q x) = fifo_content q @ [x]"
    using q by (rule fifo_push_content)
  show "\<not> fifo_is_empty q \<Longrightarrow>
      fifo_content q = fst (fifo_pop_back q) # fifo_content (snd (fifo_pop_back q))"
    using q by (rule fifo_pop_back_content)
qed

interpretation fq: bounded_deque fifo_ok fifo_content fifo_cap fifo_is_full fifo_is_empty
  fifo_push fifo_pop_back fifo_peek_front fifo_pop_front
  by unfold_locales
    (simp_all add: fifo_pop_front_content fifo_peek_pop fifo_pop_front_ok)

subsection \<open>Functional behaviour of the remaining operations\<close>

lemma fifo_init_ok:
  assumes "is_pow2 sz" and "length (f_data f) = unat sz"
  shows "fifo_ok (fifo_init f sz)" and "fifo_content (fifo_init f sz) = []"
    and "fifo_cap (fifo_init f sz) = unat sz - 1"
  using assms by (simp_all add: fifo_ok_def fifo_init_def fifo_content_def fifo_cap_def)

lemma fifo_remove_all_ok: "fifo_ok f \<Longrightarrow> fifo_ok (fifo_remove_all f)"
  by (simp add: fifo_ok_def fifo_remove_all_def)

lemma fifo_remove_all_content [simp]: "fifo_content (fifo_remove_all f) = []"
  by (simp add: fifo_content_def fifo_remove_all_def)

lemma fifo_remove_all_but_one_ok: "fifo_ok f \<Longrightarrow> fifo_ok (fifo_remove_all_but_one f)"
  by (erule fifo_okE, rule fifo_okI) (auto simp: fifo_remove_all_but_one_def ring)

lemma fifo_cap_remove [simp]:
  "fifo_cap (fifo_remove_all f) = fifo_cap f"
  "fifo_cap (fifo_remove_all_but_one f) = fifo_cap f"
  by (simp_all add: fifo_cap_def fifo_remove_all_def fifo_remove_all_but_one_def)

text \<open>Emptying the transmit ring keeps the byte the transmitter may be about to read.\<close>

lemma fifo_remove_all_but_one_content:
  assumes "fifo_ok f"
  shows "fifo_content (fifo_remove_all_but_one f) = take 1 (fifo_content f)"
  using assms
proof (rule fifo_okE)
  fix k
  let ?t = "unat (f_tail f)" and ?h = "unat (f_head f)"
  assume k: "k < 32" "f_size_mask f = mask k" and n: "length (f_data f) = 2 ^ k"
    "?h < 2 ^ k" "?t < 2 ^ k"
  show ?thesis
  proof (cases "?h = ?t")
    case True
    then show ?thesis by (simp add: fifo_remove_all_but_one_def fifo_content_def word_unat_eq_iff)
  next
    case False
    then have "Suc 0 < 2 ^ k" using n by linarith
    then have "ring_list (f_data f) ?t (Suc ?t mod 2 ^ k) = [f_data f ! ?t]"
      using n ring_list_snoc [of ?t "f_data f" ?t] by (simp add: mod_succ_cases split: if_splits)
    with False k n ring_list_pop [of ?t "f_data f" ?h] show ?thesis
      by (simp add: fifo_remove_all_but_one_def fifo_content_def ring word_unat_eq_iff [of "f_head f"])
  qed
qed

lemma fifo_count_eq: "fifo_ok f \<Longrightarrow> unat (fifo_count f) = length (fifo_content f)"
  by (erule fifo_okE) (simp add: fifo_count_def fifo_content_def ring_len_def unat_diff_and_mask)

lemma fifo_freespace_eq:
  assumes "fifo_ok f"
  shows "unat (fifo_freespace f) = fifo_cap f - length (fifo_content f)"
  using assms
proof (rule fifo_okE)
  fix k
  let ?t = "unat (f_tail f)" and ?h = "unat (f_head f)"
  assume k: "k < 32" "f_size_mask f = mask k" and n: "length (f_data f) = 2 ^ k"
    "?h < 2 ^ k" "?t < 2 ^ k"
  have e: "fifo_freespace f = (f_tail f - (f_head f + 1)) AND mask k"
    by (simp add: fifo_freespace_def k diff_diff_eq)
  have "(2::nat) ^ k < 2 ^ 32" using k(1) by (rule power_strict_increasing) simp
  with n have "Suc ?h < 2 ^ 32" by linarith
  then have h: "unat (f_head f + 1) = Suc ?h" by (simp add: unat_word_ariths)
  have "unat (fifo_freespace f) = (?t + 2 ^ k - Suc ?h) mod 2 ^ k"
    using k n by (simp add: e unat_diff_and_mask h)
  also have "\<dots> = (2 ^ k - 1) - ring_len (2 ^ k) ?t ?h"
    using n by (auto simp: ring_len_cases mod_if)
  finally show ?thesis by (simp add: fifo_cap_def fifo_content_def n)
qed

text \<open>The search returns, with the answer the content gives.\<close>

lemma fifo_has_char_loop_eq:
  assumes "fifo_ok f" and "t \<le> f_size_mask f"
  shows "fifo_has_char_loop f b t =
    Some (b \<in> set (ring_list (f_data f) (unat t) (unat (f_head f))))"
  using assms(1)
proof (rule fifo_okE)
  fix k
  let ?h = "unat (f_head f)"
  assume k: "k < 32" "f_size_mask f = mask k" and n: "length (f_data f) = 2 ^ k" "?h < 2 ^ k"
  have "unat t < 2 ^ k" using assms(2) k by (simp add: le_mask_iff)
  then show ?thesis
  proof (induction "ring_len (2 ^ k) (unat t) ?h" arbitrary: t)
    case 0
    then have "t = f_head f" using n by (simp add: ring_len_0 word_unat_eq_iff)
    then show ?case by (simp add: fifo_has_char_loop.simps)
  next
    case (Suc m)
    let ?t' = "(t + 1) AND mask k"
    have ne: "?h \<noteq> unat t" "t \<noteq> f_head f" using Suc.hyps(2) by (auto simp: ring_len_def)
    have t': "unat ?t' = Suc (unat t) mod 2 ^ k" using k by (simp add: ring)
    have "m = ring_len (2 ^ k) (unat ?t') ?h"
      using Suc.hyps(2) ring_len_pop [OF Suc.prems n(2) ne(1)] by (simp add: t')
    then have "fifo_has_char_loop f b ?t' =
        Some (b \<in> set (ring_list (f_data f) (unat ?t') ?h))"
      by (rule Suc.hyps(1)) (simp add: t')
    then show ?case
      using ne n Suc.prems ring_list_pop [of "unat t" "f_data f" ?h] k
      by (subst fifo_has_char_loop.simps) (auto simp: t')
  qed
qed

lemma fifo_has_char_eq:
  "fifo_ok f \<Longrightarrow> fifo_has_char f b = Some (b \<in> set (fifo_content f))"
  by (auto simp: fifo_has_char_def fifo_content_def fifo_has_char_loop_eq fifo_ok_def
    fifo_is_empty_def)

text \<open>Storing with overrun: a full ring forgets its oldest byte first.\<close>

definition fifo_append :: "nat \<Rightarrow> u8 list \<Rightarrow> u8 \<Rightarrow> u8 list" where
  "fifo_append n xs c = (if length xs < n then xs @ [c] else tl (xs @ [c]))"

lemma fifo_one_cell: "fifo_ok f \<Longrightarrow> fifo_cap f = 0 \<Longrightarrow> fifo_content f = []"
  using fifo_content_le [of f] by simp

lemma fifo_overrun_content:
  assumes "fifo_ok f"
  shows "fifo_content (fifo_push (if fifo_is_full f then snd (fifo_pop_back f) else f) c) =
    fifo_append (fifo_cap f) (fifo_content f) c"
proof (cases "fifo_is_full f")
  case False
  with assms have "length (fifo_content f) < fifo_cap f"
    using fifo_content_le fifo_full_iff le_neq_implies_less by blast
  with False assms show ?thesis by (simp add: fifo_push_content fifo_append_def)
next
  case full: True
  let ?g = "snd (fifo_pop_back f)"
  have ok: "fifo_ok ?g" "fifo_ok (fifo_push ?g c)"
    using assms by (simp_all add: fifo_pop_back_ok fifo_push_ok)
  show ?thesis
  proof (cases "fifo_cap f = 0")
    case True
    with assms ok full show ?thesis
      by (simp add: fifo_append_def fifo_one_cell)
  next
    case False
    with full assms have ne: "\<not> fifo_is_empty f" by (auto simp: fifo_full_iff fifo_empty_iff)
    have e: "fifo_content f = fst (fifo_pop_back f) # fifo_content ?g"
      by (rule fifo_pop_back_content [OF assms ne])
    with full assms False ok have "\<not> fifo_is_full ?g" by (auto simp: fifo_full_iff)
    with ok e full assms show ?thesis
      by (simp add: fifo_push_content fifo_append_def fifo_full_iff)
  qed
qed

lemma fifo_overrun_ok:
  "fifo_ok f \<Longrightarrow> fifo_ok (fifo_push (if b then snd (fifo_pop_back f) else f) c)"
  by (simp add: fifo_push_ok fifo_pop_back_ok)

subsection \<open>What clients of the ring rely on\<close>

text \<open>Bytes stored into a ring until it is full and fetched until it is empty come out in the
  order they went in, behind what was there; the store loop stops exactly when no room is left.\<close>

lemma fifo_transfer:
  assumes "fifo_ok f"
  shows "\<exists>g h. push_while fifo_is_full fifo_push f xs =
      (g, drop (fifo_cap f - length (fifo_content f)) xs) \<and>
    pop_while fifo_is_empty fifo_pop_back n g =
      (take n (fifo_content f @ take (fifo_cap f - length (fifo_content f)) xs), h) \<and>
    fifo_ok h \<and> fifo_cap h = fifo_cap f"
proof -
  let ?g = "fst (push_while fifo_is_full fifo_push f xs)"
  note p = fq.push_while_spec [OF assms, of xs]
  note q = fq.pop_while_spec [OF p(1), of n]
  show ?thesis
    using p q by (intro exI [of _ ?g] exI [of _ "snd (pop_while fifo_is_empty fifo_pop_back n ?g)"])
      (simp add: prod_eq_iff)
qed

lemma fifo_transfer_witness:
  "\<exists>g h. push_while fifo_is_full fifo_push (fifo_init \<lparr>f_head = 0, f_tail = 0, f_size_mask = 0,
        f_data = [0, 0, 0, 0]\<rparr> 4) [1, 2, 3, 4, 5] = (g, [4, 5]) \<and>
     pop_while fifo_is_empty fifo_pop_back 2 g = ([1, 2], h)"
proof -
  let ?f = "fifo_init \<lparr>f_head = 0, f_tail = 0, f_size_mask = 0, f_data = [0, 0, 0, 0]\<rparr> 4"
  have "fifo_ok ?f" "fifo_cap ?f = 3" "fifo_content ?f = []" by code_simp+
  with fifo_transfer [of ?f "[1, 2, 3, 4, 5]" 2] show ?thesis
    by (simp del: push_while.simps pop_while.simps) blast
qed

text \<open>C16. The search of a ring ends and finds exactly the bytes that are in it.\<close>

theorem fifo_has_char_terminates:
  assumes "fifo_ok f"
  shows "fifo_has_char f b = Some (b \<in> set (fifo_content f))"
  using assms by (rule fifo_has_char_eq)

theorem fifo_has_char_terminates_witness:
  "fifo_has_char \<lparr>f_head = 1, f_tail = 3, f_size_mask = 3, f_data = [7, 0, 0, 9]\<rparr> 7 = Some True"
proof -
  let ?f = "\<lparr>f_head = 1, f_tail = 3, f_size_mask = 3, f_data = [7, 0, 0, 9]\<rparr> :: fifo"
  have "fifo_ok ?f" "(7 :: u8) \<in> set (fifo_content ?f)" by code_simp+
  with fifo_has_char_terminates [of ?f 7] show ?thesis by simp
qed

end
