(* ===== verification/Tty_Disc.thy ===== *)
theory Tty_Disc
  imports Fifo "HOL-Library.Monad_Syntax"
begin

text \<open>
  The line discipline, \<open>tty/libtty/libtty_disc.c\<close> and \<open>libtty_disc.h\<close>: input processing of
  \<open>_libtty_putchar\<close>, echo and output processing, line editing, canonical and raw reads. The
  terminal is one record; what the code does to the outside world (driver callbacks, signals,
  condition variables) is appended to its list of events. A call that waits on a condition
  variable takes a list of wake-ups: what the other threads made of the terminal while the
  caller slept, and whether the wait timed out. Loops that end only on well-formed rings give
  an \<open>option\<close>, \<^term>\<open>None\<close> for not returning.

  The names of the termios flags and of the control characters are constructors: their
  numbers belong to the C library, which keeps flags of one field bitwise distinct. A flag
  field is the set of flags present in it. A \<open>char\<close> is an 8-bit unsigned value, as in the ARM
  procedure call standard.
\<close>

subsection \<open>Terminal attributes\<close>

datatype iflag = IGNBRK | BRKINT | IGNPAR | PARMRK | INPCK | ISTRIP | INLCR | IGNCR | ICRNL
  | IXON | IXOFF | IXANY | IMAXBEL

datatype oflag = OPOST | ONLCR | OCRNL | ONOCR | ONLRET | TAB3 | NLDLY | CRDLY | BSDLY | VTDLY
  | FFDLY

datatype lflag = ECHO | ECHOE | ECHOK | ECHOKE | ECHONL | ECHOCTL | ECHOPRT | ICANON | IEXTEN
  | ISIG | NOFLSH | TOSTOP | FLUSHO

datatype cflag = CREAD | CS8 | CLOCAL | CSTOPB | PARENB | PARODD | HUPCL | CRTSCTS

datatype cc = VINTR | VQUIT | VERASE | VKILL | VEOF | VTIME | VMIN | VSTART | VSTOP | VSUSP
  | VEOL | VREPRINT | VDISCARD | VWERASE | VLNEXT | VERASE2 | VEOL2

record termios =
  c_iflag :: "iflag set"
  c_oflag :: "oflag set"
  c_cflag :: "cflag set"
  c_lflag :: "lflag set"
  c_cc :: "cc \<Rightarrow> u8"
  c_ispeed :: u32
  c_ospeed :: u32

subsection \<open>The terminal\<close>

text \<open>The driver's callbacks: which of them are there, and what the ones with a result answer.\<close>

record libtty_callbacks =
  set_baudrate :: bool
  set_cflag :: "(cflag set \<Rightarrow> cflag set) option"
  get_halfduplex :: "int option"
  set_halfduplex :: bool
  signal_txready :: bool

datatype sig = SIGINT | SIGQUIT | SIGTSTP | SIGHUP | SIGWINCH

datatype tty_event =
    Ev_txready
  | Ev_baudrate u32
  | Ev_cflag "cflag set"
  | Ev_halfduplex int
  | Ev_kill int sig
  | Ev_signal_rx
  | Ev_signal_tx
  | Ev_broadcast_tx
  | Ev_broadcast_rx
  | Ev_sessionCtty int bool

record tty =
  cb :: libtty_callbacks
  tterm :: termios
  ws_row :: u16
  ws_col :: u16
  sid :: int
  pgrp :: int
  tx_fifo :: fifo
  rx_fifo :: fifo
  breakchars :: "u8 list"
  t_flags :: u32
  vdisable :: u8
  events :: "tty_event list"

definition emit :: "tty_event \<Rightarrow> tty \<Rightarrow> tty" where
  "emit e tty = tty\<lparr>events := events tty @ [e]\<rparr>"

definition TF_HAVEBREAK :: u32 where "TF_HAVEBREAK = 0x00001"
definition TF_LITERAL :: u32 where "TF_LITERAL = 0x00200"
definition TF_CLOSING :: u32 where "TF_CLOSING = 0x08000"

definition CTAB :: u8 where "CTAB = 9"
definition CNL :: u8 where "CNL = 10"
definition CCR :: u8 where "CCR = 13"
definition CEOF :: u8 where "CEOF = 4"

definition tf :: "tty \<Rightarrow> u32 \<Rightarrow> bool" where
  "tf tty flag \<longleftrightarrow> t_flags tty AND flag \<noteq> 0"

definition tf_set :: "u32 \<Rightarrow> tty \<Rightarrow> tty" where
  "tf_set flag tty = tty\<lparr>t_flags := t_flags tty OR flag\<rparr>"

definition tf_clear :: "u32 \<Rightarrow> tty \<Rightarrow> tty" where
  "tf_clear flag tty = tty\<lparr>t_flags := t_flags tty AND NOT flag\<rparr>"

text \<open>\<open>CMP_CC\<close>, \<open>CMP_FLAG\<close> and the character classes.\<close>

definition cmp_cc :: "tty \<Rightarrow> cc \<Rightarrow> u8 \<Rightarrow> bool" where
  "cmp_cc tty v c \<longleftrightarrow> c_cc (tterm tty) v \<noteq> vdisable tty \<and> c_cc (tterm tty) v = c"

abbreviation iflag_on :: "tty \<Rightarrow> iflag \<Rightarrow> bool" where
  "iflag_on tty opt \<equiv> opt \<in> c_iflag (tterm tty)"

abbreviation oflag_on :: "tty \<Rightarrow> oflag \<Rightarrow> bool" where
  "oflag_on tty opt \<equiv> opt \<in> c_oflag (tterm tty)"

abbreviation lflag_on :: "tty \<Rightarrow> lflag \<Rightarrow> bool" where
  "lflag_on tty opt \<equiv> opt \<in> c_lflag (tterm tty)"

definition CTL_VALID :: "u8 \<Rightarrow> bool" where
  "CTL_VALID c \<longleftrightarrow> c = 0x7f \<or> c < 0x20"

definition CTL_PRINT :: "u8 \<Rightarrow> bool" where
  "CTL_PRINT c \<longleftrightarrow> c = 0x7f \<or> c < 0x20 \<and> (c \<noteq> CTAB \<and> c \<noteq> CNL)"

definition CTL_ECHO :: "u8 \<Rightarrow> bool" where
  "CTL_ECHO c \<longleftrightarrow> c = CTAB \<or> c = CNL \<or> c = CCR"

definition LIBTTYDISC_WRITE_OPROC_MAXLEN :: nat where
  "LIBTTYDISC_WRITE_OPROC_MAXLEN = 8"

subsection \<open>Break characters\<close>

text \<open>\<open>breakchars\<close> is a NUL-terminated array.\<close>

fun breakchar_scan :: "u8 list \<Rightarrow> u8 \<Rightarrow> bool" where
  "breakchar_scan [] c = False"
| "breakchar_scan (b # bs) c = (b \<noteq> 0 \<and> (c = b \<or> breakchar_scan bs c))"

definition libttydisc_is_breakchar :: "tty \<Rightarrow> u8 \<Rightarrow> bool" where
  "libttydisc_is_breakchar tty c = breakchar_scan (breakchars tty) c"

fun have_breakchar_scan :: "fifo \<Rightarrow> u8 list \<Rightarrow> bool option" where
  "have_breakchar_scan f [] = Some False"
| "have_breakchar_scan f (b # bs) =
     (if b \<noteq> 0
      then do { h \<leftarrow> fifo_has_char f b; if h then Some True else have_breakchar_scan f bs }
      else Some False)"

definition libttydisc_rx_have_breakchar :: "tty \<Rightarrow> bool option" where
  "libttydisc_rx_have_breakchar tty = have_breakchar_scan (rx_fifo tty) (breakchars tty)"

subsection \<open>Output and echo\<close>

definition libttydisc_txFeedback :: "tty \<Rightarrow> u8 list \<Rightarrow> nat \<times> tty" where
  "libttydisc_txFeedback tty data =
     (let (f, rest) = push_while fifo_is_full fifo_push (tx_fifo tty) data;
          tty1 = tty\<lparr>tx_fifo := f\<rparr>;
          tty2 = (if signal_txready (cb tty1) then emit Ev_txready tty1 else tty1)
      in (length data - length rest, tty2))"

definition libttydisc_writeOproc :: "tty \<Rightarrow> u8 \<Rightarrow> nat \<times> tty" where
  "libttydisc_writeOproc tty c =
     (if c = CEOF then libttydisc_txFeedback tty [c]
      else if c = CTAB then
        (if oflag_on tty TAB3 then libttydisc_txFeedback tty (replicate 8 0x20)
         else libttydisc_txFeedback tty [c])
      else if c = CNL then
        (if oflag_on tty ONLCR then libttydisc_txFeedback tty [0x0d, 0x0a]
         else libttydisc_txFeedback tty [c])
      else if c = CCR then
        (let c = (if oflag_on tty OCRNL then CNL else c) in libttydisc_txFeedback tty [c])
      else libttydisc_txFeedback tty [c])"

definition libttydisc_echo :: "tty \<Rightarrow> u8 \<Rightarrow> nat \<times> tty" where
  "libttydisc_echo tty c =
     (if \<not> lflag_on tty ECHO \<and> (\<not> lflag_on tty ECHONL \<or> c \<noteq> CNL) then (0, tty)
      else if oflag_on tty OPOST \<and> CTL_ECHO c then libttydisc_writeOproc tty c
      else if lflag_on tty ECHOCTL \<and> CTL_PRINT c then
        (let ob1 = (if c \<noteq> 0x7f then c + 0x41 - 1 else 0x3f)
         in if cmp_cc tty VEOF c then libttydisc_txFeedback tty [0x5e, ob1, 0x08, 0x08]
            else libttydisc_txFeedback tty [0x5e, ob1])
      else (0, snd (libttydisc_txFeedback tty [c])))"

text \<open>Line editing. The result says whether a character was removed (the C function's 0).\<close>

definition rub_echo :: "tty \<Rightarrow> u8 \<Rightarrow> tty" where
  "rub_echo tty c =
     (if lflag_on tty ECHO then
        (if lflag_on tty ECHOE then
           (if CTL_PRINT c then
              (if lflag_on tty ECHOCTL
               then snd (libttydisc_txFeedback tty [0x08, 0x08, 0x20, 0x20, 0x08, 0x08]) else tty)
            else if c = 0x20 then snd (libttydisc_txFeedback tty [0x08])
            else snd (libttydisc_txFeedback tty [0x08, 0x20, 0x08]))
         else snd (libttydisc_echo tty (c_cc (tterm tty) VERASE)))
      else tty)"

definition libttydisc_rubchar :: "tty \<Rightarrow> bool \<times> tty" where
  "libttydisc_rubchar tty =
     (if fifo_is_empty (rx_fifo tty) then (False, tty)
      else let c = fifo_peek_front (rx_fifo tty) in
        if c = CNL \<or> cmp_cc tty VEOL c \<or> cmp_cc tty VEOF c then (False, tty)
        else (True, rub_echo (tty\<lparr>rx_fifo := snd (fifo_pop_front (rx_fifo tty))\<rparr>) c))"

text \<open>\<open>while (_libttydisc_rubchar(tty) == 0);\<close>\<close>

partial_function (option) rubline :: "tty \<Rightarrow> tty option" where
  "rubline tty =
     (let r = libttydisc_rubchar tty in if fst r then rubline (snd r) else Some (snd r))"

declare rubline.simps [code]

definition libtty_signal_pgrp :: "tty \<Rightarrow> sig \<Rightarrow> tty" where
  "libtty_signal_pgrp tty signal =
     (if pgrp tty > 0 then emit (Ev_kill (- pgrp tty) signal) tty else tty)"

definition libtty_wake_reader :: "tty \<Rightarrow> tty" where
  "libtty_wake_reader tty = emit Ev_signal_rx tty"

subsection \<open>Input processing\<close>

text \<open>\<open>wake\<close> says whether the caller passed a \<open>wake_reader\<close> pointer; the result is what the code
  stores there.\<close>

definition wake_or_tell :: "bool \<Rightarrow> tty \<Rightarrow> bool \<times> tty" where
  "wake_or_tell wake tty = (if wake then (True, tty) else (False, libtty_wake_reader tty))"

definition putchar_store :: "tty \<Rightarrow> u8 \<Rightarrow> bool \<Rightarrow> bool \<times> tty" where
  "putchar_store tty c wake =
     (let rx = (if fifo_is_full (rx_fifo tty) then snd (fifo_pop_back (rx_fifo tty))
                else rx_fifo tty);
          tty1 = tty\<lparr>rx_fifo := fifo_push rx c\<rparr>;
          tty2 = snd (libttydisc_echo tty1 c)
      in if lflag_on tty2 ICANON then
           (if libttydisc_is_breakchar tty2 c then wake_or_tell wake (tf_set TF_HAVEBREAK tty2)
            else (False, tty2))
         else wake_or_tell wake tty2)"

definition putchar_signal :: "tty \<Rightarrow> u8 \<Rightarrow> sig option" where
  "putchar_signal tty c =
     (if lflag_on tty ISIG then
        (if cmp_cc tty VINTR c then Some SIGINT
         else if cmp_cc tty VQUIT c then Some SIGQUIT
         else if cmp_cc tty VSUSP c then Some SIGTSTP
         else None)
      else None)"

text \<open>Conversion of CR and NL; \<^term>\<open>None\<close> drops the character.\<close>

definition putchar_crnl :: "tty \<Rightarrow> u8 \<Rightarrow> u8 option" where
  "putchar_crnl tty c =
     (if c = CCR then
        (if iflag_on tty IGNCR then None else Some (if iflag_on tty ICRNL then CNL else c))
      else if c = CNL then Some (if iflag_on tty INLCR then CCR else c)
      else Some c)"

definition putchar_lnext :: "tty \<Rightarrow> u8 \<Rightarrow> tty" where
  "putchar_lnext tty c =
     tf_set TF_LITERAL
       (if lflag_on tty ECHO then
          (if lflag_on tty ECHOE then snd (libttydisc_txFeedback tty [0x5e, 0x08])
           else snd (libttydisc_echo tty c))
        else tty)"

definition libtty_putchar :: "tty \<Rightarrow> u8 \<Rightarrow> bool \<Rightarrow> (bool \<times> tty) option" where
  "libtty_putchar tty c0 wake =
     (let c = (if iflag_on tty ISTRIP then c0 AND NOT 0x80 else c0)
      in case putchar_signal tty c of
           Some signal \<Rightarrow>
             Some (False, libtty_signal_pgrp (snd (libttydisc_echo tty c)) signal)
         | None \<Rightarrow>
             if tf tty TF_LITERAL then Some (putchar_store (tf_clear TF_LITERAL tty) c wake)
             else if lflag_on tty IEXTEN \<and> cmp_cc tty VLNEXT c then
               Some (False, putchar_lnext tty c)
             else (case putchar_crnl tty c of
                 None \<Rightarrow> Some (False, tty)
               | Some c \<Rightarrow>
                   if lflag_on tty ICANON \<and> (cmp_cc tty VERASE c \<or> cmp_cc tty VERASE2 c) then
                     Some (False, snd (libttydisc_rubchar tty))
                   else if lflag_on tty ICANON \<and> cmp_cc tty VKILL c then
                     map_option (\<lambda>tty'. (False, tty')) (rubline tty)
                   else Some (putchar_store tty c wake)))"

subsection \<open>Reading\<close>

text \<open>A sleep in \<open>condWait\<close>: the terminal as the other threads leave it, and whether the wait
  timed out.\<close>

type_synonym wakeup = "tty \<Rightarrow> tty \<times> bool"

datatype rd = Rd_len nat | Rd_err errno | Rd_asleep

record read_state =
  timeout_ms :: int
  prevlen :: nat

definition libtty_read_state_init :: read_state where
  "libtty_read_state_init = \<lparr>timeout_ms = -1, prevlen = 0\<rparr>"

datatype canon_out = CW_go | CW_err errno | CW_later | CW_asleep

fun canon_wait :: "wakeup list \<Rightarrow> tty \<Rightarrow> bool \<Rightarrow> bool \<Rightarrow> canon_out \<times> tty" where
  "canon_wait ws tty nonblock has_st =
     (if tf tty TF_HAVEBREAK then (CW_go, tty)
      else if tf tty TF_CLOSING then (CW_err EBADF, tty)
      else if nonblock then (CW_err EWOULDBLOCK, tty)
      else if has_st then (CW_later, tty)
      else case ws of [] \<Rightarrow> (CW_asleep, tty)
        | w # ws' \<Rightarrow> canon_wait ws' (fst (w tty)) nonblock has_st)"

fun canon_take :: "nat \<Rightarrow> tty \<Rightarrow> u8 \<Rightarrow> u8 list \<times> u8 \<times> tty" where
  "canon_take 0 tty byte = ([], byte, tty)"
| "canon_take (Suc n) tty byte =
     (let (b, rx) = fifo_pop_back (rx_fifo tty);
          tty1 = tty\<lparr>rx_fifo := rx\<rparr>
      in if cmp_cc tty1 VEOF b then ([], b, tty1)
         else if libttydisc_is_breakchar tty1 b then ([b], b, tty1)
         else let (bs, l, tty2) = canon_take n tty1 b in (b # bs, l, tty2))"

definition libttydisc_readCanon ::
    "wakeup list \<Rightarrow> tty \<Rightarrow> nat \<Rightarrow> bool \<Rightarrow> read_state option \<Rightarrow>
      (rd \<times> u8 list \<times> read_state option \<times> tty) option" where
  "libttydisc_readCanon ws tty sz nonblock st0 =
     (let st = map_option (\<lambda>st. st\<lparr>timeout_ms := -1\<rparr>) st0
      in case canon_wait ws tty nonblock (st \<noteq> None) of
           (CW_err e, tty1) \<Rightarrow> Some (Rd_err e, [], st, tty1)
         | (CW_later, tty1) \<Rightarrow>
             Some (Rd_len 0, [], map_option (\<lambda>st. st\<lparr>timeout_ms := 0\<rparr>) st, tty1)
         | (CW_asleep, tty1) \<Rightarrow> Some (Rd_asleep, [], st, tty1)
         | (CW_go, tty1) \<Rightarrow>
             let (bs, byte, tty2) = canon_take sz tty1 0xff
             in if libttydisc_is_breakchar tty2 byte then
                  let tty3 = tf_clear TF_HAVEBREAK tty2
                  in if lflag_on tty3 ICANON then do {
                       h \<leftarrow> libttydisc_rx_have_breakchar tty3;
                       Some (Rd_len (length bs), bs, st,
                         if h then tf_set TF_HAVEBREAK tty3 else tty3)
                     }
                     else Some (Rd_len (length bs), bs, st, tty3)
                else Some (Rd_len (length bs), bs, st, tty2))"

datatype raw_out = RW_ready | RW_return | RW_asleep

fun raw_wait :: "wakeup list \<Rightarrow> tty \<Rightarrow> raw_out \<times> wakeup list \<times> tty" where
  "raw_wait ws tty =
     (if \<not> fifo_is_empty (rx_fifo tty) then (RW_ready, ws, tty)
      else if tf tty TF_CLOSING then (RW_return, ws, tty)
      else case ws of [] \<Rightarrow> (RW_asleep, [], tty)
        | w # ws' \<Rightarrow> (let (tty1, etime) = w tty
            in if etime then (RW_return, ws', tty1) else raw_wait ws' tty1))"

text \<open>The loop of the raw read, over the room left in the caller's buffer. \<open>len\<close> counts the bytes
  already there; \<open>vmin\<close> and \<open>vtime\<close> are read once, before the loop.\<close>

fun raw_loop ::
    "wakeup list \<Rightarrow> nat \<Rightarrow> nat \<Rightarrow> tty \<Rightarrow> nat \<Rightarrow> int \<Rightarrow> bool \<Rightarrow> read_state option \<Rightarrow>
      rd \<times> u8 list \<times> read_state option \<times> tty" where
  "raw_loop ws 0 len tty vmin vtime nonblock st = (Rd_len len, [], st, tty)"
| "raw_loop ws (Suc n) len tty vmin vtime nonblock st =
     (let take1 = (\<lambda>ws tty.
            let (b, rx) = fifo_pop_back (rx_fifo tty);
                (r, bs, st1, tty1) =
                  raw_loop ws n (len + 1) (tty\<lparr>rx_fifo := rx\<rparr>) vmin vtime nonblock st
            in (r, b # bs, st1, tty1))
      in if fifo_is_empty (rx_fifo tty) then
           (if nonblock then ((if len = 0 then Rd_err EWOULDBLOCK else Rd_len len), [], st, tty)
            else if vmin = 0 \<and> vtime = 0 then (Rd_len len, [], st, tty)
            else if len = 0 \<or> len < vmin then
              (case st of
                 Some s \<Rightarrow>
                   (Rd_len 0, [],
                    Some (s\<lparr>prevlen := len,
                      timeout_ms := (if len = 0 then (if vmin = 0 then vtime else 0) else vtime)\<rparr>),
                    tty)
               | None \<Rightarrow>
                   (case raw_wait ws tty of
                      (RW_return, ws1, tty1) \<Rightarrow> (Rd_len len, [], st, tty1)
                    | (RW_asleep, ws1, tty1) \<Rightarrow> (Rd_asleep, [], st, tty1)
                    | (RW_ready, ws1, tty1) \<Rightarrow> take1 ws1 tty1))
            else (Rd_len len, [], st, tty))
         else take1 ws tty)"

definition libttydisc_readRaw ::
    "wakeup list \<Rightarrow> tty \<Rightarrow> nat \<Rightarrow> bool \<Rightarrow> read_state option \<Rightarrow>
      rd \<times> u8 list \<times> read_state option \<times> tty" where
  "libttydisc_readRaw ws tty sz nonblock st0 =
     (let vmin = unat (c_cc (tterm tty) VMIN);
          vtime = int (unat (c_cc (tterm tty) VTIME)) * 100;
          first_char_timeout = (if vmin = 0 then vtime else 0)
      in case st0 of
           Some st \<Rightarrow>
             if timeout_ms st \<ge> 0 then
               let we_wanted_to_sleep_ms = (if prevlen st = 0 then first_char_timeout else vtime)
               in if fifo_is_empty (rx_fifo tty) then
                    (if we_wanted_to_sleep_ms = 0 then (Rd_len 0, [], Some st, tty)
                     else if timeout_ms st > 0 then (Rd_len 0, [], Some st, tty)
                     else (Rd_len (prevlen st), [], Some (st\<lparr>timeout_ms := -1\<rparr>), tty))
                  else raw_loop ws (sz - prevlen st) (prevlen st) tty vmin vtime nonblock
                    (Some (st\<lparr>timeout_ms := -1\<rparr>))
             else raw_loop ws sz 0 tty vmin vtime nonblock (Some st)
         | None \<Rightarrow> raw_loop ws sz 0 tty vmin vtime nonblock None)"

subsection \<open>Frames: what output leaves alone\<close>

text \<open>Echo and output processing touch the transmit ring and the event list only, and the ring
  only by appending to its content.\<close>

definition tx_frame :: "tty \<Rightarrow> tty \<Rightarrow> bool" where
  "tx_frame tty tty' \<longleftrightarrow>
     (\<exists>f es. tty' = tty\<lparr>tx_fifo := f, events := events tty @ es\<rparr> \<and>
       (fifo_ok (tx_fifo tty) \<longrightarrow> fifo_ok f \<and> fifo_cap f = fifo_cap (tx_fifo tty) \<and>
         (\<exists>s. fifo_content f = fifo_content (tx_fifo tty) @ s)))"

lemma tx_frame_refl [simp]: "tx_frame tty tty"
  unfolding tx_frame_def by (rule exI [of _ "tx_fifo tty"], rule exI [of _ "[]"]) simp

lemma tx_frameD:
  assumes "tx_frame tty tty'"
  shows "rx_fifo tty' = rx_fifo tty" "tterm tty' = tterm tty" "t_flags tty' = t_flags tty"
    "breakchars tty' = breakchars tty" "vdisable tty' = vdisable tty" "sid tty' = sid tty"
    "pgrp tty' = pgrp tty" "cb tty' = cb tty" "ws_row tty' = ws_row tty" "ws_col tty' = ws_col tty"
    "fifo_ok (tx_fifo tty) \<Longrightarrow> fifo_ok (tx_fifo tty')"
    "fifo_ok (tx_fifo tty) \<Longrightarrow> fifo_cap (tx_fifo tty') = fifo_cap (tx_fifo tty)"
    "\<exists>es. events tty' = events tty @ es"
  using assms by (auto simp: tx_frame_def)

lemma txFeedback_eq:
  "libttydisc_txFeedback tty data =
     (length data - length (snd (push_while fifo_is_full fifo_push (tx_fifo tty) data)),
      tty\<lparr>tx_fifo := fst (push_while fifo_is_full fifo_push (tx_fifo tty) data),
        events := events tty @ (if signal_txready (cb tty) then [Ev_txready] else [])\<rparr>)"
  by (simp add: libttydisc_txFeedback_def emit_def split: prod.split)

lemma txFeedback_frame: "tx_frame tty (snd (libttydisc_txFeedback tty data))"
  unfolding tx_frame_def txFeedback_eq snd_conv
  by (rule exI [where x = "fst (push_while fifo_is_full fifo_push (tx_fifo tty) data)"],
      rule exI [where x = "if signal_txready (cb tty) then [Ev_txready] else []"])
    (simp add: fq.push_while_spec)

lemma txFeedback_content:
  assumes "fifo_ok (tx_fifo tty)"
  shows "fifo_content (tx_fifo (snd (libttydisc_txFeedback tty data))) =
      fifo_content (tx_fifo tty) @
        take (fifo_cap (tx_fifo tty) - length (fifo_content (tx_fifo tty))) data"
    and "fst (libttydisc_txFeedback tty data) =
      min (length data) (fifo_cap (tx_fifo tty) - length (fifo_content (tx_fifo tty)))"
  using fq.push_while_spec [OF assms, of data] by (auto simp: txFeedback_eq)

text \<open>Output processing, as the bytes it stands for.\<close>

definition oproc_bytes :: "tty \<Rightarrow> u8 \<Rightarrow> u8 list" where
  "oproc_bytes tty c =
     (if c = CTAB \<and> oflag_on tty TAB3 then replicate 8 0x20
      else if c = CNL \<and> oflag_on tty ONLCR then [CCR, CNL]
      else if c = CCR \<and> oflag_on tty OCRNL then [CNL]
      else [c])"

lemma writeOproc_eq: "libttydisc_writeOproc tty c = libttydisc_txFeedback tty (oproc_bytes tty c)"
  by (auto simp: libttydisc_writeOproc_def oproc_bytes_def CTAB_def CNL_def CCR_def CEOF_def)

lemma oproc_bytes_length:
  "0 < length (oproc_bytes tty c)" "length (oproc_bytes tty c) \<le> LIBTTYDISC_WRITE_OPROC_MAXLEN"
  by (auto simp: oproc_bytes_def LIBTTYDISC_WRITE_OPROC_MAXLEN_def)

lemma writeOproc_frame: "tx_frame tty (snd (libttydisc_writeOproc tty c))"
  by (simp add: writeOproc_eq txFeedback_frame)

lemma echo_frame: "tx_frame tty (snd (libttydisc_echo tty c))"
  by (simp add: libttydisc_echo_def txFeedback_frame writeOproc_frame Let_def)

lemma rub_echo_frame: "tx_frame tty (rub_echo tty c)"
  by (simp add: rub_echo_def txFeedback_frame echo_frame)

named_theorems tty_frame "fields that output and echo leave alone"

lemmas txFeedback_fields [tty_frame] = txFeedback_frame [THEN tx_frameD(1)]
  txFeedback_frame [THEN tx_frameD(2)] txFeedback_frame [THEN tx_frameD(3)]
  txFeedback_frame [THEN tx_frameD(4)] txFeedback_frame [THEN tx_frameD(5)]
  txFeedback_frame [THEN tx_frameD(6)] txFeedback_frame [THEN tx_frameD(7)]
  txFeedback_frame [THEN tx_frameD(8)] txFeedback_frame [THEN tx_frameD(11)]
  txFeedback_frame [THEN tx_frameD(12)]

lemmas echo_fields [tty_frame] = echo_frame [THEN tx_frameD(1)]
  echo_frame [THEN tx_frameD(2)] echo_frame [THEN tx_frameD(3)]
  echo_frame [THEN tx_frameD(4)] echo_frame [THEN tx_frameD(5)]
  echo_frame [THEN tx_frameD(6)] echo_frame [THEN tx_frameD(7)]
  echo_frame [THEN tx_frameD(8)] echo_frame [THEN tx_frameD(11)]
  echo_frame [THEN tx_frameD(12)]

lemmas rub_echo_fields [tty_frame] = rub_echo_frame [THEN tx_frameD(1)]
  rub_echo_frame [THEN tx_frameD(2)] rub_echo_frame [THEN tx_frameD(3)]
  rub_echo_frame [THEN tx_frameD(4)] rub_echo_frame [THEN tx_frameD(5)]
  rub_echo_frame [THEN tx_frameD(6)] rub_echo_frame [THEN tx_frameD(7)]
  rub_echo_frame [THEN tx_frameD(8)] rub_echo_frame [THEN tx_frameD(11)]
  rub_echo_frame [THEN tx_frameD(12)]

subsection \<open>Well-formed terminals\<close>

definition tty_ok :: "tty \<Rightarrow> bool" where
  "tty_ok tty \<longleftrightarrow> fifo_ok (tx_fifo tty) \<and> fifo_ok (rx_fifo tty)"

abbreviation rx :: "tty \<Rightarrow> u8 list" where
  "rx tty \<equiv> fifo_content (rx_fifo tty)"

abbreviation tx :: "tty \<Rightarrow> u8 list" where
  "tx tty \<equiv> fifo_content (tx_fifo tty)"

lemma have_breakchar_scan_eq:
  "fifo_ok f \<Longrightarrow> have_breakchar_scan f bs = Some (\<exists>c \<in> set (fifo_content f). breakchar_scan bs c)"
  by (induction bs) (auto simp: fifo_has_char_eq)

lemma rx_have_breakchar_eq:
  "fifo_ok (rx_fifo tty) \<Longrightarrow>
    libttydisc_rx_have_breakchar tty = Some (\<exists>c \<in> set (rx tty). libttydisc_is_breakchar tty c)"
  by (simp add: libttydisc_rx_have_breakchar_def libttydisc_is_breakchar_def have_breakchar_scan_eq)

subsection \<open>Line editing\<close>

text \<open>A line ends at a newline, an enabled \<open>VEOL\<close> or an enabled \<open>VEOF\<close>; editing never reaches over it.\<close>

definition line_end :: "tty \<Rightarrow> u8 \<Rightarrow> bool" where
  "line_end tty c \<longleftrightarrow> c = CNL \<or> cmp_cc tty VEOL c \<or> cmp_cc tty VEOF c"

fun erase_char :: "(u8 \<Rightarrow> bool) \<Rightarrow> u8 list \<Rightarrow> u8 list" where
  "erase_char stop xs = (if xs = [] \<or> stop (last xs) then xs else butlast xs)"

definition erase_line :: "(u8 \<Rightarrow> bool) \<Rightarrow> u8 list \<Rightarrow> u8 list" where
  "erase_line stop xs = rev (dropWhile (\<lambda>c. \<not> stop c) (rev xs))"

lemma cmp_cc_cong:
  "tterm tty' = tterm tty \<Longrightarrow> vdisable tty' = vdisable tty \<Longrightarrow> cmp_cc tty' v c = cmp_cc tty v c"
  by (simp add: cmp_cc_def)

lemma cmp_cc_update [simp]:
  "cmp_cc (tty\<lparr>rx_fifo := f\<rparr>) = cmp_cc tty" "cmp_cc (tty\<lparr>t_flags := fl\<rparr>) = cmp_cc tty"
  "cmp_cc (tty\<lparr>tx_fifo := f\<rparr>) = cmp_cc tty" "cmp_cc (tty\<lparr>events := es\<rparr>) = cmp_cc tty"
  by (simp_all add: cmp_cc_def fun_eq_iff)

lemma is_breakchar_update [simp]:
  "libttydisc_is_breakchar (tty\<lparr>rx_fifo := f\<rparr>) = libttydisc_is_breakchar tty"
  "libttydisc_is_breakchar (tty\<lparr>t_flags := fl\<rparr>) = libttydisc_is_breakchar tty"
  "libttydisc_is_breakchar (tty\<lparr>tx_fifo := f\<rparr>) = libttydisc_is_breakchar tty"
  "libttydisc_is_breakchar (tty\<lparr>events := es\<rparr>) = libttydisc_is_breakchar tty"
  by (simp_all add: libttydisc_is_breakchar_def fun_eq_iff)

lemma tf_simps [simp]:
  "tterm (tf_set x tty) = tterm tty" "tterm (tf_clear x tty) = tterm tty"
  "rx_fifo (tf_set x tty) = rx_fifo tty" "rx_fifo (tf_clear x tty) = rx_fifo tty"
  "tx_fifo (tf_set x tty) = tx_fifo tty" "tx_fifo (tf_clear x tty) = tx_fifo tty"
  "breakchars (tf_set x tty) = breakchars tty" "breakchars (tf_clear x tty) = breakchars tty"
  "vdisable (tf_set x tty) = vdisable tty" "vdisable (tf_clear x tty) = vdisable tty"
  "sid (tf_set x tty) = sid tty" "sid (tf_clear x tty) = sid tty"
  "pgrp (tf_set x tty) = pgrp tty" "pgrp (tf_clear x tty) = pgrp tty"
  "events (tf_set x tty) = events tty" "events (tf_clear x tty) = events tty"
  "cb (tf_set x tty) = cb tty" "cb (tf_clear x tty) = cb tty"
  by (simp_all add: tf_set_def tf_clear_def)

lemma tf_breakchar [simp]:
  "libttydisc_is_breakchar (tf_set x tty) = libttydisc_is_breakchar tty"
  "libttydisc_is_breakchar (tf_clear x tty) = libttydisc_is_breakchar tty"
  by (simp_all add: tf_set_def tf_clear_def)

lemma emit_simps [simp]:
  "tterm (emit e tty) = tterm tty" "rx_fifo (emit e tty) = rx_fifo tty"
  "tx_fifo (emit e tty) = tx_fifo tty" "breakchars (emit e tty) = breakchars tty"
  "vdisable (emit e tty) = vdisable tty" "t_flags (emit e tty) = t_flags tty"
  "sid (emit e tty) = sid tty" "pgrp (emit e tty) = pgrp tty" "cb (emit e tty) = cb tty"
  "events (emit e tty) = events tty @ [e]"
  by (simp_all add: emit_def)

lemma rubchar_spec:
  assumes "tty_ok tty"
  defines "tty' \<equiv> snd (libttydisc_rubchar tty)"
  shows "tty_ok tty'" and "rx tty' = erase_char (line_end tty) (rx tty)"
    and "fst (libttydisc_rubchar tty) \<longleftrightarrow> rx tty \<noteq> [] \<and> \<not> line_end tty (last (rx tty))"
    and "tterm tty' = tterm tty" and "vdisable tty' = vdisable tty"
    and "fifo_cap (rx_fifo tty') = fifo_cap (rx_fifo tty)"
    and "t_flags tty' = t_flags tty" and "breakchars tty' = breakchars tty"
proof -
  have ok: "fifo_ok (rx_fifo tty)" using assms(1) by (simp add: tty_ok_def)
  note facts = ok fq.peek_last fq.content_pop_last fq.cap_pop_last fifo_empty_iff
    fifo_pop_front_ok line_end_def [symmetric] tty_frame
  show "tty_ok tty'" "rx tty' = erase_char (line_end tty) (rx tty)"
    "fst (libttydisc_rubchar tty) \<longleftrightarrow> rx tty \<noteq> [] \<and> \<not> line_end tty (last (rx tty))"
    "tterm tty' = tterm tty" "vdisable tty' = vdisable tty"
    "fifo_cap (rx_fifo tty') = fifo_cap (rx_fifo tty)"
    "t_flags tty' = t_flags tty" "breakchars tty' = breakchars tty"
    using assms(1) unfolding tty'_def
    by (auto simp: libttydisc_rubchar_def Let_def tty_ok_def facts)
qed

lemma erase_line_step:
  "erase_line stop xs =
    (if xs \<noteq> [] \<and> \<not> stop (last xs) then erase_line stop (erase_char stop xs) else xs)"
  by (cases xs rule: rev_cases) (auto simp: erase_line_def)

lemma rubchar_session [simp]:
  "sid (snd (libttydisc_rubchar tty)) = sid tty" "pgrp (snd (libttydisc_rubchar tty)) = pgrp tty"
  by (simp_all add: libttydisc_rubchar_def Let_def tty_frame)

text \<open>The kill loop ends, at the start of the line being edited.\<close>

lemma rubline_spec:
  assumes "tty_ok tty"
  shows "\<exists>tty'. rubline tty = Some tty' \<and> tty_ok tty' \<and>
    rx tty' = erase_line (line_end tty) (rx tty) \<and> tterm tty' = tterm tty \<and>
    vdisable tty' = vdisable tty \<and> t_flags tty' = t_flags tty \<and> breakchars tty' = breakchars tty \<and>
    fifo_cap (rx_fifo tty') = fifo_cap (rx_fifo tty) \<and> sid tty' = sid tty \<and> pgrp tty' = pgrp tty"
  using assms
proof (induction "length (rx tty)" arbitrary: tty rule: less_induct)
  case less
  let ?r = "libttydisc_rubchar tty"
  note spec = rubchar_spec [OF less.prems]
  have le: "line_end (snd ?r) = line_end tty"
    using spec(4,5) by (simp add: fun_eq_iff line_end_def cmp_cc_def)
  show ?case
  proof (cases "fst ?r")
    case True
    then have "length (rx (snd ?r)) < length (rx tty)" using spec by auto
    from less.hyps [OF this spec(1)] True spec le show ?thesis
      by (subst rubline.simps) (auto simp: Let_def erase_line_step [of _ "rx tty"])
  next
    case False
    with spec show ?thesis
      by (subst rubline.simps) (auto simp: Let_def erase_line_step [of _ "rx tty"])
  qed
qed

subsection \<open>The receive side as an abstract line editor\<close>

text \<open>What one received character makes of the bytes waiting to be read.\<close>

definition rx_edit :: "tty \<Rightarrow> u8 \<Rightarrow> u8 list \<Rightarrow> u8 list" where
  "rx_edit tty c0 xs =
     (let c = (if iflag_on tty ISTRIP then c0 AND NOT 0x80 else c0);
          n = fifo_cap (rx_fifo tty)
      in if putchar_signal tty c \<noteq> None then xs
         else if tf tty TF_LITERAL then fifo_append n xs c
         else if lflag_on tty IEXTEN \<and> cmp_cc tty VLNEXT c then xs
         else case putchar_crnl tty c of
             None \<Rightarrow> xs
           | Some c \<Rightarrow>
               if lflag_on tty ICANON \<and> (cmp_cc tty VERASE c \<or> cmp_cc tty VERASE2 c)
               then erase_char (line_end tty) xs
               else if lflag_on tty ICANON \<and> cmp_cc tty VKILL c then erase_line (line_end tty) xs
               else fifo_append n xs c)"

lemma signal_pgrp_fields [simp]:
  "rx_fifo (libtty_signal_pgrp tty x) = rx_fifo tty" "tx_fifo (libtty_signal_pgrp tty x) = tx_fifo tty"
  "tterm (libtty_signal_pgrp tty x) = tterm tty" "t_flags (libtty_signal_pgrp tty x) = t_flags tty"
  "breakchars (libtty_signal_pgrp tty x) = breakchars tty"
  "vdisable (libtty_signal_pgrp tty x) = vdisable tty"
  "sid (libtty_signal_pgrp tty x) = sid tty" "pgrp (libtty_signal_pgrp tty x) = pgrp tty"
  by (simp_all add: libtty_signal_pgrp_def)

lemma wake_or_tell_fields [simp]:
  "rx_fifo (snd (wake_or_tell w tty)) = rx_fifo tty" "tx_fifo (snd (wake_or_tell w tty)) = tx_fifo tty"
  "tterm (snd (wake_or_tell w tty)) = tterm tty" "t_flags (snd (wake_or_tell w tty)) = t_flags tty"
  "breakchars (snd (wake_or_tell w tty)) = breakchars tty"
  "vdisable (snd (wake_or_tell w tty)) = vdisable tty"
  "sid (snd (wake_or_tell w tty)) = sid tty" "pgrp (snd (wake_or_tell w tty)) = pgrp tty"
  by (simp_all add: wake_or_tell_def libtty_wake_reader_def)

lemma putchar_store_spec:
  fixes c :: u8 and wake :: bool
  assumes "tty_ok tty"
  defines "tty' \<equiv> snd (putchar_store tty c wake)"
  shows "tty_ok tty'" and "rx tty' = fifo_append (fifo_cap (rx_fifo tty)) (rx tty) c"
    and "tterm tty' = tterm tty" and "vdisable tty' = vdisable tty"
    and "breakchars tty' = breakchars tty" and "fifo_cap (rx_fifo tty') = fifo_cap (rx_fifo tty)"
    and "t_flags tty' = (if lflag_on tty ICANON \<and> libttydisc_is_breakchar tty c
       then t_flags tty OR TF_HAVEBREAK else t_flags tty)"
    and "sid tty' = sid tty" and "pgrp tty' = pgrp tty"
  using assms(1) unfolding tty'_def
  by (auto simp: putchar_store_def Let_def tty_ok_def tty_frame fifo_overrun_ok fifo_overrun_content
    libttydisc_is_breakchar_def tf_set_def)

lemma putchar_lnext_fields:
  "tty_ok tty \<Longrightarrow> tty_ok (putchar_lnext tty c)" "rx_fifo (putchar_lnext tty c) = rx_fifo tty"
  "tterm (putchar_lnext tty c) = tterm tty" "vdisable (putchar_lnext tty c) = vdisable tty"
  "breakchars (putchar_lnext tty c) = breakchars tty"
  "t_flags (putchar_lnext tty c) = t_flags tty OR TF_LITERAL"
  "sid (putchar_lnext tty c) = sid tty" "pgrp (putchar_lnext tty c) = pgrp tty"
  by (auto simp: putchar_lnext_def tty_ok_def tty_frame tf_set_def)

text \<open>Every received character is processed in finite time, keeps the rings well-formed, and
  changes the waiting bytes exactly as the line editor says.\<close>

lemma putchar_spec:
  assumes "tty_ok tty"
  shows "\<exists>r. libtty_putchar tty c wake = Some r \<and> tty_ok (snd r) \<and>
    rx (snd r) = rx_edit tty c (rx tty) \<and> tterm (snd r) = tterm tty \<and>
    vdisable (snd r) = vdisable tty \<and> breakchars (snd r) = breakchars tty \<and>
    fifo_cap (rx_fifo (snd r)) = fifo_cap (rx_fifo tty) \<and>
    sid (snd r) = sid tty \<and> pgrp (snd r) = pgrp tty"
proof -
  define c' where "c' = (if iflag_on tty ISTRIP then c AND NOT 0x80 else c)"
  note eqs = libtty_putchar_def rx_edit_def Let_def c'_def [symmetric]
  have clr: "tty_ok (tf_clear TF_LITERAL tty)" using assms by (simp add: tty_ok_def)
  show ?thesis
  proof (cases "putchar_signal tty c'")
    case (Some signal)
    with assms show ?thesis by (simp add: eqs tty_ok_def tty_frame)
  next
    case None
    note sig = None
    show ?thesis
    proof (cases "tf tty TF_LITERAL \<or> (lflag_on tty IEXTEN \<and> cmp_cc tty VLNEXT c')")
      case True
      with sig assms clr show ?thesis
        by (auto simp: eqs putchar_lnext_fields putchar_store_spec simp del: split_paired_Ex)
    next
      case False
      show ?thesis
      proof (cases "putchar_crnl tty c'")
        case None
        with sig False assms show ?thesis by (auto simp: eqs)
      next
        case (Some c2)
        with sig False assms show ?thesis
          using rubline_spec [OF assms]
          by (auto simp: eqs rubchar_spec putchar_store_spec
            simp del: erase_char.simps split_paired_Ex)
      qed
    qed
  qed
qed

subsection \<open>The break flag\<close>

lemma tf_set_same: "flag \<noteq> 0 \<Longrightarrow> tf (tf_set flag tty) flag"
  by (simp add: tf_def tf_set_def bit.conj_disj_distrib2)

lemma tf_clear_same: "\<not> tf (tf_clear flag tty) flag"
  by (simp add: tf_def tf_clear_def and.assoc)

lemma tf_set_other: "a AND b = 0 \<Longrightarrow> tf (tf_set a tty) b = tf tty b"
  by (simp add: tf_def tf_set_def bit.conj_disj_distrib2)

lemma tf_clear_other:
  assumes "a AND b = 0"
  shows "tf (tf_clear a tty) b = tf tty b"
proof -
  have "\<not> (bit a n \<and> bit b n)" for n
    using arg_cong [OF assms, of "\<lambda>x. bit x n"] by (simp add: bit_and_iff)
  then have "NOT a AND b = b" by (intro bit_eqI) (auto simp: bit_simps)
  then show ?thesis by (simp add: tf_def tf_clear_def and.assoc)
qed

text \<open>The cached array of break characters agrees with the control characters.\<close>

definition brk_cache_ok :: "tty \<Rightarrow> bool" where
  "brk_cache_ok tty \<longleftrightarrow> (\<forall>c. libttydisc_is_breakchar tty c \<longrightarrow> line_end tty c)"

text \<open>The flag says, in canonical mode, whether a complete line is waiting.\<close>

definition brk_exact :: "tty \<Rightarrow> bool" where
  "brk_exact tty \<longleftrightarrow>
     (tf tty TF_HAVEBREAK \<longleftrightarrow>
       lflag_on tty ICANON \<and> (\<exists>c \<in> set (rx tty). libttydisc_is_breakchar tty c))"

text \<open>The ways through \<open>_libtty_putchar\<close>.\<close>

lemma putchar_cases:
  assumes "libtty_putchar tty c wake = Some r"
  obtains (signal) c' x where "r = (False, libtty_signal_pgrp (snd (libttydisc_echo tty c')) x)"
  | (literal) c' where "r = putchar_store (tf_clear TF_LITERAL tty) c' wake"
  | (lnext) c' where "r = (False, putchar_lnext tty c')"
  | (drop) "r = (False, tty)"
  | (erase) "r = (False, snd (libttydisc_rubchar tty))"
  | (kill) tty' where "rubline tty = Some tty'" "r = (False, tty')"
  | (store) c' where "r = putchar_store tty c' wake"
  using assms unfolding libtty_putchar_def Let_def
  by (auto split: option.splits if_splits)

lemma erase_keeps:
  assumes "\<And>c. p c \<Longrightarrow> stop c"
  shows "(\<exists>c \<in> set (erase_char stop xs). p c) \<longleftrightarrow> (\<exists>c \<in> set xs. p c)"
    and "(\<exists>c \<in> set (erase_line stop xs). p c) \<longleftrightarrow> (\<exists>c \<in> set xs. p c)"
proof -
  show "(\<exists>c \<in> set (erase_char stop xs). p c) \<longleftrightarrow> (\<exists>c \<in> set xs. p c)"
    using assms by (cases xs rule: rev_cases) auto
  have "(\<exists>c \<in> set (dropWhile (\<lambda>c. \<not> stop c) ys). p c) \<longleftrightarrow> (\<exists>c \<in> set ys. p c)" for ys
    using assms by (induction ys) auto
  from this [of "rev xs"] show "(\<exists>c \<in> set (erase_line stop xs). p c) \<longleftrightarrow> (\<exists>c \<in> set xs. p c)"
    by (simp add: erase_line_def)
qed

lemma brk_exact_cong:
  assumes "tterm tty' = tterm tty" and "breakchars tty' = breakchars tty"
    and "tf tty' TF_HAVEBREAK = tf tty TF_HAVEBREAK"
    and "(\<exists>c \<in> set (rx tty'). libttydisc_is_breakchar tty c) \<longleftrightarrow>
      (\<exists>c \<in> set (rx tty). libttydisc_is_breakchar tty c)"
  shows "brk_exact tty' = brk_exact tty"
  using assms by (simp add: brk_exact_def libttydisc_is_breakchar_def)

lemma tf_flags_cong: "t_flags tty' = t_flags tty \<Longrightarrow> tf tty' = tf tty"
  by (simp add: tf_def fun_eq_iff)

lemma brk_exact_flags:
  assumes "tterm tty' = tterm tty" and "breakchars tty' = breakchars tty"
    and "t_flags tty' = t_flags tty"
    and "(\<exists>c \<in> set (rx tty'). libttydisc_is_breakchar tty c) \<longleftrightarrow>
      (\<exists>c \<in> set (rx tty). libttydisc_is_breakchar tty c)"
  shows "brk_exact tty' = brk_exact tty"
  using assms by (intro brk_exact_cong) (simp_all add: tf_def)

lemma tf_literal_break [simp]:
  "tf (tf_clear TF_LITERAL tty) TF_HAVEBREAK = tf tty TF_HAVEBREAK"
  "tf (tf_set TF_LITERAL tty) TF_HAVEBREAK = tf tty TF_HAVEBREAK"
  by (rule tf_clear_other tf_set_other; simp add: TF_LITERAL_def TF_HAVEBREAK_def)+

lemma putchar_store_brk:
  assumes "tty_ok tty" and "brk_exact tty" and "length (rx tty) < fifo_cap (rx_fifo tty)"
  shows "brk_exact (snd (putchar_store tty c wake))"
proof -
  note s = putchar_store_spec [OF assms(1), of c wake]
  let ?t = "snd (putchar_store tty c wake)"
  have b: "libttydisc_is_breakchar ?t = libttydisc_is_breakchar tty"
    using s(5) by (simp add: libttydisc_is_breakchar_def fun_eq_iff)
  have r: "rx ?t = rx tty @ [c]" using s(2) assms(3) by (simp add: fifo_append_def)
  show ?thesis
  proof (cases "lflag_on tty ICANON \<and> libttydisc_is_breakchar tty c")
    case True
    then have "tf ?t TF_HAVEBREAK"
      using s(7) by (simp add: tf_def bit.conj_disj_distrib2 TF_HAVEBREAK_def)
    with True show ?thesis by (simp add: brk_exact_def b r s(3))
  next
    case False
    then have "tf ?t = tf tty" using s(7) by (auto intro: tf_flags_cong)
    with False assms(2) show ?thesis by (auto simp: brk_exact_def b r s(3))
  qed
qed

lemma putchar_brk:
  assumes "tty_ok tty" and "brk_cache_ok tty" and "brk_exact tty"
    and "length (rx tty) < fifo_cap (rx_fifo tty)" and "libtty_putchar tty c wake = Some r"
  shows "brk_exact (snd r)"
  using assms(5)
proof (cases rule: putchar_cases)
  case (signal c' x)
  have "brk_exact (libtty_signal_pgrp (snd (libttydisc_echo tty c')) x) = brk_exact tty"
    by (rule brk_exact_flags) (simp_all add: tty_frame)
  with signal assms(3) show ?thesis by simp
next
  case (literal c')
  have "brk_exact (tf_clear TF_LITERAL tty)"
    using assms(3) by (subst brk_exact_cong) auto
  with literal assms show ?thesis by (simp add: putchar_store_brk tty_ok_def)
next
  case (lnext c')
  have "tf (putchar_lnext tty c') TF_HAVEBREAK = tf (tf_set TF_LITERAL tty) TF_HAVEBREAK"
    by (rule fun_cong [OF tf_flags_cong]) (simp add: putchar_lnext_fields tf_set_def)
  with lnext assms(3) show ?thesis
    by (subst brk_exact_cong) (auto simp: putchar_lnext_fields)
next
  case erase
  have "brk_exact (snd (libttydisc_rubchar tty)) = brk_exact tty"
    by (rule brk_exact_flags) (use assms(1,2) in \<open>simp_all add: rubchar_spec erase_keeps
      brk_cache_ok_def del: erase_char.simps\<close>)
  with erase assms(3) show ?thesis by simp
next
  case (kill tty')
  with rubline_spec [OF assms(1)] have "rx tty' = erase_line (line_end tty) (rx tty)"
    "tterm tty' = tterm tty" "t_flags tty' = t_flags tty" "breakchars tty' = breakchars tty"
    by auto
  then have "brk_exact tty' = brk_exact tty"
    by (intro brk_exact_flags) (use assms(2) in \<open>simp_all add: erase_keeps brk_cache_ok_def\<close>)
  with kill assms(3) show ?thesis by simp
next
  case (store c')
  with assms show ?thesis by (simp add: putchar_store_brk)
qed (use assms in simp)

end
