(* ===== verification/Tty_Read.thy ===== *)
theory Tty_Read
  imports Tty_Disc
begin

text \<open>
  Correctness of reading from a terminal: a canonical read delivers one line of the receive
  ring, a raw read delivers its oldest bytes, and neither delivers a byte that was not
  received. The definitions are in theory \<open>Tty_Disc\<close>.
\<close>

definition canon_stop :: "tty \<Rightarrow> u8 \<Rightarrow> bool" where
  "canon_stop tty c \<longleftrightarrow> libttydisc_is_breakchar tty c \<or> cmp_cc tty VEOF c"

subsection \<open>A concrete terminal\<close>

text \<open>A terminal with rings of \<open>n\<close> bytes (a power of two), the given bytes received, in canonical
  mode with the usual control characters, and the keystrokes of a user.\<close>

definition sample_fifo :: "nat \<Rightarrow> u8 list \<Rightarrow> fifo" where
  "sample_fifo n bs =
     \<lparr>f_head = of_nat (length bs), f_tail = 0, f_size_mask = of_nat (n - 1),
      f_data = take n (bs @ replicate n 0)\<rparr>"

definition sample_tty :: "nat \<Rightarrow> u8 list \<Rightarrow> tty" where
  "sample_tty n bs =
     \<lparr>cb = \<lparr>set_baudrate = False, set_cflag = None, get_halfduplex = None,
            set_halfduplex = False, signal_txready = False\<rparr>,
      tterm = \<lparr>c_iflag = {}, c_oflag = {}, c_cflag = {}, c_lflag = {ICANON},
               c_cc = (\<lambda>_. 0)(VEOF := 4, VERASE := 0x7f, VKILL := 0x15, VMIN := 3),
               c_ispeed = 0, c_ospeed = 0\<rparr>,
      ws_row = 25, ws_col = 80, sid = -1, pgrp = -1,
      tx_fifo = sample_fifo n [], rx_fifo = sample_fifo n bs,
      breakchars = [10, 4, 0, 0],
      t_flags = (if 10 \<in> set bs \<or> 4 \<in> set bs then TF_HAVEBREAK else 0),
      vdisable = 0, events = []\<rparr>"

fun type_chars :: "u8 list \<Rightarrow> tty \<Rightarrow> tty option" where
  "type_chars [] tty = Some tty"
| "type_chars (c # cs) tty =
     do { r \<leftarrow> libtty_putchar tty c False; type_chars cs (snd r) }"

subsection \<open>Canonical reads\<close>

lemma canon_stop_update [simp]: "canon_stop (tty\<lparr>rx_fifo := f\<rparr>) = canon_stop tty"
  by (simp add: canon_stop_def fun_eq_iff)

text \<open>The fetch loop walks over bytes that do not end a line.\<close>

lemma canon_take_skip:
  assumes "fifo_ok (rx_fifo tty)" and "rx tty = ys @ zs" and "\<forall>y \<in> set ys. \<not> canon_stop tty y"
  shows "\<exists>f. fifo_ok f \<and> fifo_cap f = fifo_cap (rx_fifo tty) \<and> fifo_content f = zs \<and>
    canon_take (length ys + m) tty byte =
      (let (bs, l, tty') = canon_take m (tty\<lparr>rx_fifo := f\<rparr>) (last (byte # ys))
       in (ys @ bs, l, tty'))"
  using assms
proof (induction ys arbitrary: tty byte)
  case Nil
  then show ?case by (intro exI [of _ "rx_fifo tty"]) (simp add: Let_def)
next
  case (Cons y ys)
  let ?p = "fifo_pop_back (rx_fifo tty)" and ?tty = "tty\<lparr>rx_fifo := snd (fifo_pop_back (rx_fifo tty))\<rparr>"
  have ne: "\<not> fifo_is_empty (rx_fifo tty)"
    using Cons.prems by (simp add: fifo_empty_iff)
  from fifo_pop_back_content [OF Cons.prems(1) ne] Cons.prems(2)
  have y: "fst ?p = y" and c: "rx ?tty = ys @ zs" by simp_all
  have ok: "fifo_ok (rx_fifo ?tty)" using Cons.prems(1) by (simp add: fifo_pop_back_ok)
  have ns: "\<forall>z \<in> set ys. \<not> canon_stop ?tty z" using Cons.prems(3) by simp
  from Cons.IH [OF ok c ns, of y] obtain f where f: "fifo_ok f"
    "fifo_cap f = fifo_cap (rx_fifo tty)" "fifo_content f = zs"
    "canon_take (length ys + m) ?tty y =
      (let (bs, l, tty') = canon_take m (tty\<lparr>rx_fifo := f\<rparr>) (last (y # ys)) in (ys @ bs, l, tty'))"
    by auto
  have "\<not> canon_stop tty y" using Cons.prems(3) by simp
  with f y show ?case
    by (intro exI [of _ f]) (simp add: canon_stop_def case_prod_beta Let_def)
qed

lemma canon_take_short:
  assumes "fifo_ok (rx_fifo tty)" and "rx tty = ys @ zs" and "\<forall>y \<in> set ys. \<not> canon_stop tty y"
  shows "\<exists>f. fifo_ok f \<and> fifo_cap f = fifo_cap (rx_fifo tty) \<and> fifo_content f = zs \<and>
    canon_take (length ys) tty byte = (ys, last (byte # ys), tty\<lparr>rx_fifo := f\<rparr>)"
  using canon_take_skip [OF assms, of 0 byte] by simp

lemma canon_take_line:
  assumes "fifo_ok (rx_fifo tty)" and "rx tty = ys @ b # zs"
    and "\<forall>y \<in> set ys. \<not> canon_stop tty y" and "canon_stop tty b" and "length ys < n"
  shows "\<exists>f. fifo_ok f \<and> fifo_cap f = fifo_cap (rx_fifo tty) \<and> fifo_content f = zs \<and>
    canon_take n tty byte =
      (ys @ (if cmp_cc tty VEOF b then [] else [b]), b, tty\<lparr>rx_fifo := f\<rparr>)"
proof -
  obtain m where n: "n = length ys + Suc m" using assms(5) less_imp_Suc_add by fastforce
  from canon_take_skip [OF assms(1-3), of "Suc m" byte] obtain f where f: "fifo_ok f"
    "fifo_cap f = fifo_cap (rx_fifo tty)" "fifo_content f = b # zs"
    "canon_take n tty byte =
      (let (bs, l, tty') = canon_take (Suc m) (tty\<lparr>rx_fifo := f\<rparr>) (last (byte # ys))
       in (ys @ bs, l, tty'))"
    by (auto simp: n)
  let ?g = "snd (fifo_pop_back f)"
  have "\<not> fifo_is_empty f" using f by (simp add: fifo_empty_iff)
  with fifo_pop_back_content [OF f(1)] f(3) have "fst (fifo_pop_back f) = b" "fifo_content ?g = zs"
    by simp_all
  with f assms(4) show ?thesis
    by (intro exI [of _ ?g]) (auto simp: fifo_pop_back_ok canon_stop_def case_prod_beta)
qed

declare canon_wait.simps [simp del] raw_wait.simps [simp del]

lemma canon_wait_go: "tf tty TF_HAVEBREAK \<Longrightarrow> canon_wait ws tty nonblock has_st = (CW_go, tty)"
  by (simp add: canon_wait.simps)

text \<open>A line that fits: it is delivered whole, without its end-of-file character, and the rest of
  the input stays.\<close>

lemma readCanon_line:
  assumes "tty_ok tty" and "lflag_on tty ICANON" and "tf tty TF_HAVEBREAK"
    and "rx tty = ys @ b # zs" and "\<forall>y \<in> set ys. \<not> canon_stop tty y"
    and "libttydisc_is_breakchar tty b" and "length ys < sz"
  defines "out \<equiv> ys @ (if cmp_cc tty VEOF b then [] else [b])"
  shows "\<exists>tty'. libttydisc_readCanon ws tty sz nonblock st =
      Some (Rd_len (length out), out, map_option (\<lambda>st. st\<lparr>timeout_ms := -1\<rparr>) st, tty') \<and>
    rx tty' = zs \<and> tty_ok tty' \<and> brk_exact tty' \<and> tx_fifo tty' = tx_fifo tty \<and>
    tterm tty' = tterm tty \<and> breakchars tty' = breakchars tty \<and> vdisable tty' = vdisable tty \<and>
    (\<forall>x. TF_HAVEBREAK AND x = 0 \<longrightarrow> tf tty' x = tf tty x)"
proof -
  have "fifo_ok (rx_fifo tty)" "canon_stop tty b"
    using assms by (simp_all add: tty_ok_def canon_stop_def)
  from canon_take_line [OF this(1) assms(4,5) this(2) assms(7), of "0xff"]
  obtain f where f: "fifo_ok f" "fifo_content f = zs"
    "canon_take sz tty 0xff = (out, b, tty\<lparr>rx_fifo := f\<rparr>)"
    by (auto simp: out_def)
  let ?t = "tf_clear TF_HAVEBREAK (tty\<lparr>rx_fifo := f\<rparr>)"
  let ?h = "\<exists>c \<in> set zs. libttydisc_is_breakchar tty c"
  let ?u = "if ?h then tf_set TF_HAVEBREAK ?t else ?t"
  have h: "libttydisc_rx_have_breakchar ?t = Some ?h"
    using f by (simp add: rx_have_breakchar_eq)
  have fl: "\<not> tf ?t TF_HAVEBREAK" "tf (tf_set TF_HAVEBREAK ?t) TF_HAVEBREAK"
    by (simp_all add: tf_clear_same tf_set_same TF_HAVEBREAK_def)
  have "libttydisc_readCanon ws tty sz nonblock st =
      Some (Rd_len (length out), out, map_option (\<lambda>st. st\<lparr>timeout_ms := -1\<rparr>) st, ?u)"
    using assms(2,3,6) f h
    by (simp add: libttydisc_readCanon_def canon_wait_go Let_def)
  moreover have "brk_exact ?u"
    using fl f assms(2) by (auto simp: brk_exact_def)
  moreover have "tty_ok ?u" using assms(1) f by (simp add: tty_ok_def)
  moreover have "TF_HAVEBREAK AND x = 0 \<Longrightarrow> tf ?u x = tf tty x" for x
    by (simp add: tf_set_other tf_clear_other) (simp add: tf_def)
  ultimately show ?thesis using f by (intro exI [of _ ?u]) simp
qed

text \<open>A line that does not fit: as many bytes as asked for, and the rest of the line stays.\<close>

lemma readCanon_part:
  assumes "tty_ok tty" and "tf tty TF_HAVEBREAK" and "rx tty = ys @ zs" and "ys \<noteq> []"
    and "\<forall>y \<in> set ys. \<not> canon_stop tty y"
  shows "\<exists>tty'. libttydisc_readCanon ws tty (length ys) nonblock st =
      Some (Rd_len (length ys), ys, map_option (\<lambda>st. st\<lparr>timeout_ms := -1\<rparr>) st, tty') \<and>
    rx tty' = zs \<and> tty_ok tty' \<and> t_flags tty' = t_flags tty"
proof -
  from canon_take_short [OF _ assms(3,5), of "0xff"] assms(1)
  obtain f where f: "fifo_ok f" "fifo_content f = zs"
    "canon_take (length ys) tty 0xff = (ys, last ys, tty\<lparr>rx_fifo := f\<rparr>)"
    using assms(4) by (auto simp: tty_ok_def)
  have "\<not> libttydisc_is_breakchar tty (last ys)"
    using assms(4,5) by (auto simp: canon_stop_def)
  with f assms(2) have "libttydisc_readCanon ws tty (length ys) nonblock st =
      Some (Rd_len (length ys), ys, map_option (\<lambda>st. st\<lparr>timeout_ms := -1\<rparr>) st, tty\<lparr>rx_fifo := f\<rparr>)"
    by (simp add: libttydisc_readCanon_def canon_wait_go Let_def)
  with f assms(1) show ?thesis by (auto simp: tty_ok_def)
qed

subsection \<open>Raw reads\<close>

text \<open>The fetch loop of a raw read takes the bytes that are there first.\<close>

lemma raw_loop_skip:
  assumes "fifo_ok (rx_fifo tty)" and "rx tty = ys @ zs"
  shows "\<exists>f. fifo_ok f \<and> fifo_cap f = fifo_cap (rx_fifo tty) \<and> fifo_content f = zs \<and>
    raw_loop ws (length ys + m) len tty vmin vtime nonblock st =
      apsnd (apfst ((@) ys))
        (raw_loop ws m (len + length ys) (tty\<lparr>rx_fifo := f\<rparr>) vmin vtime nonblock st)"
  using assms
proof (induction ys arbitrary: tty len)
  case Nil
  then show ?case by (intro exI [of _ "rx_fifo tty"]) (simp add: apsnd_def apfst_def map_prod_def)
next
  case (Cons y ys)
  let ?p = "fifo_pop_back (rx_fifo tty)" and ?tty = "tty\<lparr>rx_fifo := snd (fifo_pop_back (rx_fifo tty))\<rparr>"
  have ne: "\<not> fifo_is_empty (rx_fifo tty)"
    using Cons.prems by (simp add: fifo_empty_iff)
  from fifo_pop_back_content [OF Cons.prems(1) ne] Cons.prems(2)
  have y: "fst ?p = y" and c: "rx ?tty = ys @ zs" by simp_all
  have ok: "fifo_ok (rx_fifo ?tty)" using Cons.prems(1) by (simp add: fifo_pop_back_ok)
  from Cons.IH [OF ok c, of "len + 1"] obtain f where f: "fifo_ok f"
    "fifo_cap f = fifo_cap (rx_fifo tty)" "fifo_content f = zs"
    "raw_loop ws (length ys + m) (len + 1) ?tty vmin vtime nonblock st =
      apsnd (apfst ((@) ys))
        (raw_loop ws m (len + 1 + length ys) (tty\<lparr>rx_fifo := f\<rparr>) vmin vtime nonblock st)"
    by auto
  with y ne show ?case
    by (intro exI [of _ f])
      (cases "raw_loop ws m (len + 1 + length ys) (tty\<lparr>rx_fifo := f\<rparr>) vmin vtime nonblock st",
        simp add: case_prod_beta Let_def)
qed

lemma raw_loop_nonblock:
  assumes "fifo_ok (rx_fifo tty)"
  shows "\<exists>f. fifo_ok f \<and> fifo_content f = drop n (rx tty) \<and>
    raw_loop ws n len tty vmin vtime True st =
      ((if len = 0 \<and> rx tty = [] \<and> n \<noteq> 0 then Rd_err EWOULDBLOCK
        else Rd_len (len + min n (length (rx tty)))),
       take n (rx tty), st, tty\<lparr>rx_fifo := f\<rparr>)"
proof (cases "n \<le> length (rx tty)")
  case True
  with raw_loop_skip [of tty "take n (rx tty)" "drop n (rx tty)" ws 0 len vmin vtime True st] assms
  show ?thesis by (auto simp: min_absorb1 min_absorb2)
next
  case False
  then obtain m where n: "n = length (rx tty) + Suc m"
    by (metis add_Suc_right less_imp_Suc_add not_le)
  from raw_loop_skip [of tty "rx tty" "[]" ws "Suc m" len vmin vtime True st] assms
  obtain f where f: "fifo_ok f" "fifo_content f = []"
    "raw_loop ws n len tty vmin vtime True st =
      apsnd (apfst ((@) (rx tty)))
        (raw_loop ws (Suc m) (len + length (rx tty)) (tty\<lparr>rx_fifo := f\<rparr>) vmin vtime True st)"
    by (auto simp: n)
  then show ?thesis by (intro exI [of _ f]) (simp add: n fifo_empty_iff)
qed

lemma raw_loop_enough:
  assumes "fifo_ok (rx_fifo tty)" and "vmin \<le> len + length (rx tty) \<or> n \<le> length (rx tty)"
    and "0 < len + length (rx tty)"
  shows "\<exists>f. fifo_ok f \<and> fifo_content f = drop n (rx tty) \<and>
    raw_loop ws n len tty vmin vtime False st =
      (Rd_len (len + min n (length (rx tty))), take n (rx tty), st, tty\<lparr>rx_fifo := f\<rparr>)"
proof (cases "n \<le> length (rx tty)")
  case True
  with raw_loop_skip [of tty "take n (rx tty)" "drop n (rx tty)" ws 0 len vmin vtime False st] assms
  show ?thesis by (auto simp: min_absorb1 min_absorb2)
next
  case False
  then obtain m where n: "n = length (rx tty) + Suc m"
    by (metis add_Suc_right less_imp_Suc_add not_le)
  from raw_loop_skip [of tty "rx tty" "[]" ws "Suc m" len vmin vtime False st] assms
  obtain f where f: "fifo_ok f" "fifo_content f = []"
    "raw_loop ws n len tty vmin vtime False st =
      apsnd (apfst ((@) (rx tty)))
        (raw_loop ws (Suc m) (len + length (rx tty)) (tty\<lparr>rx_fifo := f\<rparr>) vmin vtime False st)"
    by (auto simp: n)
  with False assms show ?thesis by (intro exI [of _ f]) (auto simp: n fifo_empty_iff)
qed

text \<open>Too few bytes: the non-blocking interface keeps what it has and asks to be called again.\<close>

lemma raw_loop_later:
  assumes "fifo_ok (rx_fifo tty)" and "len + length (rx tty) < vmin" and "length (rx tty) < n"
  shows "\<exists>f. fifo_ok f \<and> fifo_content f = [] \<and>
    raw_loop ws n len tty vmin vtime False (Some st) =
      (Rd_len 0, rx tty,
       Some (st\<lparr>prevlen := len + length (rx tty),
         timeout_ms := (if len + length (rx tty) = 0 then 0 else vtime)\<rparr>),
       tty\<lparr>rx_fifo := f\<rparr>)"
proof -
  obtain m where n: "n = length (rx tty) + Suc m"
    using assms(3) by (metis add_Suc_right less_imp_Suc_add)
  from raw_loop_skip [of tty "rx tty" "[]" ws "Suc m" len vmin vtime False "Some st"] assms
  obtain f where f: "fifo_ok f" "fifo_content f = []"
    "raw_loop ws n len tty vmin vtime False (Some st) =
      apsnd (apfst ((@) (rx tty)))
        (raw_loop ws (Suc m) (len + length (rx tty)) (tty\<lparr>rx_fifo := f\<rparr>) vmin vtime False (Some st))"
    by (auto simp: n)
  with assms(2) show ?thesis by (intro exI [of _ f]) (auto simp: n fifo_empty_iff)
qed

abbreviation vmin_of :: "tty \<Rightarrow> nat" where
  "vmin_of tty \<equiv> unat (c_cc (tterm tty) VMIN)"

lemma readRaw_first:
  assumes "fifo_ok (rx_fifo tty)" and "length (rx tty) < vmin_of tty" and "length (rx tty) < sz"
  shows "\<exists>st f. libttydisc_readRaw ws tty sz False (Some libtty_read_state_init) =
      (Rd_len 0, rx tty, Some st, tty\<lparr>rx_fifo := f\<rparr>) \<and>
    prevlen st = length (rx tty) \<and> 0 \<le> timeout_ms st \<and> fifo_ok f \<and> fifo_content f = []"
  using raw_loop_later [of tty 0 "vmin_of tty" sz ws
      "int (unat (c_cc (tterm tty) VTIME)) * 100" libtty_read_state_init] assms
  by (auto simp: libttydisc_readRaw_def libtty_read_state_init_def)

lemma readRaw_again:
  assumes "fifo_ok (rx_fifo tty)" and "rx tty \<noteq> []" and "0 \<le> timeout_ms st"
    and "vmin_of tty \<le> prevlen st + length (rx tty)" and "prevlen st \<le> sz"
  shows "\<exists>f. libttydisc_readRaw ws tty sz False (Some st) =
      (Rd_len (min sz (prevlen st + length (rx tty))), take (sz - prevlen st) (rx tty),
       Some (st\<lparr>timeout_ms := -1\<rparr>), tty\<lparr>rx_fifo := f\<rparr>) \<and>
    fifo_ok f \<and> fifo_content f = drop (sz - prevlen st) (rx tty)"
proof -
  have "min sz (prevlen st + length (rx tty)) = prevlen st + min (sz - prevlen st) (length (rx tty))"
    using assms(5) by linarith
  with raw_loop_enough [of tty "vmin_of tty" "prevlen st" "sz - prevlen st" ws
      "int (unat (c_cc (tterm tty) VTIME)) * 100" "Some (st\<lparr>timeout_ms := -1\<rparr>)"] assms
  show ?thesis by (auto simp: libttydisc_readRaw_def fifo_empty_iff)
qed

subsection \<open>What the receive ring loses when it overflows\<close>


end
