(* ===== verification/Libtty.thy ===== *)
theory Libtty
  imports Tty_Read
begin

text \<open>
  The tty layer itself, \<open>tty/libtty/libtty.c\<close>: start-up and tear-down, the read, write and
  poll entry points, flushing and draining, the controlling-terminal protocol and the ioctl
  dispatcher. The mutex of the terminal makes every entry point one step, up to the points
  where it sleeps on a condition variable; the locked wrappers therefore coincide with the
  functions they call. The kernel's process queries are a parameter.
\<close>

subsection \<open>Defaults\<close>

definition TTYSUP_IFLAG :: "iflag set" where "TTYSUP_IFLAG = {ISTRIP, INLCR, IGNCR, ICRNL}"
definition TTYSUP_OFLAG :: "oflag set" where "TTYSUP_OFLAG = {OPOST, ONLCR, TAB3, OCRNL}"
definition TTYSUP_LFLAG :: "lflag set" where
  "TTYSUP_LFLAG = {ECHOE, ECHO, ECHONL, ECHOCTL, ISIG, ICANON, IEXTEN}"

definition TTYDEF_IFLAG :: "iflag set" where "TTYDEF_IFLAG = {BRKINT, ISTRIP, ICRNL, IMAXBEL}"
definition TTYDEF_OFLAG :: "oflag set" where "TTYDEF_OFLAG = {OPOST, ONLCR, TAB3}"
definition TTYDEF_LFLAG :: "lflag set" where
  "TTYDEF_LFLAG = {ECHO, ICANON, ISIG, IEXTEN, ECHOE, ECHOK, ECHOCTL}"
definition TTYDEF_CFLAG :: "cflag set" where "TTYDEF_CFLAG = {CREAD, CS8, CLOCAL}"

definition TX_FIFO_NOTFULL_WATERMARK :: nat where "TX_FIFO_NOTFULL_WATERMARK = 16"

text \<open>\<open>CTRL(x)\<close> is \<open>x & 037\<close>. The C array is positional; the constructors of \<^typ>\<open>cc\<close> are in its
  order.\<close>

fun ttydefchars :: "u8 \<Rightarrow> cc \<Rightarrow> u8" where
  "ttydefchars vdis VINTR = 3"
| "ttydefchars vdis VQUIT = 0x1c"
| "ttydefchars vdis VERASE = 0x7f"
| "ttydefchars vdis VKILL = 0x15"
| "ttydefchars vdis VEOF = 4"
| "ttydefchars vdis VTIME = 0"
| "ttydefchars vdis VMIN = 1"
| "ttydefchars vdis VSTART = 0x11"
| "ttydefchars vdis VSTOP = 0x13"
| "ttydefchars vdis VSUSP = 0x1a"
| "ttydefchars vdis VEOL = vdis"
| "ttydefchars vdis VREPRINT = 0x12"
| "ttydefchars vdis VDISCARD = 0x0f"
| "ttydefchars vdis VWERASE = 0x17"
| "ttydefchars vdis VLNEXT = 0x16"
| "ttydefchars vdis VERASE2 = 8"
| "ttydefchars vdis VEOL2 = vdis"

definition termios_init :: "u8 \<Rightarrow> u32 \<Rightarrow> termios" where
  "termios_init vdis speed =
     \<lparr>c_iflag = TTYDEF_IFLAG \<inter> TTYSUP_IFLAG, c_oflag = TTYDEF_OFLAG \<inter> TTYSUP_OFLAG,
      c_cflag = TTYDEF_CFLAG, c_lflag = TTYDEF_LFLAG \<inter> TTYSUP_LFLAG,
      c_cc = ttydefchars vdis, c_ispeed = speed, c_ospeed = speed\<rparr>"

definition termios_optimize :: "tty \<Rightarrow> tty option" where
  "termios_optimize tty =
     (let cc = c_cc (tterm tty);
          bs = (breakchars tty)[0 := CNL];
          n = (1 :: nat);
          (bs, n) = (if cc VEOF \<noteq> vdisable tty then (bs[n := cc VEOF], n + 1) else (bs, n));
          (bs, n) = (if cc VEOL \<noteq> vdisable tty then (bs[n := cc VEOL], n + 1) else (bs, n));
          tty1 = tf_clear TF_HAVEBREAK (tty\<lparr>breakchars := bs[n := 0]\<rparr>)
      in if lflag_on tty1 ICANON then do {
           h \<leftarrow> libttydisc_rx_have_breakchar tty1;
           Some (if h then tf_set TF_HAVEBREAK tty1 else tty1)
         }
         else Some tty1)"

subsection \<open>Start-up and tear-down\<close>

text \<open>The resources a terminal may hold, and what the system calls of the start-up answer: the
  mutex, the two buffers, the two condition variables.\<close>

datatype resource = R_lock | R_txmem | R_rxmem | R_txq | R_rxq

record init_env =
  ie_mutex :: bool
  ie_txmem :: "u8 list option"
  ie_rxmem :: "u8 list option"
  ie_txq :: bool
  ie_rxq :: bool
  ie_vdisable :: u8

definition libtty_destroy :: "resource list \<Rightarrow> resource list" where
  "libtty_destroy held =
     (let h1 = (if R_txq \<in> set held then removeAll R_txq held else held);
          h2 = (if R_rxq \<in> set h1 then removeAll R_rxq h1 else h1);
          h3 = (if R_rxmem \<in> set h2 then removeAll R_rxmem h2 else h2);
          h4 = (if R_txmem \<in> set h3 then removeAll R_txmem h3 else h3)
      in if R_lock \<in> set h4 then removeAll R_lock h4 else h4)"

definition init_tty :: "init_env \<Rightarrow> libtty_callbacks \<Rightarrow> u32 \<Rightarrow> u32 \<Rightarrow> u8 list \<Rightarrow> u8 list \<Rightarrow> tty" where
  "init_tty env callbacks bufsize speed txmem rxmem =
     \<lparr>cb = callbacks, tterm = termios_init (ie_vdisable env) speed, ws_row = 0, ws_col = 0,
      sid = 0, pgrp = 0,
      tx_fifo = fifo_init \<lparr>f_head = 0, f_tail = 0, f_size_mask = 0, f_data = txmem\<rparr> bufsize,
      rx_fifo = fifo_init \<lparr>f_head = 0, f_tail = 0, f_size_mask = 0, f_data = rxmem\<rparr> bufsize,
      breakchars = [0, 0, 0, 0], t_flags = 0, vdisable = ie_vdisable env, events = []\<rparr>"

text \<open>The result is the new terminal (\<^term>\<open>None\<close> for the C function's -1) with the resources that
  are held when the call returns.\<close>

definition libtty_init ::
    "init_env \<Rightarrow> libtty_callbacks \<Rightarrow> u32 \<Rightarrow> int \<Rightarrow> bool \<Rightarrow> (tty option \<times> resource list) option" where
  "libtty_init env callbacks bufsize speed lock_given =
     (if bufsize = 0 \<or> bufsize AND (bufsize - 1) \<noteq> 0 then Some (None, [])
      else if speed < 0 then Some (None, [])
      else if \<not> lock_given \<and> \<not> ie_mutex env then Some (None, [])
      else
        let held0 = (if lock_given then [] else [R_lock]);
            held1 = held0 @ (if ie_txmem env \<noteq> None then [R_txmem] else []) @
              (if ie_rxmem env \<noteq> None then [R_rxmem] else [])
        in case (ie_txmem env, ie_rxmem env) of
             (Some txmem, Some rxmem) \<Rightarrow>
               if \<not> ie_txq env then Some (None, libtty_destroy held1)
               else if \<not> ie_rxq env then Some (None, libtty_destroy (held1 @ [R_txq]))
               else do {
                 tty \<leftarrow> termios_optimize (init_tty env callbacks bufsize (of_int speed) txmem rxmem);
                 Some (Some (tty\<lparr>ws_row := 25, ws_col := 80, sid := -1, pgrp := -1\<rparr>),
                   held1 @ [R_txq, R_rxq])
               }
           | _ \<Rightarrow> Some (None, libtty_destroy held1))"

definition libtty_close :: "tty \<Rightarrow> tty" where
  "libtty_close tty = emit Ev_broadcast_rx (emit Ev_broadcast_tx (tf_set TF_CLOSING tty))"

subsection \<open>Reading, writing, polling\<close>

definition libtty_read_nonblock ::
    "wakeup list \<Rightarrow> tty \<Rightarrow> nat \<Rightarrow> bool \<Rightarrow> read_state option \<Rightarrow>
      (rd \<times> u8 list \<times> read_state option \<times> tty) option" where
  "libtty_read_nonblock ws tty sz nonblock st =
     (if tf tty TF_CLOSING then Some (Rd_err EBADF, [], st, tty)
      else if lflag_on tty ICANON then libttydisc_readCanon ws tty sz nonblock st
      else Some (libttydisc_readRaw ws tty sz nonblock st))"

definition libtty_read ::
    "wakeup list \<Rightarrow> tty \<Rightarrow> nat \<Rightarrow> bool \<Rightarrow> (rd \<times> u8 list \<times> read_state option \<times> tty) option" where
  "libtty_read ws tty sz nonblock = libtty_read_nonblock ws tty sz nonblock None"

definition libtty_popchar :: "tty \<Rightarrow> u8 \<times> tty" where
  "libtty_popchar tty =
     (let (c, f) = fifo_pop_back (tx_fifo tty) in (c, tty\<lparr>tx_fifo := f\<rparr>))"

definition libtty_wake_writer :: "tty \<Rightarrow> tty" where
  "libtty_wake_writer tty =
     (if unat (fifo_freespace (tx_fifo tty)) \<ge> TX_FIFO_NOTFULL_WATERMARK
      then emit Ev_signal_tx tty else tty)"

definition libtty_getchar :: "tty \<Rightarrow> bool \<Rightarrow> u8 \<times> bool \<times> tty" where
  "libtty_getchar tty wake =
     (let (c, tty1) = libtty_popchar tty
      in if wake
         then (c, unat (fifo_freespace (tx_fifo tty1)) \<ge> TX_FIFO_NOTFULL_WATERMARK, tty1)
         else (c, False, libtty_wake_writer tty1))"

datatype wr = Wr_len nat | Wr_err errno | Wr_asleep

datatype write_out = WW_room | WW_exit | WW_asleep

fun write_wait :: "wakeup list \<Rightarrow> tty \<Rightarrow> nat \<Rightarrow> bool \<Rightarrow> write_out \<times> wakeup list \<times> tty" where
  "write_wait ws tty need nonblock =
     (if unat (fifo_freespace (tx_fifo tty)) < need then
        (if tf tty TF_CLOSING then (WW_exit, ws, tty)
         else if nonblock then (WW_exit, ws, tty)
         else
           let tty1 = (if signal_txready (cb tty) then emit Ev_txready tty else tty)
           in case ws of [] \<Rightarrow> (WW_asleep, [], tty1)
             | w # ws' \<Rightarrow> write_wait ws' (fst (w tty1)) need nonblock)
      else (WW_room, ws, tty))"

definition write_exit :: "tty \<Rightarrow> nat \<Rightarrow> bool \<Rightarrow> wr" where
  "write_exit tty len nonblock =
     (if tf tty TF_CLOSING then Wr_err EPIPE
      else if len = 0 \<and> nonblock then Wr_err EWOULDBLOCK
      else Wr_len len)"

definition write_char :: "tty \<Rightarrow> u8 \<Rightarrow> tty" where
  "write_char tty c =
     (if oflag_on tty OPOST \<and> CTL_VALID c then snd (libttydisc_writeOproc tty c)
      else tty\<lparr>tx_fifo := fifo_push (tx_fifo tty) c\<rparr>)"

fun write_loop :: "wakeup list \<Rightarrow> u8 list \<Rightarrow> nat \<Rightarrow> tty \<Rightarrow> nat \<Rightarrow> bool \<Rightarrow> wr \<times> tty" where
  "write_loop ws [] len tty need nonblock =
     (let tty1 = (if signal_txready (cb tty) then emit Ev_txready tty else tty)
      in (write_exit tty1 len nonblock, tty1))"
| "write_loop ws (c # cs) len tty need nonblock =
     (case write_wait ws tty need nonblock of
        (WW_exit, ws1, tty1) \<Rightarrow> (write_exit tty1 len nonblock, tty1)
      | (WW_asleep, ws1, tty1) \<Rightarrow> (Wr_asleep, tty1)
      | (WW_room, ws1, tty1) \<Rightarrow> write_loop ws1 cs (len + 1) (write_char tty1 c) need nonblock)"

definition libtty_write :: "wakeup list \<Rightarrow> tty \<Rightarrow> u8 list \<Rightarrow> bool \<Rightarrow> wr \<times> tty" where
  "libtty_write ws tty data nonblock =
     (if tf tty TF_CLOSING then (Wr_err EPIPE, tty)
      else if fifo_is_full (tx_fifo tty) \<and> nonblock then (Wr_err EWOULDBLOCK, tty)
      else if data = [] then (Wr_len 0, tty)
      else write_loop ws data 0 tty
        (if oflag_on tty OPOST then LIBTTYDISC_WRITE_OPROC_MAXLEN else 1) nonblock)"

definition libtty_txready :: "tty \<Rightarrow> bool" where
  "libtty_txready tty \<longleftrightarrow> \<not> fifo_is_empty (tx_fifo tty)"

definition libtty_txfull :: "tty \<Rightarrow> bool" where
  "libtty_txfull tty \<longleftrightarrow> fifo_is_full (tx_fifo tty)"

definition libtty_rxready :: "tty \<Rightarrow> bool" where
  "libtty_rxready tty \<longleftrightarrow> \<not> fifo_is_empty (rx_fifo tty)"

datatype poll_bit = POLLIN | POLLRDNORM | POLLOUT | POLLWRNORM | POLLHUP

definition libtty_poll_status :: "tty \<Rightarrow> poll_bit set" where
  "libtty_poll_status tty =
     (if \<not> lflag_on tty ICANON
      then (if libtty_rxready tty then {POLLIN, POLLRDNORM} else {})
      else (if tf tty TF_HAVEBREAK then {POLLIN, POLLRDNORM} else {})) \<union>
     (if \<not> libtty_txfull tty then {POLLOUT, POLLWRNORM} else {}) \<union>
     (if tf tty TF_CLOSING then {POLLHUP} else {})"

subsection \<open>Flushing and draining\<close>

fun libtty_drain :: "wakeup list \<Rightarrow> tty \<Rightarrow> bool \<times> tty" where
  "libtty_drain ws tty =
     (if \<not> fifo_is_empty (tx_fifo tty) then
        (case ws of [] \<Rightarrow> (False, tty) | w # ws' \<Rightarrow> libtty_drain ws' (fst (w tty)))
      else (True, tty))"

datatype flush_type = TCIFLUSH | TCOFLUSH | TCIOFLUSH | Flush_other

definition libtty_flush :: "tty \<Rightarrow> flush_type \<Rightarrow> (errno option \<times> tty) option" where
  "libtty_flush tty type =
     (if type \<noteq> TCIFLUSH \<and> type \<noteq> TCOFLUSH \<and> type \<noteq> TCIOFLUSH then Some (Some EINVAL, tty)
      else
        let tty1 = (if type = TCIFLUSH \<or> type = TCIOFLUSH
                    then tty\<lparr>rx_fifo := fifo_remove_all (rx_fifo tty)\<rparr> else tty);
            tty2 = (if type = TCOFLUSH \<or> type = TCIOFLUSH
                    then tty1\<lparr>tx_fifo := fifo_remove_all_but_one (tx_fifo tty1)\<rparr> else tty1)
        in map_option (Pair None) (termios_optimize tty2))"

definition libtty_set_mode_raw :: "tty \<Rightarrow> tty" where
  "libtty_set_mode_raw tty =
     (let t = tterm tty
      in tty\<lparr>tterm := t\<lparr>c_iflag := c_iflag t - {IGNBRK, BRKINT, INLCR, IGNCR, ICRNL, ISTRIP},
                       c_oflag := c_oflag t - {OPOST},
                       c_lflag := c_lflag t - {ECHO, ECHONL, ICANON, ISIG, IEXTEN}\<rparr>\<rparr>)"

subsection \<open>The controlling terminal\<close>

text \<open>What the kernel answers: the session of a process (\<^term>\<open>None\<close> for -1), its process group
  (or the error), whether a process with given pid, group and session exists (0 is a wildcard;
  the flag restricts to live ones; the result is the system call's number), and whether a
  session may take a controlling terminal.\<close>

record kernel =
  k_getsid :: "int \<Rightarrow> nat option"
  k_getpgid :: "int \<Rightarrow> errno + nat"
  k_procExists :: "int \<Rightarrow> int \<Rightarrow> int \<Rightarrow> bool \<Rightarrow> int"
  k_sessionCtty :: "int \<Rightarrow> errno option"

definition libtty_sessionRelease :: "tty \<Rightarrow> tty" where
  "libtty_sessionRelease tty =
     (let s = sid tty; tty1 = tty\<lparr>sid := -1, pgrp := -1\<rparr>
      in if s \<ge> 0 then emit (Ev_sessionCtty s False) tty1 else tty1)"

definition libtty_hangup :: "tty \<Rightarrow> tty" where
  "libtty_hangup tty = libtty_sessionRelease (libtty_signal_pgrp tty SIGHUP)"

definition libtty_sessionCheck :: "kernel \<Rightarrow> tty \<Rightarrow> int \<Rightarrow> bool \<Rightarrow> (errno + int) \<times> tty" where
  "libtty_sessionCheck k tty sender_pid claim =
     (if sender_pid \<le> 0 then (Inl ENOTTY, tty)
      else case k_getsid k sender_pid of
          None \<Rightarrow> (Inl ENOTTY, tty)
        | Some s \<Rightarrow>
            let tty1 = (if sid tty \<ge> 0 \<and> k_procExists k (sid tty) 0 (sid tty) True = 0
                        then tty\<lparr>sid := -1, pgrp := -1\<rparr> else tty)
            in if sid tty1 < 0 then (if claim then Inr (int s) else Inl ENOTTY, tty1)
               else (if sid tty1 = int s then Inr (int s) else Inl ENOTTY, tty1))"

definition libtty_sessionClaim :: "tty \<Rightarrow> int \<Rightarrow> tty" where
  "libtty_sessionClaim tty s = (if sid tty < 0 then tty\<lparr>sid := s\<rparr> else tty)"

definition libtty_sessionAcquire :: "kernel \<Rightarrow> tty \<Rightarrow> int \<Rightarrow> errno option \<times> tty" where
  "libtty_sessionAcquire k tty sender_pid =
     (case libtty_sessionCheck k tty sender_pid True of
        (Inl e, tty1) \<Rightarrow> (Some e, tty1)
      | (Inr s, tty1) \<Rightarrow>
          if s \<noteq> sender_pid then (Some EPERM, tty1)
          else if sid tty1 = s then (None, tty1)
          else (case k_getpgid k sender_pid of
              Inl e \<Rightarrow> (Some e, tty1)
            | Inr g \<Rightarrow>
                let tty2 = emit (Ev_sessionCtty s True) tty1
                in case k_sessionCtty k s of
                     Some e \<Rightarrow> (Some e, tty2)
                   | None \<Rightarrow> (None, (libtty_sessionClaim tty2 s)\<lparr>pgrp := int g\<rparr>)))"

definition libtty_acquire :: "kernel \<Rightarrow> tty \<Rightarrow> int \<Rightarrow> bool \<Rightarrow> tty" where
  "libtty_acquire k tty sender_pid noctty =
     (if \<not> noctty then snd (libtty_sessionAcquire k tty sender_pid) else tty)"

subsection \<open>The ioctl dispatcher\<close>

datatype ioctl =
    TIOCGWINSZ | TIOCSWINSZ u16 u16 | TCDRAIN | TCFLSH flush_type
  | TCSETS termios | TCSETSW termios | TCSETSF termios | TCGETS
  | TIOCGPGRP | TIOCSPGRP "int option" | TIOCNOTTY | TIOCSCTTY | TIOCGSID
  | TIOCGHALFD | TIOCSHALFD int | FIONREAD | Ioctl_other

datatype ioctl_out = Out_none | Out_winsize u16 u16 | Out_termios termios | Out_int int

datatype ioctl_ret = I_ok | I_err errno | I_asleep

definition ret_of :: "errno option \<Rightarrow> ioctl_ret" where
  "ret_of e = (case e of None \<Rightarrow> I_ok | Some e \<Rightarrow> I_err e)"

definition libtty_cttyIoctl ::
    "kernel \<Rightarrow> tty \<Rightarrow> int \<Rightarrow> ioctl \<Rightarrow> errno option \<times> ioctl_out \<times> tty" where
  "libtty_cttyIoctl k tty sender_pid cmd =
     (case cmd of
        TIOCGPGRP \<Rightarrow>
          (case libtty_sessionCheck k tty sender_pid False of
             (Inl e, tty1) \<Rightarrow> (Some e, Out_none, tty1)
           | (Inr s, tty1) \<Rightarrow> (None, Out_int (pgrp tty1), tty1))
      | TIOCSPGRP None \<Rightarrow> (Some EINVAL, Out_none, tty)
      | TIOCSPGRP (Some pgid) \<Rightarrow>
          if pgid \<le> 0 then (Some EINVAL, Out_none, tty)
          else (case libtty_sessionCheck k tty sender_pid False of
              (Inl e, tty1) \<Rightarrow> (Some e, Out_none, tty1)
            | (Inr s, tty1) \<Rightarrow>
                if k_procExists k 0 pgid s False \<noteq> 1 then (Some EPERM, Out_none, tty1)
                else (None, Out_none, tty1\<lparr>pgrp := pgid\<rparr>))
      | TIOCNOTTY \<Rightarrow>
          (case libtty_sessionCheck k tty sender_pid False of
             (Inl e, tty1) \<Rightarrow> (Some e, Out_none, tty1)
           | (Inr s, tty1) \<Rightarrow>
               if s \<noteq> sender_pid then (Some EPERM, Out_none, tty1)
               else (None, Out_none, libtty_sessionRelease tty1))
      | TIOCSCTTY \<Rightarrow>
          (let (e, tty1) = libtty_sessionAcquire k tty sender_pid in (e, Out_none, tty1))
      | TIOCGSID \<Rightarrow>
          (case libtty_sessionCheck k tty sender_pid False of
             (Inl e, tty1) \<Rightarrow> (Some e, Out_none, tty1)
           | (Inr s, tty1) \<Rightarrow> (None, Out_int (sid tty1), tty1))
      | _ \<Rightarrow> (Some EINVAL, Out_none, tty))"

definition tcsets :: "tty \<Rightarrow> termios \<Rightarrow> (ioctl_ret \<times> tty) option" where
  "tcsets tty term0 =
     (let term1 = (if c_ispeed term0 = 0 then term0\<lparr>c_ispeed := c_ospeed term0\<rparr> else term0)
      in if c_ispeed term1 \<noteq> c_ospeed term1 then Some (I_err EINVAL, tty)
         else
           let tty1 = (if c_ospeed term1 \<noteq> c_ospeed (tterm tty) \<and> set_baudrate (cb tty)
                       then emit (Ev_baudrate (c_ospeed term1)) tty else tty);
               (term2, tty2) =
                 (if c_cflag term1 \<noteq> c_cflag (tterm tty1)
                  then (case set_cflag (cb tty1) of
                          None \<Rightarrow> (term1, tty1)
                        | Some g \<Rightarrow> (term1\<lparr>c_cflag := g (c_cflag term1)\<rparr>,
                                    emit (Ev_cflag (c_cflag term1)) tty1))
                  else (term1, tty1));
               term3 = term2\<lparr>c_iflag := c_iflag term2 \<inter> TTYSUP_IFLAG,
                             c_oflag := c_oflag term2 \<inter> TTYSUP_OFLAG,
                             c_lflag := c_lflag term2 \<inter> TTYSUP_LFLAG\<rparr>
           in map_option (Pair I_ok) (termios_optimize (tty2\<lparr>tterm := term3\<rparr>)))"

definition libtty_ioctl ::
    "kernel \<Rightarrow> wakeup list \<Rightarrow> tty \<Rightarrow> int \<Rightarrow> ioctl \<Rightarrow> (ioctl_ret \<times> ioctl_out \<times> tty) option" where
  "libtty_ioctl k ws tty sender_pid cmd =
     (case cmd of
        TIOCGWINSZ \<Rightarrow> Some (I_ok, Out_winsize (ws_row tty) (ws_col tty), tty)
      | TIOCSWINSZ r c \<Rightarrow>
          Some (I_ok, Out_none, libtty_signal_pgrp (tty\<lparr>ws_row := r, ws_col := c\<rparr>) SIGWINCH)
      | TCDRAIN \<Rightarrow>
          (let (done, tty1) = libtty_drain ws tty
           in Some (if done then I_ok else I_asleep, Out_none, tty1))
      | TCFLSH type \<Rightarrow> map_option (\<lambda>(e, tty1). (ret_of e, Out_none, tty1)) (libtty_flush tty type)
      | TCSETS t \<Rightarrow> map_option (\<lambda>(r, tty1). (r, Out_none, tty1)) (tcsets tty t)
      | TCSETSW t \<Rightarrow> map_option (\<lambda>(r, tty1). (r, Out_none, tty1)) (tcsets tty t)
      | TCSETSF t \<Rightarrow> map_option (\<lambda>(r, tty1). (r, Out_none, tty1)) (tcsets tty t)
      | TCGETS \<Rightarrow> Some (I_ok, Out_termios (tterm tty), tty)
      | TIOCGHALFD \<Rightarrow>
          (case get_halfduplex (cb tty) of
             None \<Rightarrow> Some (I_err EIO, Out_none, tty)
           | Some v \<Rightarrow> Some (I_ok, Out_int v, tty))
      | TIOCSHALFD enable \<Rightarrow>
          (if \<not> set_halfduplex (cb tty) then Some (I_err EIO, Out_none, tty)
           else if enable \<noteq> 0 \<and> enable \<noteq> 1 then Some (I_err EINVAL, Out_none, tty)
           else Some (I_ok, Out_none, emit (Ev_halfduplex enable) tty))
      | FIONREAD \<Rightarrow> Some (I_ok, Out_int (sint (fifo_count (rx_fifo tty))), tty)
      | Ioctl_other \<Rightarrow> Some (I_err EINVAL, Out_none, tty)
      | _ \<Rightarrow> (let (e, out, tty1) = libtty_cttyIoctl k tty sender_pid cmd
             in Some (ret_of e, out, tty1)))"

subsection \<open>Refreshing the cached attributes\<close>

definition optimized :: "tty \<Rightarrow> u8 list \<Rightarrow> tty" where
  "optimized tty bs =
     (let tty1 = tf_clear TF_HAVEBREAK (tty\<lparr>breakchars := bs\<rparr>)
      in if lflag_on tty ICANON \<and> (\<exists>c \<in> set (rx tty). breakchar_scan bs c)
         then tf_set TF_HAVEBREAK tty1 else tty1)"

lemma optimized_fields [simp]:
  "rx_fifo (optimized tty bs) = rx_fifo tty" "tx_fifo (optimized tty bs) = tx_fifo tty"
  "tterm (optimized tty bs) = tterm tty" "vdisable (optimized tty bs) = vdisable tty"
  "sid (optimized tty bs) = sid tty" "pgrp (optimized tty bs) = pgrp tty"
  "cb (optimized tty bs) = cb tty" "events (optimized tty bs) = events tty"
  "breakchars (optimized tty bs) = bs"
  by (simp_all add: optimized_def Let_def tf_clear_def tf_set_def)

lemma optimized_flags [simp]:
  "tf (optimized tty bs) TF_CLOSING = tf tty TF_CLOSING"
  "tf (optimized tty bs) TF_LITERAL = tf tty TF_LITERAL"
proof -
  have b: "tf (tty\<lparr>breakchars := bs\<rparr>) x = tf tty x" for x by (simp add: tf_def)
  have a: "TF_HAVEBREAK AND TF_CLOSING = 0" "TF_HAVEBREAK AND TF_LITERAL = 0"
    by (simp_all add: TF_HAVEBREAK_def TF_CLOSING_def TF_LITERAL_def)
  show "tf (optimized tty bs) TF_CLOSING = tf tty TF_CLOSING"
    "tf (optimized tty bs) TF_LITERAL = tf tty TF_LITERAL"
    by (simp_all add: optimized_def Let_def tf_set_other tf_clear_other a b)
qed

lemma optimized_brk: "brk_exact (optimized tty bs)"
proof -
  let ?t = "tf_clear TF_HAVEBREAK (tty\<lparr>breakchars := bs\<rparr>)"
  have "\<not> tf ?t TF_HAVEBREAK" "tf (tf_set TF_HAVEBREAK ?t) TF_HAVEBREAK"
    by (simp_all add: tf_clear_same tf_set_same TF_HAVEBREAK_def)
  then show ?thesis
    by (auto simp: brk_exact_def libttydisc_is_breakchar_def) (auto simp: optimized_def Let_def split: if_splits)
qed

text \<open>The break characters of a terminal: the array is cut at the first NUL.\<close>

definition break_list :: "tty \<Rightarrow> u8 list" where
  "break_list tty =
     CNL # (if c_cc (tterm tty) VEOF \<noteq> vdisable tty then [c_cc (tterm tty) VEOF] else []) @
       (if c_cc (tterm tty) VEOL \<noteq> vdisable tty then [c_cc (tterm tty) VEOL] else [])"

lemma breakchar_scan_cut:
  "breakchar_scan (xs @ 0 # ys) c \<longleftrightarrow> c \<in> set (takeWhile (\<lambda>b. b \<noteq> 0) xs)"
  by (induction xs) auto

lemma termios_optimize_eq:
  assumes "fifo_ok (rx_fifo tty)" and "length (breakchars tty) = 4"
  obtains ys where "termios_optimize tty = Some (optimized tty (break_list tty @ 0 # ys))"
    and "length (break_list tty @ 0 # ys) = 4"
proof -
  obtain a b c d where bs: "breakchars tty = [a, b, c, d]"
    using assms(2) by (auto simp: length_Suc_conv numeral_eq_Suc)
  let ?ys = "drop (length (break_list tty) + 1) [a, b, c, d]"
  let ?bs = "break_list tty @ 0 # ?ys"
  let ?t = "tf_clear TF_HAVEBREAK (tty\<lparr>breakchars := ?bs\<rparr>)"
  have h: "libttydisc_rx_have_breakchar ?t = Some (\<exists>c \<in> set (rx tty). breakchar_scan ?bs c)"
    using assms(1) by (simp add: rx_have_breakchar_eq libttydisc_is_breakchar_def)
  have "termios_optimize tty = (if lflag_on ?t ICANON then do {
           h \<leftarrow> libttydisc_rx_have_breakchar ?t;
           Some (if h then tf_set TF_HAVEBREAK ?t else ?t) } else Some ?t)"
    by (cases "c_cc (tterm tty) VEOF = vdisable tty"; cases "c_cc (tterm tty) VEOL = vdisable tty")
      (simp_all add: termios_optimize_def Let_def bs break_list_def numeral_eq_Suc cong: if_cong)
  then have "termios_optimize tty = Some (optimized tty ?bs)"
    using h by (simp add: optimized_def Let_def)
  moreover have "length ?bs = 4" by (simp add: break_list_def)
  ultimately show ?thesis by (rule that)
qed

lemma break_list_cache:
  "breakchars tty = break_list tty @ 0 # ys \<Longrightarrow> brk_cache_ok tty"
  by (auto simp: brk_cache_ok_def libttydisc_is_breakchar_def breakchar_scan_cut break_list_def
    line_end_def cmp_cc_def dest!: set_takeWhileD)


subsection \<open>Writing\<close>

declare write_wait.simps [simp del] libtty_drain.simps [simp del]

text \<open>The bytes one character of a write stands for.\<close>

definition out_bytes :: "tty \<Rightarrow> u8 \<Rightarrow> u8 list" where
  "out_bytes tty c = (if oflag_on tty OPOST \<and> CTL_VALID c then oproc_bytes tty c else [c])"

definition write_need :: "tty \<Rightarrow> nat" where
  "write_need tty = (if oflag_on tty OPOST then LIBTTYDISC_WRITE_OPROC_MAXLEN else 1)"

lemma out_bytes_length: "0 < length (out_bytes tty c)" "length (out_bytes tty c) \<le> write_need tty"
  using oproc_bytes_length [of tty c] by (auto simp: out_bytes_def write_need_def LIBTTYDISC_WRITE_OPROC_MAXLEN_def)

lemma out_bytes_cong: "tterm tty' = tterm tty \<Longrightarrow> out_bytes tty' = out_bytes tty"
  by (simp add: out_bytes_def oproc_bytes_def fun_eq_iff)

text \<open>What other threads do to the transmit ring while a writer sleeps: they take bytes out.\<close>

definition drained :: "tty \<Rightarrow> tty \<Rightarrow> bool" where
  "drained tty tty' \<longleftrightarrow>
     (\<exists>f es. tty' = tty\<lparr>tx_fifo := f, events := es\<rparr> \<and> fifo_ok f \<and>
       fifo_cap f = fifo_cap (tx_fifo tty) \<and>
       (\<exists>m \<le> length (tx tty). fifo_content f = drop m (tx tty)))"

definition drains :: "wakeup \<Rightarrow> bool" where
  "drains w \<longleftrightarrow> (\<forall>t. fifo_ok (tx_fifo t) \<longrightarrow> drained t (fst (w t)))"

lemma drained_refl: "fifo_ok (tx_fifo tty) \<Longrightarrow> drained tty tty"
  unfolding drained_def
  by (rule exI [of _ "tx_fifo tty"], rule exI [of _ "events tty"]) (simp, rule exI [of _ 0], simp)

lemma drained_emit: "fifo_ok (tx_fifo tty) \<Longrightarrow> drained tty (emit e tty)"
  unfolding drained_def emit_def
  by (rule exI [of _ "tx_fifo tty"], rule exI [of _ "events tty @ [e]"])
    (simp, rule exI [of _ 0], simp)

lemma drained_trans:
  assumes "drained a b" and "drained b c"
  shows "drained a c"
proof -
  from assms(1) obtain f es m where b: "b = a\<lparr>tx_fifo := f, events := es\<rparr>"
    "fifo_cap f = fifo_cap (tx_fifo a)" "m \<le> length (tx a)" "fifo_content f = drop m (tx a)"
    by (auto simp: drained_def)
  from assms(2) b obtain g es' k where c: "c = b\<lparr>tx_fifo := g, events := es'\<rparr>" "fifo_ok g"
    "fifo_cap g = fifo_cap (tx_fifo a)" "k \<le> length (tx a) - m" "fifo_content g = drop k (drop m (tx a))"
    by (auto simp: drained_def)
  then show ?thesis unfolding drained_def
    using b by (intro exI [of _ g] exI [of _ es'])
      (simp, rule exI [of _ "m + k"], simp add: add.commute)
qed

lemma drainedD:
  assumes "drained tty tty'"
  shows "fifo_ok (tx_fifo tty')" "fifo_cap (tx_fifo tty') = fifo_cap (tx_fifo tty)"
    "tterm tty' = tterm tty" "t_flags tty' = t_flags tty" "rx_fifo tty' = rx_fifo tty"
    "breakchars tty' = breakchars tty" "vdisable tty' = vdisable tty" "sid tty' = sid tty"
    "pgrp tty' = pgrp tty"
    and "\<exists>m \<le> length (tx tty). tx tty' = drop m (tx tty)"
  using assms by (auto simp: drained_def)

lemma write_wait_spec:
  assumes "fifo_ok (tx_fifo tty)" and "\<forall>w \<in> set ws. drains w" and "\<not> tf tty TF_CLOSING"
    and "write_wait ws tty need nonblock = (r, ws', tty')"
  shows "drained tty tty' \<and> set ws' \<subseteq> set ws \<and> (nonblock \<longrightarrow> tty' = tty) \<and>
    (if need \<le> fifo_cap (tx_fifo tty') - length (tx tty') then r = WW_room
     else r = (if nonblock then WW_exit else WW_asleep))"
  using assms
proof (induction ws arbitrary: tty)
  case Nil
  then show ?case
    by (subst (asm) write_wait.simps)
      (auto simp: fifo_freespace_eq drained_refl drained_emit Let_def split: if_splits)
next
  case (Cons w ws)
  let ?t = "if signal_txready (cb tty) then emit Ev_txready tty else tty"
  have t: "drained tty ?t" using Cons.prems by (simp add: drained_refl drained_emit)
  from drainedD(1) [OF t] Cons.prems(2) have "drained ?t (fst (w ?t))"
    by (simp add: drains_def)
  from drained_trans [OF t this] have w: "drained tty (fst (w ?t))" .
  then have cl: "\<not> tf (fst (w ?t)) TF_CLOSING"
    using Cons.prems(3) by (simp add: tf_def drainedD(4))
  show ?case
  proof (cases "fifo_cap (tx_fifo tty) - length (tx tty) < need \<and> \<not> nonblock")
    case True
    then have "write_wait ws (fst (w ?t)) need nonblock = (r, ws', tty')"
      using Cons.prems by (simp add: write_wait.simps [of "w # ws"] fifo_freespace_eq Let_def)
    from Cons.IH [OF _ _ cl this] Cons.prems(2) drainedD(1) [OF w] w True
    show ?thesis using drained_trans [OF w, of tty'] by (simp add: subset_insertI2)
  next
    case False
    with Cons.prems show ?thesis
      by (auto simp: write_wait.simps [of "w # ws"] fifo_freespace_eq drained_refl split: if_splits)
  qed
qed

lemma write_char_spec:
  assumes "fifo_ok (tx_fifo tty)" and "write_need tty \<le> fifo_cap (tx_fifo tty) - length (tx tty)"
  shows "tx_frame tty (write_char tty c)" and "tx (write_char tty c) = tx tty @ out_bytes tty c"
proof -
  have nf: "\<not> fifo_is_full (tx_fifo tty)"
    using assms out_bytes_length [of tty c] by (auto simp: fifo_full_iff)
  show "tx (write_char tty c) = tx tty @ out_bytes tty c"
    using assms nf out_bytes_length(2) [of tty c] 
    by (auto simp: write_char_def out_bytes_def writeOproc_eq txFeedback_content fifo_push_content)
  have "tx_frame tty (tty\<lparr>tx_fifo := fifo_push (tx_fifo tty) c\<rparr>)"
    unfolding tx_frame_def
    by (rule exI [of _ "fifo_push (tx_fifo tty) c"], rule exI [of _ "[]"])
      (auto simp: fifo_push_ok fifo_push_content nf)
  then show "tx_frame tty (write_char tty c)"
    by (simp add: write_char_def writeOproc_frame)
qed


lemma tx_frame_need: "tx_frame tty tty' \<Longrightarrow> write_need tty' = write_need tty"
  by (simp add: write_need_def tx_frameD)

text \<open>How far a write got: \<open>n\<close> characters of the data are in the ring behind what was there, and
  the device has taken the first \<open>m\<close> bytes of it all.\<close>

definition written :: "tty \<Rightarrow> u8 list \<Rightarrow> nat \<Rightarrow> nat \<Rightarrow> tty \<Rightarrow> bool" where
  "written tty data n m tty' \<longleftrightarrow>
     n \<le> length data \<and>
     tx tty' = drop m (tx tty @ concat (map (out_bytes tty) (take n data))) \<and>
     m \<le> length (tx tty @ concat (map (out_bytes tty) (take n data))) \<and>
     tterm tty' = tterm tty \<and> rx_fifo tty' = rx_fifo tty \<and> t_flags tty' = t_flags tty \<and>
     fifo_ok (tx_fifo tty') \<and> fifo_cap (tx_fifo tty') = fifo_cap (tx_fifo tty)"

definition write_result :: "nat \<Rightarrow> nat \<Rightarrow> nat \<Rightarrow> bool \<Rightarrow> wr" where
  "write_result sz n len nonblock =
     (if n = sz then Wr_len (len + n)
      else if \<not> nonblock then Wr_asleep
      else if len + n = 0 then Wr_err EWOULDBLOCK
      else Wr_len (len + n))"

lemma write_loop_spec:
  assumes "fifo_ok (tx_fifo tty)" and "\<forall>w \<in> set ws. drains w" and "\<not> tf tty TF_CLOSING"
    and "need = write_need tty" and "data = [] \<Longrightarrow> 0 < len"
  shows "\<exists>n m. written tty data n m (snd (write_loop ws data len tty need nonblock)) \<and>
    (nonblock \<longrightarrow> m = 0) \<and>
    (let t' = snd (write_loop ws data len tty need nonblock)
     in n < length data \<longrightarrow> fifo_cap (tx_fifo t') - length (tx t') < need) \<and>
    fst (write_loop ws data len tty need nonblock) = write_result (length data) n len nonblock"
  using assms
proof (induction data arbitrary: tty ws len)
  case Nil
  then show ?case
    by (intro exI [of _ 0]) (auto simp: written_def write_exit_def write_result_def Let_def tf_def)
next
  case (Cons c data)
  obtain r ws1 t1 where w: "write_wait ws tty need nonblock = (r, ws1, t1)"
    by (cases "write_wait ws tty need nonblock") auto
  from write_wait_spec [OF Cons.prems(1-3) w]
  have d: "drained tty t1" and ws1: "set ws1 \<subseteq> set ws" and nb: "nonblock \<longrightarrow> t1 = tty"
    and r: "if need \<le> fifo_cap (tx_fifo t1) - length (tx t1) then r = WW_room
     else r = (if nonblock then WW_exit else WW_asleep)" by auto
  note dD = drainedD(1-9) [OF d]
  obtain m1 where m1: "m1 \<le> length (tx tty)" "tx t1 = drop m1 (tx tty)" "nonblock \<longrightarrow> m1 = 0"
    using drainedD(10) [OF d] nb by (cases nonblock) auto
  have cl: "\<not> tf t1 TF_CLOSING" using Cons.prems(3) dD by (simp add: tf_def)
  show ?case
  proof (cases "need \<le> fifo_cap (tx_fifo t1) - length (tx t1)")
    case False
    then have "n = 0 \<Longrightarrow> written tty (c # data) n m1 t1" for n
      using dD m1 by (simp add: written_def)
    moreover have "write_loop ws (c # data) len tty need nonblock =
        (write_result (length (c # data)) 0 len nonblock, t1)"
      using False r w cl by (simp add: write_result_def write_exit_def)
    ultimately show ?thesis
      using False m1 by (intro exI [of _ 0] exI [of _ m1]) (simp add: Let_def not_le)
  next
    case True
    let ?t2 = "write_char t1 c"
    have need: "need = write_need t1" using Cons.prems(4) dD by (simp add: write_need_def)
    note fr = write_char_spec [OF dD(1) True [unfolded need], of c]
    note frD = tx_frameD [OF fr(1)]
    have "\<not> tf ?t2 TF_CLOSING" using cl frD by (simp add: tf_def)
    from Cons.IH [OF frD(11) [OF dD(1)] _ this, of ws1 "len + 1"] Cons.prems(2) ws1 need
      tx_frame_need [OF fr(1)]
    obtain n m where IH: "written ?t2 data n m (snd (write_loop ws1 data (len + 1) ?t2 need nonblock))"
      "nonblock \<longrightarrow> m = 0"
      "let t' = snd (write_loop ws1 data (len + 1) ?t2 need nonblock)
       in n < length data \<longrightarrow> fifo_cap (tx_fifo t') - length (tx t') < need"
      "fst (write_loop ws1 data (len + 1) ?t2 need nonblock) =
        write_result (length data) n (len + 1) nonblock"
      by (auto simp: subset_iff)
    have ob: "out_bytes ?t2 = out_bytes tty" "out_bytes t1 = out_bytes tty"
      using out_bytes_cong [OF frD(2)] out_bytes_cong [OF dD(3)] by simp_all
    have "tx ?t2 @ concat (map (out_bytes tty) (take n data)) =
      drop m1 (tx tty @ concat (map (out_bytes tty) (take (Suc n) (c # data))))"
      using fr(2) m1 by (simp add: ob)
    then have "written tty (c # data) (Suc n) (m1 + m)
        (snd (write_loop ws1 data (len + 1) ?t2 need nonblock))"
      using IH(1) frD dD m1 by (auto simp: written_def ob add.commute)
    moreover have "write_loop ws (c # data) len tty need nonblock =
        write_loop ws1 data (len + 1) ?t2 need nonblock"
      using True r w by simp
    moreover have "write_result (length data) n (len + 1) nonblock =
        write_result (length (c # data)) (Suc n) len nonblock"
      by (simp add: write_result_def)
    ultimately show ?thesis
      using IH(2-4) m1(3) by (intro exI [of _ "Suc n"] exI [of _ "m1 + m"]) simp
  qed
qed


lemma write_need_pos: "0 < write_need tty"
  by (simp add: write_need_def LIBTTYDISC_WRITE_OPROC_MAXLEN_def)

lemma libtty_write_loop:
  assumes "fifo_ok (tx_fifo tty)" and "\<not> tf tty TF_CLOSING" and "data \<noteq> []"
  shows "libtty_write ws tty data nonblock = write_loop ws data 0 tty (write_need tty) nonblock"
proof (cases "fifo_is_full (tx_fifo tty) \<and> nonblock")
  case True
  obtain c cs where data: "data = c # cs" using assms(3) by (cases data) auto
  have "unat (fifo_freespace (tx_fifo tty)) < write_need tty"
    using True assms(1) write_need_pos [of tty] by (simp add: fifo_freespace_eq fifo_full_iff)
  with True assms show ?thesis
    by (simp add: libtty_write_def data write_wait.simps write_exit_def)
qed (auto simp: libtty_write_def write_need_def assms)

text \<open>A wake-up after the device has sent everything.\<close>

definition empties :: "wakeup \<Rightarrow> bool" where
  "empties w \<longleftrightarrow> drains w \<and> (\<forall>t. fifo_ok (tx_fifo t) \<longrightarrow> tx (fst (w t)) = [])"

lemma write_wait_empties:
  assumes "fifo_ok (tx_fifo tty)" and "\<forall>w \<in> set ws. empties w" and "\<not> tf tty TF_CLOSING"
    and "need \<le> fifo_cap (tx_fifo tty)" and "ws \<noteq> []"
  shows "\<exists>ws' tty'. write_wait ws tty need False = (WW_room, ws', tty') \<and>
    length ws \<le> Suc (length ws') \<and> set ws' \<subseteq> set ws"
proof (cases "fifo_cap (tx_fifo tty) - length (tx tty) < need")
  case True
  obtain w ws1 where ws: "ws = w # ws1" using assms(5) by (cases ws) auto
  let ?t = "if signal_txready (cb tty) then emit Ev_txready tty else tty"
  have t: "fifo_ok (tx_fifo ?t)" "fifo_cap (tx_fifo ?t) = fifo_cap (tx_fifo tty)"
    using assms(1) by simp_all
  let ?u = "fst (w ?t)"
  have "drained ?t ?u" "tx ?u = []" using assms(2) t(1) by (simp_all add: ws empties_def drains_def)
  then have "unat (fifo_freespace (tx_fifo ?u)) = fifo_cap (tx_fifo tty)"
    using t(2) by (simp add: fifo_freespace_eq drainedD)
  then have "write_wait ws1 ?u need False = (WW_room, ws1, ?u)"
    using assms(4) by (simp add: write_wait.simps)
  then have "write_wait ws tty need False = (WW_room, ws1, ?u)"
    using True assms(1,3) by (simp add: write_wait.simps [of "w # ws1"] ws fifo_freespace_eq Let_def)
  then show ?thesis by (simp add: ws subset_insertI)
next
  case False
  then show ?thesis using assms(1) by (simp add: write_wait.simps [of ws] fifo_freespace_eq)
qed

lemma write_loop_completes:
  assumes "fifo_ok (tx_fifo tty)" and "\<forall>w \<in> set ws. empties w" and "\<not> tf tty TF_CLOSING"
    and "write_need tty \<le> fifo_cap (tx_fifo tty)" and "length data \<le> length ws"
  shows "fst (write_loop ws data len tty (write_need tty) False) = Wr_len (len + length data)"
  using assms
proof (induction data arbitrary: tty ws len)
  case Nil
  then show ?case by (simp add: write_exit_def Let_def tf_def)
next
  case (Cons c data)
  have dr: "\<forall>w \<in> set ws. drains w" and ne: "ws \<noteq> []"
    using Cons.prems(2,5) by (auto simp: empties_def)
  from write_wait_empties [OF Cons.prems(1-4) ne] obtain ws1 t1
    where w: "write_wait ws tty (write_need tty) False = (WW_room, ws1, t1)"
      "length ws \<le> Suc (length ws1)" "set ws1 \<subseteq> set ws" by auto
  from write_wait_spec [OF Cons.prems(1) dr Cons.prems(3) w(1)] have d: "drained tty t1"
    and room: "write_need tty \<le> fifo_cap (tx_fifo t1) - length (tx t1)" by (auto split: if_splits)
  note dD = drainedD(1-9) [OF d]
  let ?t2 = "write_char t1 c"
  have need: "write_need t1 = write_need tty" using dD by (simp add: write_need_def)
  note fr = write_char_spec(1) [OF dD(1), of c, unfolded need, OF room]
  note frD = tx_frameD [OF fr]
  have n2: "write_need ?t2 = write_need tty" using tx_frame_need [OF fr] need by simp
  have "fst (write_loop ws1 data (len + 1) ?t2 (write_need ?t2) False) = Wr_len (len + 1 + length data)"
    using Cons.prems w dD frD n2 by (intro Cons.IH) (auto simp: tf_def)
  with w show ?case by (simp add: n2)
qed

subsection \<open>The invariant of a terminal\<close>

text \<open>The rings are well-formed, the cached break characters agree with the control characters,
  and a terminal without a session has no foreground group.\<close>

definition tty_inv :: "tty \<Rightarrow> bool" where
  "tty_inv tty \<longleftrightarrow>
     tty_ok tty \<and> length (breakchars tty) = 4 \<and> brk_cache_ok tty \<and>
     (sid tty < 0 \<longrightarrow> pgrp tty = -1)"

lemma tty_inv_same:
  assumes "tty_inv tty" and "tty_ok tty'" and "c_cc (tterm tty') = c_cc (tterm tty)"
    and "vdisable tty' = vdisable tty" and "breakchars tty' = breakchars tty"
    and "sid tty' = sid tty" and "pgrp tty' = pgrp tty"
  shows "tty_inv tty'"
  using assms
  by (auto simp: tty_inv_def brk_cache_ok_def libttydisc_is_breakchar_def line_end_def cmp_cc_def)

lemma tty_inv_okD: "tty_inv tty \<Longrightarrow> tty_ok tty" "tty_inv tty \<Longrightarrow> fifo_ok (rx_fifo tty)"
  "tty_inv tty \<Longrightarrow> fifo_ok (tx_fifo tty)" "tty_inv tty \<Longrightarrow> brk_cache_ok tty"
  "tty_inv tty \<Longrightarrow> length (breakchars tty) = 4" "tty_inv tty \<Longrightarrow> sid tty < 0 \<longrightarrow> pgrp tty = -1"
  by (simp_all add: tty_inv_def tty_ok_def)

lemma tty_inv_updates:
  "tty_inv tty \<Longrightarrow> fifo_ok f \<Longrightarrow> tty_inv (tty\<lparr>rx_fifo := f\<rparr>)"
  "tty_inv tty \<Longrightarrow> fifo_ok f \<Longrightarrow> tty_inv (tty\<lparr>tx_fifo := f\<rparr>)"
  "tty_inv tty \<Longrightarrow> tty_inv (emit e tty)"
  "tty_inv tty \<Longrightarrow> tty_inv (tf_set x tty)"
  "tty_inv tty \<Longrightarrow> tty_inv (tf_clear x tty)"
  "tty_inv tty \<Longrightarrow> tty_inv (libtty_signal_pgrp tty s)"
  "tty_inv tty \<Longrightarrow> tty_inv (tty\<lparr>sid := -1, pgrp := -1\<rparr>)"
  "tty_inv tty \<Longrightarrow> tty_inv (tty\<lparr>ws_row := r, ws_col := c\<rparr>)"
proof -
  assume i: "tty_inv tty"
  show "fifo_ok f \<Longrightarrow> tty_inv (tty\<lparr>rx_fifo := f\<rparr>)" "fifo_ok f \<Longrightarrow> tty_inv (tty\<lparr>tx_fifo := f\<rparr>)"
    "tty_inv (emit e tty)" "tty_inv (tf_set x tty)" "tty_inv (tf_clear x tty)"
    "tty_inv (libtty_signal_pgrp tty s)" "tty_inv (tty\<lparr>ws_row := r, ws_col := c\<rparr>)"
    using tty_inv_okD [OF i] by (auto intro!: tty_inv_same [OF i] simp: tty_ok_def)
  show "tty_inv (tty\<lparr>sid := -1, pgrp := -1\<rparr>)"
    using i by (auto simp: tty_inv_def tty_ok_def brk_cache_ok_def libttydisc_is_breakchar_def
      line_end_def cmp_cc_def)
qed

lemma tty_inv_frame: "tty_inv tty \<Longrightarrow> tx_frame tty tty' \<Longrightarrow> tty_inv tty'"
  by (rule tty_inv_same, assumption) (simp_all add: tty_ok_def tty_inv_okD tx_frameD)

lemma termios_optimize_inv:
  assumes "tty_ok tty" and "length (breakchars tty) = 4" and "sid tty < 0 \<longrightarrow> pgrp tty = -1"
  obtains tty' where "termios_optimize tty = Some tty'" "tty_inv tty'" "brk_exact tty'"
    "rx_fifo tty' = rx_fifo tty" "tx_fifo tty' = tx_fifo tty" "tterm tty' = tterm tty"
    "sid tty' = sid tty" "pgrp tty' = pgrp tty" "events tty' = events tty" "cb tty' = cb tty"
    "tf tty' TF_CLOSING = tf tty TF_CLOSING" "vdisable tty' = vdisable tty"
proof -
  from assms(1) have "fifo_ok (rx_fifo tty)" by (simp add: tty_ok_def)
  from termios_optimize_eq [OF this assms(2)] obtain ys
    where e: "termios_optimize tty = Some (optimized tty (break_list tty @ 0 # ys))"
      and l: "length (break_list tty @ 0 # ys) = 4" .
  let ?t = "optimized tty (break_list tty @ 0 # ys)"
  have "break_list ?t = break_list tty" by (simp add: break_list_def)
  then have "brk_cache_ok ?t" by (intro break_list_cache) simp
  with assms l have "tty_inv ?t" by (simp add: tty_inv_def tty_ok_def)
  with e show ?thesis by (rule that) (simp_all add: optimized_brk)
qed

lemma putchar_inv:
  assumes "tty_inv tty" and "libtty_putchar tty c wake = Some r"
  shows "tty_inv (snd r)"
  using putchar_spec [OF tty_inv_okD(1) [OF assms(1)], of c wake] assms(2)
  by (auto intro: tty_inv_same [OF assms(1)])

lemma getchar_inv: "tty_inv tty \<Longrightarrow> tty_inv (snd (snd (libtty_getchar tty wake)))"
  by (simp add: libtty_getchar_def libtty_popchar_def libtty_wake_writer_def case_prod_beta Let_def
    tty_inv_updates fifo_pop_back_ok tty_inv_okD)

text \<open>Other threads keep the invariant while a reader or a writer sleeps.\<close>

definition keeps_inv :: "wakeup list \<Rightarrow> bool" where
  "keeps_inv ws \<longleftrightarrow> (\<forall>w \<in> set ws. \<forall>t. tty_inv t \<longrightarrow> tty_inv (fst (w t)))"

lemma keeps_inv_Cons:
  "keeps_inv (w # ws) \<longleftrightarrow> (\<forall>t. tty_inv t \<longrightarrow> tty_inv (fst (w t))) \<and> keeps_inv ws"
  by (simp add: keeps_inv_def)

lemma canon_wait_inv:
  "tty_inv tty \<Longrightarrow> keeps_inv ws \<Longrightarrow> tty_inv (snd (canon_wait ws tty nonblock has_st))"
proof (induction ws arbitrary: tty)
  case (Cons w ws)
  then show ?case by (subst canon_wait.simps) (auto simp: keeps_inv_Cons)
qed (simp add: canon_wait.simps)

lemma canon_take_inv: "tty_inv tty \<Longrightarrow> tty_inv (snd (snd (canon_take n tty b)))"
  by (induction n arbitrary: tty b)
    (simp_all add: case_prod_beta Let_def tty_inv_updates fifo_pop_back_ok tty_inv_okD)

lemma readCanon_inv:
  assumes "tty_inv tty" and "keeps_inv ws"
    and "libttydisc_readCanon ws tty sz nonblock st = Some (r, bs, st', tty')"
  shows "tty_inv tty'"
proof -
  obtain o1 t1 where w: "canon_wait ws tty nonblock (st \<noteq> None) = (o1, t1)" by fastforce
  with canon_wait_inv [OF assms(1,2), of nonblock "st \<noteq> None"] have t1: "tty_inv t1" by simp
  obtain b1 b2 t2 where c: "canon_take sz t1 0xff = (b1, b2, t2)" by (metis prod_cases3)
  with canon_take_inv [OF t1, of sz "0xff"] have "tty_inv t2" by simp
  with assms(3) w c t1 show ?thesis
    by (cases o1) (auto simp: libttydisc_readCanon_def Let_def rx_have_breakchar_eq tty_inv_okD
      tty_inv_updates split: if_splits)
qed

lemma raw_wait_inv:
  assumes "tty_inv tty" and "keeps_inv ws" and "raw_wait ws tty = (r, ws', tty')"
  shows "tty_inv tty' \<and> keeps_inv ws'"
  using assms
proof (induction ws arbitrary: tty)
  case (Cons w ws)
  have "tty_inv (fst (w tty))" using Cons.prems by (simp add: keeps_inv_Cons)
  with Cons.prems Cons.IH [of "fst (w tty)"] show ?case
    by (auto simp: raw_wait.simps [of "w # ws"] keeps_inv_Cons case_prod_beta Let_def
      split: if_splits)
qed (auto simp: raw_wait.simps split: if_splits)

lemma raw_loop_inv:
  "tty_inv tty \<Longrightarrow> keeps_inv ws \<Longrightarrow>
    tty_inv (snd (snd (snd (raw_loop ws n len tty vmin vtime nonblock st))))"
proof (induction n arbitrary: ws len tty)
  case (Suc n)
  have take1: "tty_inv t \<Longrightarrow> keeps_inv ws1 \<Longrightarrow>
      tty_inv (snd (snd (snd (raw_loop ws1 n (len + 1)
        (t\<lparr>rx_fifo := snd (fifo_pop_back (rx_fifo t))\<rparr>) vmin vtime nonblock st))))" for t ws1
    using tty_inv_okD(2) by (intro Suc.IH tty_inv_updates(1) fifo_pop_back_ok)
  obtain r ws1 t1 where w: "raw_wait ws tty = (r, ws1, t1)" by (metis prod_cases3)
  from raw_wait_inv [OF Suc.prems w] have i: "tty_inv t1" "keeps_inv ws1" by simp_all
  show ?case
    using Suc.prems take1 [OF Suc.prems] take1 [OF i] i w
    by (auto simp: Let_def case_prod_beta split: option.splits raw_out.splits)
qed simp


lemma read_inv:
  assumes "tty_inv tty" and "keeps_inv ws"
    and "libtty_read_nonblock ws tty sz nonblock st = Some (r, bs, st', tty')"
  shows "tty_inv tty'"
proof -
  have "tty_inv (snd (snd (snd (libttydisc_readRaw ws tty sz nonblock st))))"
    using assms(1,2)
    by (simp add: libttydisc_readRaw_def Let_def raw_loop_inv split: option.splits)
  with assms readCanon_inv [OF assms(1,2)] show ?thesis
    by (auto simp: libtty_read_nonblock_def split: if_splits)
qed

lemma write_wait_inv:
  assumes "tty_inv tty" and "keeps_inv ws" and "write_wait ws tty need nonblock = (r, ws', tty')"
  shows "tty_inv tty' \<and> keeps_inv ws'"
  using assms
proof (induction ws arbitrary: tty)
  case Nil
  then show ?case
    by (auto simp: write_wait.simps Let_def tty_inv_updates(3) split: if_splits)
next
  case (Cons w ws)
  let ?t = "if signal_txready (cb tty) then emit Ev_txready tty else tty"
  have "tty_inv (fst (w ?t))" using Cons.prems by (simp add: keeps_inv_Cons tty_inv_updates(3))
  with Cons.prems Cons.IH [of "fst (w ?t)"] show ?case
    by (auto simp: write_wait.simps [of "w # ws"] keeps_inv_Cons Let_def split: if_splits)
qed

lemma write_char_inv: "tty_inv tty \<Longrightarrow> tty_inv (write_char tty c)"
  by (auto simp: write_char_def intro: tty_inv_updates(2) tty_inv_frame writeOproc_frame fifo_push_ok tty_inv_okD)

lemma write_inv:
  assumes "tty_inv tty" and "keeps_inv ws"
  shows "tty_inv (snd (libtty_write ws tty data nonblock))"
proof -
  have "tty_inv t \<Longrightarrow> keeps_inv ws1 \<Longrightarrow> tty_inv (snd (write_loop ws1 cs len t need nonblock))"
    for t ws1 cs len need
  proof (induction cs arbitrary: t ws1 len)
    case (Cons c cs)
    obtain r ws2 t2 where w: "write_wait ws1 t need nonblock = (r, ws2, t2)" by (metis prod_cases3)
    from write_wait_inv [OF Cons.prems w] Cons.IH [of "write_char t2 c" ws2] w show ?case
      by (cases r) (simp_all add: write_char_inv)
  qed (simp add: Let_def tty_inv_updates(3))
  with assms show ?thesis by (simp add: libtty_write_def)
qed

lemma drain_inv: "tty_inv tty \<Longrightarrow> keeps_inv ws \<Longrightarrow> tty_inv (snd (libtty_drain ws tty))"
proof (induction ws arbitrary: tty)
  case (Cons w ws)
  then show ?case by (subst libtty_drain.simps) (auto simp: keeps_inv_Cons)
qed (simp add: libtty_drain.simps)

lemma sessionRelease_inv: "tty_inv tty \<Longrightarrow> tty_inv (libtty_sessionRelease tty)"
  by (simp add: libtty_sessionRelease_def Let_def tty_inv_updates)

lemma sessionCheck_cases:
  assumes "libtty_sessionCheck k tty pid claim = (r, tty')"
  shows "tty' = tty \<or> tty' = tty\<lparr>sid := -1, pgrp := -1\<rparr>"
    and "r = Inr s \<Longrightarrow> 0 < pid \<and> k_getsid k pid = Some (nat s) \<and> 0 \<le> s \<and>
      (sid tty' = s \<or> sid tty' < 0 \<and> claim)"
  using assms by (auto simp: libtty_sessionCheck_def Let_def split: if_splits option.splits)

lemma sessionCheck_inv:
  "tty_inv tty \<Longrightarrow> libtty_sessionCheck k tty pid claim = (r, tty') \<Longrightarrow> tty_inv tty'"
  using sessionCheck_cases(1) tty_inv_updates(7) by metis

lemma tty_inv_session:
  "tty_inv tty \<Longrightarrow> 0 \<le> s \<Longrightarrow> tty_inv (tty\<lparr>sid := s, pgrp := g\<rparr>)"
  "tty_inv tty \<Longrightarrow> 0 \<le> sid tty \<Longrightarrow> tty_inv (tty\<lparr>pgrp := g\<rparr>)"
  by (auto simp: tty_inv_def tty_ok_def brk_cache_ok_def libttydisc_is_breakchar_def line_end_def
    cmp_cc_def)

lemma sessionAcquire_inv:
  assumes "tty_inv tty"
  shows "tty_inv (snd (libtty_sessionAcquire k tty pid))"
proof -
  obtain r t1 where c: "libtty_sessionCheck k tty pid True = (r, t1)" by fastforce
  have i: "tty_inv t1" by (rule sessionCheck_inv [OF assms c])
  show ?thesis
  proof (cases r)
    case (Inl e)
    with c i show ?thesis by (simp add: libtty_sessionAcquire_def)
  next
    case (Inr s)
    from sessionCheck_cases(2) [OF c Inr] have s: "0 \<le> s" "sid t1 = s \<or> sid t1 < 0" by auto
    let ?t2 = "emit (Ev_sessionCtty s True) t1"
    have i2: "tty_inv ?t2" using i by (rule tty_inv_updates)
    have "tty_inv ((libtty_sessionClaim ?t2 s)\<lparr>pgrp := g\<rparr>)" for g
      using s tty_inv_session [OF i2] by (auto simp: libtty_sessionClaim_def)
    with c i i2 Inr show ?thesis
      by (auto simp: libtty_sessionAcquire_def Let_def split: sum.splits option.splits)
  qed
qed

lemma cttyIoctl_inv:
  assumes "tty_inv tty"
  shows "tty_inv (snd (snd (libtty_cttyIoctl k tty pid cmd)))"
proof -
  obtain r t1 where c: "libtty_sessionCheck k tty pid False = (r, t1)" by fastforce
  have i: "tty_inv t1" by (rule sessionCheck_inv [OF assms c])
  have s: "r = Inr s \<Longrightarrow> 0 \<le> sid t1" for s using sessionCheck_cases(2) [OF c] by auto
  show ?thesis
    using assms c i s sessionAcquire_inv [OF assms, of k pid] tty_inv_session(2) [OF i]
    by (cases cmd; cases r)
      (auto simp: libtty_cttyIoctl_def sessionRelease_inv case_prod_beta split: option.splits)
qed

lemma flush_spec:
  assumes "tty_inv tty" and "type \<noteq> Flush_other"
  obtains tty' where "libtty_flush tty type = Some (None, tty')" "tty_inv tty'" "brk_exact tty'"
    "rx tty' = (if type = TCOFLUSH then rx tty else [])"
    "tx tty' = (if type = TCIFLUSH then tx tty else take 1 (tx tty))"
proof -
  note ok = tty_inv_okD [OF assms(1)]
  define r where "r = (if type = TCOFLUSH then rx_fifo tty else fifo_remove_all (rx_fifo tty))"
  define x where "x = (if type = TCIFLUSH then tx_fifo tty else fifo_remove_all_but_one (tx_fifo tty))"
  have "fifo_ok r" "fifo_ok x"
    using ok by (simp_all add: r_def x_def fifo_remove_all_ok fifo_remove_all_but_one_ok)
  with assms(1) have "tty_inv (tty\<lparr>rx_fifo := r, tx_fifo := x\<rparr>)" by (simp add: tty_inv_updates(1,2))
  from termios_optimize_inv [OF tty_inv_okD(1,5,6) [OF this]] obtain t
    where t: "termios_optimize (tty\<lparr>rx_fifo := r, tx_fifo := x\<rparr>) = Some t" "tty_inv t" "brk_exact t"
      "rx_fifo t = r" "tx_fifo t = x"
    by auto
  show ?thesis
  proof (rule that [of t])
    show "libtty_flush tty type = Some (None, t)"
      using assms(2) t(1) by (cases type) (simp_all add: libtty_flush_def Let_def r_def x_def)
    show "rx t = (if type = TCOFLUSH then rx tty else [])"
      using assms(2) t(4) by (cases type) (simp_all add: r_def)
    show "tx t = (if type = TCIFLUSH then tx tty else take 1 (tx tty))"
      using assms(2) t(5) ok by (cases type) (simp_all add: x_def fifo_remove_all_but_one_content)
  qed (use t in simp_all)
qed

text \<open>The attributes a terminal keeps of the requested ones.\<close>

definition accepted_termios :: "tty \<Rightarrow> termios \<Rightarrow> termios" where
  "accepted_termios tty t =
     (let t1 = t\<lparr>c_ispeed := c_ospeed t\<rparr>;
          t2 = (case set_cflag (cb tty) of
              None \<Rightarrow> t1
            | Some g \<Rightarrow>
                if c_cflag t \<noteq> c_cflag (tterm tty) then t1\<lparr>c_cflag := g (c_cflag t)\<rparr> else t1)
      in t2\<lparr>c_iflag := c_iflag t \<inter> TTYSUP_IFLAG, c_oflag := c_oflag t \<inter> TTYSUP_OFLAG,
            c_lflag := c_lflag t \<inter> TTYSUP_LFLAG\<rparr>)"

lemma tcsets_spec:
  assumes "tty_inv tty" and "c_ispeed t = 0 \<or> c_ispeed t = c_ospeed t"
  obtains tty' where "tcsets tty t = Some (I_ok, tty')" "tty_inv tty'" "brk_exact tty'"
    "tterm tty' = accepted_termios tty t" "rx tty' = rx tty" "tx tty' = tx tty"
    "sid tty' = sid tty" "pgrp tty' = pgrp tty"
proof -
  let ?t1 = "if c_ospeed t \<noteq> c_ospeed (tterm tty) \<and> set_baudrate (cb tty)
    then emit (Ev_baudrate (c_ospeed t)) tty else tty"
  let ?t2 = "case set_cflag (cb tty) of
      Some g \<Rightarrow> if c_cflag t \<noteq> c_cflag (tterm tty) then emit (Ev_cflag (c_cflag t)) ?t1 else ?t1
    | None \<Rightarrow> ?t1"
  let ?t3 = "?t2\<lparr>tterm := accepted_termios tty t\<rparr>"
  have f: "rx_fifo ?t3 = rx_fifo tty" "tx_fifo ?t3 = tx_fifo tty" "breakchars ?t3 = breakchars tty"
    "sid ?t3 = sid tty" "pgrp ?t3 = pgrp tty" by (auto split: option.splits)
  have "tty_ok ?t3" "length (breakchars ?t3) = 4" "sid ?t3 < 0 \<longrightarrow> pgrp ?t3 = -1"
    using assms(1) unfolding tty_ok_def f by (simp_all add: tty_inv_def tty_ok_def)
  then obtain u where u: "termios_optimize ?t3 = Some u" "tty_inv u" "brk_exact u"
    "rx_fifo u = rx_fifo ?t3" "tx_fifo u = tx_fifo ?t3" "tterm u = tterm ?t3"
    "sid u = sid ?t3" "pgrp u = pgrp ?t3"
    by (rule termios_optimize_inv)
  have "(if c_ispeed t = 0 then t\<lparr>c_ispeed := c_ospeed t\<rparr> else t) = t\<lparr>c_ispeed := c_ospeed t\<rparr>"
    using assms(2) by auto
  then have "tcsets tty t = map_option (Pair I_ok) (termios_optimize ?t3)"
    by (simp add: tcsets_def Let_def accepted_termios_def split: option.splits)
  with u f show ?thesis by (intro that [of u]) simp_all
qed

lemma ioctl_inv:
  assumes "tty_inv tty" and "keeps_inv ws"
    and "libtty_ioctl k ws tty pid cmd = Some (r, out, tty')"
  shows "tty_inv tty'"
proof -
  have flush: "tty_inv t" if "libtty_flush tty type = Some (e, t)" for type e t
  proof (cases "type = Flush_other")
    case False
    from flush_spec [OF assms(1) this] that show ?thesis by (metis option.inject prod.inject)
  qed (use that assms(1) in \<open>simp add: libtty_flush_def\<close>)
  have sets: "tty_inv u" if "tcsets tty t = Some (e, u)" for t e u
  proof (cases "c_ispeed t = 0 \<or> c_ispeed t = c_ospeed t")
    case True
    from tcsets_spec [OF assms(1) this] that show ?thesis by (metis option.inject prod.inject)
  qed (use that assms(1) in \<open>simp add: tcsets_def Let_def\<close>)
  show ?thesis
    using assms(1,3) flush sets drain_inv [OF assms(1,2)] cttyIoctl_inv [OF assms(1), of k pid cmd]
    by (cases cmd) (auto simp: libtty_ioctl_def case_prod_beta tty_inv_updates(3,6,8) split: option.splits
      if_splits)
qed

lemma other_inv:
  "tty_inv tty \<Longrightarrow> tty_inv (libtty_close tty)"
  "tty_inv tty \<Longrightarrow> tty_inv (libtty_hangup tty)"
  "tty_inv tty \<Longrightarrow> tty_inv (libtty_acquire k tty pid noctty)"
  "tty_inv tty \<Longrightarrow> tty_inv (libtty_set_mode_raw tty)"
proof -
  assume i: "tty_inv tty"
  show "tty_inv (libtty_close tty)" "tty_inv (libtty_hangup tty)"
    "tty_inv (libtty_acquire k tty pid noctty)"
    using i by (simp_all add: libtty_close_def libtty_hangup_def libtty_acquire_def tty_inv_updates
      sessionRelease_inv sessionAcquire_inv)
  show "tty_inv (libtty_set_mode_raw tty)"
    using tty_inv_okD [OF i]
    by (intro tty_inv_same [OF i]) (simp_all add: libtty_set_mode_raw_def Let_def tty_ok_def)
qed

subsection \<open>Start-up\<close>

lemma init_spec:
  assumes "libtty_init env callbacks bufsize speed given = Some (Some tty, held)"
    and "\<And>m. ie_txmem env = Some m \<Longrightarrow> length m = unat bufsize"
    and "\<And>m. ie_rxmem env = Some m \<Longrightarrow> length m = unat bufsize"
  shows "tty_inv tty" "brk_exact tty" "rx tty = []" "tx tty = []"
    "fifo_cap (tx_fifo tty) = unat bufsize - 1" "fifo_cap (rx_fifo tty) = unat bufsize - 1"
    "\<not> tf tty TF_CLOSING" "sid tty = -1" "tterm tty = termios_init (ie_vdisable env) (of_int speed)"
proof -
  from assms(1) obtain tm rm where m: "ie_txmem env = Some tm" "ie_rxmem env = Some rm"
    and p2: "is_pow2 bufsize"
    by (auto simp: libtty_init_def Let_def is_pow2_def split: if_splits option.splits)
  let ?t = "init_tty env callbacks bufsize (of_int speed) tm rm"
  note fi = fifo_init_ok [OF p2]
  have ok: "tty_ok ?t" "rx ?t = []" "tx ?t = []" "fifo_cap (tx_fifo ?t) = unat bufsize - 1"
    "fifo_cap (rx_fifo ?t) = unat bufsize - 1"
    using assms(2) [OF m(1)] assms(3) [OF m(2)] by (simp_all add: init_tty_def tty_ok_def fi)
  have "length (breakchars ?t) = 4" "sid ?t < 0 \<longrightarrow> pgrp ?t = -1" "\<not> tf ?t TF_CLOSING"
    by (simp_all add: init_tty_def tf_def)
  with ok(1) obtain u where u: "termios_optimize ?t = Some u" "tty_inv u" "brk_exact u"
    "rx_fifo u = rx_fifo ?t" "tx_fifo u = tx_fifo ?t" "tterm u = tterm ?t" "\<not> tf u TF_CLOSING"
    by (metis termios_optimize_inv)
  have tty: "tty = u\<lparr>ws_row := 25, ws_col := 80, sid := -1, pgrp := -1\<rparr>"
    using assms(1) m u(1) by (simp add: libtty_init_def Let_def split: if_splits)
  show "tty_inv tty" using tty_inv_updates(7) [OF tty_inv_updates(8) [OF u(2)]] by (simp add: tty)
  have "brk_exact tty = brk_exact u" by (rule brk_exact_flags) (simp_all add: tty)
  with u(3) show "brk_exact tty" by simp
  show "rx tty = []" "tx tty = []" "fifo_cap (tx_fifo tty) = unat bufsize - 1"
    "fifo_cap (rx_fifo tty) = unat bufsize - 1" "\<not> tf tty TF_CLOSING" "sid tty = -1"
    "tterm tty = termios_init (ie_vdisable env) (of_int speed)"
    using ok u by (simp_all add: tty tf_def) (simp add: init_tty_def)
qed

text \<open>A start-up that fails holds nothing afterwards; one that succeeds holds everything.\<close>

lemma destroy_releases: "libtty_destroy held = []"
proof -
  have r: "(if x \<in> set xs then removeAll x xs else xs) = removeAll x xs" for x :: resource and xs
    by simp
  have "r \<notin> set (libtty_destroy held)" for r
    unfolding libtty_destroy_def Let_def r by (cases r) simp_all
  then show ?thesis by (metis last_in_set)
qed

subsection \<open>Every run of a terminal\<close>

text \<open>The steps of a terminal under any number of threads: received and transmitted characters,
  reads, writes, ioctls, and the calls of the driver. While a call sleeps, the other threads
  make steps of their own. A transmitter fetches a character only when one is there.\<close>

inductive tty_step :: "tty \<Rightarrow> tty \<Rightarrow> bool" where
  t_putchar: "libtty_putchar tty c wake = Some (w, tty') \<Longrightarrow> tty_step tty tty'"
| t_getchar: "libtty_txready tty \<Longrightarrow> libtty_getchar tty wake = (c, w, tty') \<Longrightarrow> tty_step tty tty'"
| t_read: "\<forall>w \<in> set ws. \<forall>t. tty_step\<^sup>*\<^sup>* t (fst (w t)) \<Longrightarrow>
    libtty_read_nonblock ws tty sz nonblock st = Some (r, bs, st', tty') \<Longrightarrow> tty_step tty tty'"
| t_write: "\<forall>w \<in> set ws. \<forall>t. tty_step\<^sup>*\<^sup>* t (fst (w t)) \<Longrightarrow>
    libtty_write ws tty data nonblock = (n, tty') \<Longrightarrow> tty_step tty tty'"
| t_ioctl: "\<forall>w \<in> set ws. \<forall>t. tty_step\<^sup>*\<^sup>* t (fst (w t)) \<Longrightarrow>
    libtty_ioctl k ws tty pid cmd = Some (r', out, tty') \<Longrightarrow> tty_step tty tty'"
| t_acquire: "tty_step tty (libtty_acquire k tty pid noctty)"
| t_close: "tty_step tty (libtty_close tty)"
| t_hangup: "tty_step tty (libtty_hangup tty)"
| t_set_mode_raw: "tty_step tty (libtty_set_mode_raw tty)"

lemma tty_run_inv_aux:
  assumes "(\<lambda>a b. tty_step a b \<and> (tty_inv a \<longrightarrow> tty_inv b))\<^sup>*\<^sup>* t u" and "tty_inv t"
  shows "tty_inv u"
  using assms by (induction rule: rtranclp_induct) auto

lemma tty_step_inv: "tty_step tty tty' \<Longrightarrow> tty_inv tty \<Longrightarrow> tty_inv tty'"
proof (induction rule: tty_step.induct)
  case (t_putchar tty c wake w tty')
  then show ?case using putchar_inv [of tty c wake "(w, tty')"] by simp
next
  case (t_getchar tty wake c w tty')
  then show ?case using getchar_inv [of tty wake] by simp
next
  case (t_read ws tty sz nonblock st r bs st' tty')
  then have "keeps_inv ws" unfolding keeps_inv_def using tty_run_inv_aux by blast
  with t_read show ?case using read_inv by blast
next
  case (t_write ws tty data nonblock n tty')
  then have "keeps_inv ws" unfolding keeps_inv_def using tty_run_inv_aux by blast
  with t_write show ?case using write_inv [of tty ws data nonblock] by simp
next
  case (t_ioctl ws k tty pid cmd r' out tty')
  then have "keeps_inv ws" unfolding keeps_inv_def using tty_run_inv_aux by blast
  with t_ioctl show ?case using ioctl_inv by blast
qed (simp_all add: other_inv)

lemma tty_run_inv: "tty_step\<^sup>*\<^sup>* tty tty' \<Longrightarrow> tty_inv tty \<Longrightarrow> tty_inv tty'"
  by (induction rule: rtranclp_induct) (auto intro: tty_step_inv)

end
