(* ===== verification/Tty_Props.thy ===== *)
theory Tty_Props
  imports Libtty
begin

text \<open>
  The correctness of the terminal layer as a whole: from keystroke to read, from write to
  transmitter, start-up, ioctls and the controlling-terminal protocol. Each theorem rests on
  the lemmas of \<open>Tty_Disc\<close>, \<open>Tty_Read\<close> and \<open>Libtty\<close>.
\<close>

subsection \<open>A concrete start-up and a concrete kernel\<close>

definition sample_env :: init_env where
  "sample_env =
     \<lparr>ie_mutex = True, ie_txmem = Some (replicate 16 0), ie_rxmem = Some (replicate 16 0),
      ie_txq = True, ie_rxq = True, ie_vdisable = 0\<rparr>"

definition sample_start :: "(tty option \<times> resource list) option" where
  "sample_start = libtty_init sample_env (cb (sample_tty 4 [])) 16 115200 False"

text \<open>Processes 7 and 8 are in session 7, process 9 leads session 9; session 9 has ended.\<close>

definition sample_kernel :: kernel where
  "sample_kernel =
     \<lparr>k_getsid = (\<lambda>p. if p = 7 \<or> p = 8 then Some 7 else if p = 9 then Some 9 else None),
      k_getpgid = (\<lambda>p. Inr (nat p)),
      k_procExists = (\<lambda>p g s alive. if s = 7 then 1 else 0),
      k_sessionCtty = (\<lambda>s. None)\<rparr>"

lemma sample_inv:
  assumes "fifo_ok (sample_fifo n bs)" and "fifo_ok (sample_fifo n [])"
  shows "tty_inv (sample_tty n bs)"
  using assms
  by (auto simp: tty_inv_def tty_ok_def brk_cache_ok_def libttydisc_is_breakchar_def line_end_def
    cmp_cc_def sample_tty_def CNL_def)

lemma sample_fifo_ok:
  "fifo_ok (sample_fifo 4 [])" "fifo_ok (sample_fifo 4 [97, 98])" "fifo_ok (sample_fifo 4 [97, 10])"
  "fifo_ok (sample_fifo 16 [])" "fifo_ok (sample_fifo 16 [104, 105, 10, 108])"
  by (code_simp)+

subsection \<open>Keystrokes\<close>

text \<open>C4. Every received character is processed in finite time, and the bytes waiting to be read
  change exactly as the line editor says: signals and ignored carriage returns leave them,
  erase and kill edit the line being typed and never an earlier one, anything else is appended
  (when the ring is full, at the price of the oldest byte).\<close>

theorem putchar_edits:
  assumes "tty_inv tty"
  shows "\<exists>w tty'. libtty_putchar tty c wake = Some (w, tty') \<and>
    rx tty' = rx_edit tty c (rx tty) \<and> tty_inv tty' \<and> tterm tty' = tterm tty"
proof -
  from putchar_spec [OF tty_inv_okD(1) [OF assms], of c wake]
  obtain r where r: "libtty_putchar tty c wake = Some r" "rx (snd r) = rx_edit tty c (rx tty)"
    "tterm (snd r) = tterm tty" by auto
  with putchar_inv [OF assms r(1)] show ?thesis by (cases r) auto
qed

theorem putchar_edits_witness:
  "\<exists>w tty'. libtty_putchar (sample_tty 4 [97, 98]) 0x7f True = Some (w, tty') \<and> rx tty' = [97]"
proof -
  have "tty_inv (sample_tty 4 [97, 98])"
    by (simp add: sample_inv sample_fifo_ok)
  from putchar_edits [OF this, of "0x7f" True]
  have "\<exists>w tty'. libtty_putchar (sample_tty 4 [97, 98]) 0x7f True = Some (w, tty') \<and>
    rx tty' = rx_edit (sample_tty 4 [97, 98]) 0x7f (rx (sample_tty 4 [97, 98]))" by blast
  moreover have "rx_edit (sample_tty 4 [97, 98]) 0x7f (rx (sample_tty 4 [97, 98])) = [97]"
    by code_simp
  ultimately show ?thesis by simp
qed

text \<open>A character that the line discipline takes as it is.\<close>

definition plain_char :: "tty \<Rightarrow> u8 \<Rightarrow> bool" where
  "plain_char tty c \<longleftrightarrow>
     (iflag_on tty ISTRIP \<longrightarrow> c AND NOT 0x80 = c) \<and> putchar_signal tty c = None \<and>
     \<not> (lflag_on tty IEXTEN \<and> cmp_cc tty VLNEXT c) \<and> putchar_crnl tty c = Some c \<and>
     \<not> cmp_cc tty VERASE c \<and> \<not> cmp_cc tty VERASE2 c \<and> \<not> cmp_cc tty VKILL c"

lemma plain_char_cong:
  "tterm t = tterm tty \<Longrightarrow> vdisable t = vdisable tty \<Longrightarrow> plain_char t c = plain_char tty c"
  by (simp add: plain_char_def putchar_signal_def putchar_crnl_def cmp_cc_def)

lemma putchar_plain:
  "plain_char tty c \<Longrightarrow> \<not> tf tty TF_LITERAL \<Longrightarrow>
    libtty_putchar tty c wake = Some (putchar_store tty c wake)"
  by (auto simp: libtty_putchar_def plain_char_def)

text \<open>A terminal in canonical mode, ready to be typed on.\<close>

definition typing :: "tty \<Rightarrow> bool" where
  "typing tty \<longleftrightarrow> tty_inv tty \<and> brk_exact tty \<and> lflag_on tty ICANON \<and>
     \<not> tf tty TF_LITERAL \<and> \<not> tf tty TF_CLOSING"

lemma type_plain:
  assumes "typing tty" and "plain_char tty c" and "length (rx tty) < fifo_cap (rx_fifo tty)"
  defines "t \<equiv> snd (putchar_store tty c False)"
  shows "libtty_putchar tty c False = Some (putchar_store tty c False)" and "typing t"
    and "rx t = rx tty @ [c]" and "tterm t = tterm tty" and "vdisable t = vdisable tty"
    and "breakchars t = breakchars tty" and "fifo_cap (rx_fifo t) = fifo_cap (rx_fifo tty)"
proof -
  have i: "tty_inv tty" and ok: "tty_ok tty" using assms(1) by (simp_all add: typing_def tty_inv_okD)
  show p: "libtty_putchar tty c False = Some (putchar_store tty c False)"
    using assms by (simp add: typing_def putchar_plain)
  note st = putchar_store_spec [OF ok, of c False, folded t_def]
  show "rx t = rx tty @ [c]" using st(2) assms(3) by (simp add: fifo_append_def)
  show "tterm t = tterm tty" "vdisable t = vdisable tty" "breakchars t = breakchars tty"
    "fifo_cap (rx_fifo t) = fifo_cap (rx_fifo tty)" using st by simp_all
  have "tf t TF_LITERAL = tf (if lflag_on tty ICANON \<and> libttydisc_is_breakchar tty c
      then tf_set TF_HAVEBREAK tty else tty) TF_LITERAL"
    "tf t TF_CLOSING = tf (if lflag_on tty ICANON \<and> libttydisc_is_breakchar tty c
      then tf_set TF_HAVEBREAK tty else tty) TF_CLOSING"
    using st(7) by (simp_all add: tf_def tf_set_def)
  then have "tf t TF_LITERAL = tf tty TF_LITERAL" "tf t TF_CLOSING = tf tty TF_CLOSING"
    by (simp_all add: tf_set_other TF_HAVEBREAK_def TF_LITERAL_def TF_CLOSING_def)
  moreover have "tty_inv t" using putchar_inv [OF i p] by (simp add: t_def)
  moreover have "brk_exact t"
    using putchar_brk [OF ok tty_inv_okD(4) [OF i] _ assms(3) p] assms(1)
    by (simp add: t_def typing_def)
  ultimately show "typing t" using assms(1) st(3) by (simp add: typing_def)
qed

lemma type_chars_plain:
  assumes "typing tty" and "\<forall>c \<in> set cs. plain_char tty c"
    and "length (rx tty) + length cs \<le> fifo_cap (rx_fifo tty)"
  shows "\<exists>t. type_chars cs tty = Some t \<and> typing t \<and> rx t = rx tty @ cs \<and> tterm t = tterm tty \<and>
    vdisable t = vdisable tty \<and> breakchars t = breakchars tty"
  using assms
proof (induction cs arbitrary: tty)
  case (Cons c cs)
  note t = type_plain [OF Cons.prems(1), of c]
  let ?t = "snd (putchar_store tty c False)"
  from Cons.prems have "plain_char tty c" "length (rx tty) < fifo_cap (rx_fifo tty)" by auto
  note t = t [OF this]
  have "\<forall>c \<in> set cs. plain_char ?t c"
    using Cons.prems(2) plain_char_cong [OF t(4,5)] by simp
  with Cons.IH [OF t(2)] Cons.prems(3) t show ?case by auto
qed simp

text \<open>C2. A line typed on an idle terminal is what the next read returns: the characters up to the
  break character, with it, or without it when it is the end-of-file character. Nothing is left
  over.\<close>

theorem type_then_read:
  assumes "typing tty" and "rx tty = []"
    and "\<forall>c \<in> set cs. plain_char tty c \<and> \<not> canon_stop tty c"
    and "plain_char tty b" and "libttydisc_is_breakchar tty b"
    and "length cs < fifo_cap (rx_fifo tty)" and "length cs < sz"
  shows "\<exists>t t'. type_chars (cs @ [b]) tty = Some t \<and>
    libtty_read ws t sz nonblock =
      (let line = cs @ (if cmp_cc tty VEOF b then [] else [b])
       in Some (Rd_len (length line), line, None, t')) \<and>
    rx t' = [] \<and> typing t'"
proof -
  from type_chars_plain [OF assms(1), of "cs @ [b]"] assms obtain t
    where t: "type_chars (cs @ [b]) tty = Some t" "typing t" "rx t = cs @ b # []"
      "tterm t = tterm tty" "vdisable t = vdisable tty" "breakchars t = breakchars tty" by auto
  have eqs: "cmp_cc t = cmp_cc tty" "libttydisc_is_breakchar t = libttydisc_is_breakchar tty"
    "canon_stop t = canon_stop tty"
    using t(4-6) by (simp_all add: fun_eq_iff cmp_cc_def libttydisc_is_breakchar_def canon_stop_def)
  from t(2) have i: "tty_inv t" "lflag_on t ICANON" "\<not> tf t TF_CLOSING" "brk_exact t"
    "\<not> tf t TF_LITERAL" by (simp_all add: typing_def)
  have hb: "tf t TF_HAVEBREAK"
    using i assms(5) t(3) by (simp add: brk_exact_def eqs)
  from readCanon_line [OF tty_inv_okD(1) [OF i(1)] i(2) hb t(3), of sz ws nonblock None] assms(3,5,7)
  obtain t' where r: "libttydisc_readCanon ws t sz nonblock None =
        (let line = cs @ (if cmp_cc tty VEOF b then [] else [b])
         in Some (Rd_len (length line), line, None, t'))" "rx t' = []" "brk_exact t'"
      "tterm t' = tterm t" "\<forall>x. TF_HAVEBREAK AND x = 0 \<longrightarrow> tf t' x = tf t x"
    by (auto simp: eqs Let_def)
  have rd: "libtty_read ws t sz nonblock = libttydisc_readCanon ws t sz nonblock None"
    using i by (simp add: libtty_read_def libtty_read_nonblock_def)
  have "libttydisc_readCanon ws t sz nonblock None = libttydisc_readCanon [] t sz nonblock None"
    using hb by (simp add: libttydisc_readCanon_def canon_wait_go)
  then obtain p q where "libttydisc_readCanon [] t sz nonblock None = Some (p, q, None, t')"
    using r(1) unfolding Let_def by (metis (no_types))
  from readCanon_inv [OF i(1) _ this] have "tty_inv t'" by (simp add: keeps_inv_def)
  moreover have "\<not> tf t' TF_LITERAL" "\<not> tf t' TF_CLOSING"
    using r(5) i by (simp_all add: TF_HAVEBREAK_def TF_LITERAL_def TF_CLOSING_def)
  ultimately have "typing t'" using r i by (simp add: typing_def)
  with t(1) r rd show ?thesis by auto
qed

lemma sample_typing: "typing (sample_tty 16 [])"
proof -
  have "tty_inv (sample_tty 16 [])" by (simp add: sample_inv sample_fifo_ok)
  moreover have "brk_exact (sample_tty 16 []) \<and> lflag_on (sample_tty 16 []) ICANON \<and>
    \<not> tf (sample_tty 16 []) TF_LITERAL \<and> \<not> tf (sample_tty 16 []) TF_CLOSING" by code_simp
  ultimately show ?thesis by (simp add: typing_def)
qed

theorem type_then_read_witness:
  "\<exists>t t'. type_chars ([104, 105] @ [10]) (sample_tty 16 []) = Some t \<and>
    libtty_read [] t 80 False = Some (Rd_len 3, [104, 105, 10], None, t') \<and> rx t' = []"
proof -
  let ?s = "sample_tty 16 []"
  have "rx ?s = []" "\<forall>c \<in> set [104, 105]. plain_char ?s c \<and> \<not> canon_stop ?s c"
    "plain_char ?s 10" "libttydisc_is_breakchar ?s 10" "length [104, 105 :: u8] < fifo_cap (rx_fifo ?s)"
    "length [104, 105 :: u8] < 80"
    by code_simp+
  from type_then_read [OF sample_typing this, of "[]" False]
  obtain t t' where t: "type_chars ([104, 105] @ [10]) ?s = Some t" "rx t' = []"
    "libtty_read [] t 80 False =
      (let line = [104, 105] @ (if cmp_cc ?s VEOF 10 then [] else [10])
       in Some (Rd_len (length line), line, None, t'))" by blast
  have "\<not> cmp_cc ?s VEOF 10" by code_simp
  with t show ?thesis by auto
qed

subsection \<open>Reading\<close>

text \<open>C7. A canonical read takes one line from the front of the receive ring: when the line fits in
  the caller's buffer it is delivered whole and later lines stay; the break flag afterwards
  says exactly whether another line is complete.\<close>

theorem read_one_line:
  assumes "tty_inv tty" and "\<not> tf tty TF_CLOSING" and "lflag_on tty ICANON"
    and "tf tty TF_HAVEBREAK" and "rx tty = ys @ b # zs" and "\<forall>y \<in> set ys. \<not> canon_stop tty y"
    and "libttydisc_is_breakchar tty b" and "length ys < sz"
  shows "\<exists>tty'. libtty_read_nonblock ws tty sz nonblock st =
      (let line = ys @ (if cmp_cc tty VEOF b then [] else [b])
       in Some (Rd_len (length line), line, map_option (\<lambda>st. st\<lparr>timeout_ms := -1\<rparr>) st, tty')) \<and>
    rx tty' = zs \<and> tx tty' = tx tty \<and>
    (tf tty' TF_HAVEBREAK \<longleftrightarrow> (\<exists>c \<in> set zs. libttydisc_is_breakchar tty c))"
proof -
  from readCanon_line [OF tty_inv_okD(1) [OF assms(1)] assms(3-8), of ws nonblock st]
  obtain t where t: "libttydisc_readCanon ws tty sz nonblock st =
      (let line = ys @ (if cmp_cc tty VEOF b then [] else [b])
       in Some (Rd_len (length line), line, map_option (\<lambda>st. st\<lparr>timeout_ms := -1\<rparr>) st, t))"
    "rx t = zs" "brk_exact t" "tx t = tx tty" "tterm t = tterm tty" "breakchars t = breakchars tty"
    unfolding Let_def by metis
  have "libtty_read_nonblock ws tty sz nonblock st = libttydisc_readCanon ws tty sz nonblock st"
    using assms(2,3) by (simp add: libtty_read_nonblock_def)
  moreover have "tf t TF_HAVEBREAK \<longleftrightarrow> (\<exists>c \<in> set zs. libttydisc_is_breakchar tty c)"
    using t assms(3) by (simp add: brk_exact_def libttydisc_is_breakchar_def)
  ultimately show ?thesis using t by auto
qed

theorem read_one_line_witness:
  "\<exists>tty'. libtty_read_nonblock [] (sample_tty 16 [104, 105, 10, 108]) 80 False None =
      Some (Rd_len 3, [104, 105, 10], None, tty') \<and> rx tty' = [108] \<and> \<not> tf tty' TF_HAVEBREAK"
proof -
  let ?s = "sample_tty 16 [104, 105, 10, 108]"
  have i: "tty_inv ?s" by (simp add: sample_inv sample_fifo_ok)
  have "\<not> tf ?s TF_CLOSING" "lflag_on ?s ICANON" "tf ?s TF_HAVEBREAK" "rx ?s = [104, 105] @ 10 # [108]"
    "\<forall>y \<in> set [104, 105]. \<not> canon_stop ?s y" "libttydisc_is_breakchar ?s 10"
    "length [104, 105 :: u8] < 80" by code_simp+
  from read_one_line [OF i this, of "[]" False None]
  obtain t where t: "libtty_read_nonblock [] ?s 80 False None =
      (let line = [104, 105] @ (if cmp_cc ?s VEOF 10 then [] else [10])
       in Some (Rd_len (length line), line, map_option (\<lambda>st. st\<lparr>timeout_ms := -1\<rparr>) None, t))"
    "rx t = [108]" "tf t TF_HAVEBREAK \<longleftrightarrow> (\<exists>c \<in> set [108]. libttydisc_is_breakchar ?s c)" by blast
  have "\<not> cmp_cc ?s VEOF 10" "\<not> libttydisc_is_breakchar ?s 108" by code_simp+
  with t show ?thesis by auto
qed





subsection \<open>Writing\<close>

text \<open>C5. A write puts the output-processed form of a prefix of its data into the transmit ring, in
  order, behind what was there; only the device takes bytes out, at the front. It stops short
  only when the ring has less room than one character may need, and then reports how far it
  got (\<open>EWOULDBLOCK\<close> for nothing at all) or sleeps.\<close>

theorem write_in_order:
  assumes "tty_inv tty" and "\<not> tf tty TF_CLOSING" and "data \<noteq> []" and "\<forall>w \<in> set ws. drains w"
  shows "\<exists>n m tty'. libtty_write ws tty data nonblock =
      (write_result (length data) n 0 nonblock, tty') \<and>
    n \<le> length data \<and> (nonblock \<longrightarrow> m = 0) \<and>
    tx tty' = drop m (tx tty @ concat (map (out_bytes tty) (take n data))) \<and>
    (n < length data \<longrightarrow> fifo_cap (tx_fifo tty') - length (tx tty') < write_need tty)"
proof -
  note ok = tty_inv_okD(3) [OF assms(1)]
  from write_loop_spec [OF ok assms(4,2) refl, of data 0 nonblock] assms(3) show ?thesis
    unfolding libtty_write_loop [OF ok assms(2,3)] written_def Let_def
    by (metis prod.collapse)
qed

theorem write_in_order_witness:
  "\<exists>tty'. libtty_write [] (sample_tty 4 []) [104, 105, 106, 107] True = (Wr_len 3, tty') \<and>
     tx tty' = [104, 105, 106]"
proof -
  let ?s = "sample_tty 4 []" and ?d = "[104, 105, 106, 107] :: u8 list"
  have i: "tty_inv ?s" by (simp add: sample_inv sample_fifo_ok)
  have cl: "\<not> tf ?s TF_CLOSING" by code_simp
  from write_in_order [OF i cl, of ?d "[]" True] obtain n m t where t:
    "libtty_write [] ?s ?d True = (write_result (length ?d) n 0 True, t)" "True \<longrightarrow> m = 0"
    "tx t = drop m (tx ?s @ concat (map (out_bytes ?s) (take n ?d)))" by auto
  have "fst (libtty_write [] ?s ?d True) = Wr_len 3" by code_simp
  with t(1) have n: "n = 3" by (simp add: write_result_def split: if_splits)
  have "tx ?s @ concat (map (out_bytes ?s) (take 3 ?d)) = [104, 105, 106]" by code_simp
  with t n show ?thesis by (simp add: write_result_def)
qed

text \<open>C6. A blocking write completes: if the ring can hold one processed character and the device
  empties it between wake-ups, no more wake-ups than characters are needed.\<close>

theorem write_completes:
  assumes "tty_inv tty" and "\<not> tf tty TF_CLOSING" and "\<forall>w \<in> set ws. empties w"
    and "write_need tty \<le> fifo_cap (tx_fifo tty)" and "length data \<le> length ws"
  shows "fst (libtty_write ws tty data False) = Wr_len (length data)"
proof (cases "data = []")
  case False
  note ok = tty_inv_okD(3) [OF assms(1)]
  from write_loop_completes [OF ok assms(3,2,4,5), of 0] show ?thesis
    by (simp add: libtty_write_loop [OF ok assms(2) False])
qed (simp add: libtty_write_def assms(2))

definition sent_all :: wakeup where
  "sent_all t = (t\<lparr>tx_fifo := fifo_remove_all (tx_fifo t)\<rparr>, False)"

lemma sent_all_empties: "empties sent_all"
proof -
  have "fifo_ok (tx_fifo t) \<Longrightarrow> drained t (fst (sent_all t))" for t
    unfolding drained_def sent_all_def fst_conv
    by (rule exI [of _ "fifo_remove_all (tx_fifo t)"], rule exI [of _ "events t"])
      (simp add: fifo_remove_all_ok, rule exI [of _ "length (tx t)"], simp)
  then show ?thesis by (simp add: empties_def drains_def) (simp add: sent_all_def)
qed

theorem write_completes_witness:
  "fst (libtty_write (replicate 5 sent_all) (sample_tty 4 []) [1, 2, 3, 4, 5] False) = Wr_len 5"
proof -
  let ?s = "sample_tty 4 []"
  have "tty_inv ?s" by (simp add: sample_inv sample_fifo_ok)
  moreover have "\<not> tf ?s TF_CLOSING" "write_need ?s \<le> fifo_cap (tx_fifo ?s)" by code_simp+
  ultimately show ?thesis
    using write_completes [of ?s "replicate 5 sent_all" "[1, 2, 3, 4, 5]"] sent_all_empties by simp
qed

text \<open>\<open>libtty_init\<close> accepts a buffer of eight bytes, but with output processing on (the default)
  a write waits for eight free bytes and a ring of eight never has more than seven: such a
  terminal never accepts a character, however often the device empties the ring.\<close>

theorem write_stuck_on_small_ring:
  assumes "libtty_init env callbacks bufsize speed given = Some (Some tty, held)"
    and "ie_txmem env = Some tm" and "length tm = unat bufsize"
    and "ie_rxmem env = Some rm" and "length rm = unat bufsize"
    and "unat bufsize \<le> 8" and "data \<noteq> []" and "\<forall>w \<in> set ws. drains w"
  shows "fst (libtty_write ws tty data nonblock) =
    (if nonblock then Wr_err EWOULDBLOCK else Wr_asleep)"
proof -
  note i = init_spec [OF assms(1)]
  have i: "tty_inv tty" "fifo_cap (tx_fifo tty) = unat bufsize - 1" "\<not> tf tty TF_CLOSING"
    "tterm tty = termios_init (ie_vdisable env) (of_int speed)"
    using i assms(2-5) by auto
  have need: "write_need tty = 8"
    using i(4) by (simp add: write_need_def termios_init_def TTYDEF_OFLAG_def TTYSUP_OFLAG_def
      LIBTTYDISC_WRITE_OPROC_MAXLEN_def)
  note ok = tty_inv_okD(3) [OF i(1)]
  obtain c cs where data: "data = c # cs" using assms(7) by (cases data) auto
  obtain r ws1 t1 where w: "write_wait ws tty 8 nonblock = (r, ws1, t1)" by (metis prod_cases3)
  from write_wait_spec [OF ok assms(8) i(3) w] have "drained tty t1" and
    r: "if 8 \<le> fifo_cap (tx_fifo t1) - length (tx t1) then r = WW_room
      else r = (if nonblock then WW_exit else WW_asleep)" by auto
  then have cap: "fifo_cap (tx_fifo t1) < 8" and cl: "\<not> tf t1 TF_CLOSING"
    using i assms(6) by (auto simp: drainedD tf_def)
  with r have "r = (if nonblock then WW_exit else WW_asleep)" by (simp split: if_splits)
  with w cl show ?thesis
    unfolding libtty_write_loop [OF ok i(3) assms(7)] need by (simp add: data write_exit_def)
qed

lemma started: "x \<noteq> None \<and> fst (the x) \<noteq> None \<Longrightarrow> \<exists>t h. x = Some (Some t, h)"
  by (cases x) auto

lemma sample_start_ok:
  obtains tty held where "sample_start = Some (Some tty, held)" "libtty_init sample_env
    (cb (sample_tty 4 [])) 16 115200 False = Some (Some tty, held)"
proof -
  have "sample_start \<noteq> None \<and> fst (the sample_start) \<noteq> None" by code_simp
  from started [OF this] obtain tty held where "sample_start = Some (Some tty, held)" by blast
  then show ?thesis by (intro that) (simp_all add: sample_start_def)
qed

theorem write_stuck_on_small_ring_witness:
  "\<exists>tty held. libtty_init (sample_env\<lparr>ie_txmem := Some (replicate 8 0),
      ie_rxmem := Some (replicate 8 0)\<rparr>) (cb (sample_tty 4 [])) 8 115200 False = Some (Some tty, held) \<and>
    fst (libtty_write [sent_all, sent_all] tty [65] False) = Wr_asleep"
proof -
  let ?e = "sample_env\<lparr>ie_txmem := Some (replicate 8 0), ie_rxmem := Some (replicate 8 0)\<rparr>"
  let ?i = "libtty_init ?e (cb (sample_tty 4 [])) 8 115200 False"
  have "?i \<noteq> None \<and> fst (the ?i) \<noteq> None" by code_simp
  from started [OF this] obtain tty held where t: "?i = Some (Some tty, held)" by blast
  from write_stuck_on_small_ring [OF t, of "replicate 8 0" "replicate 8 0" "[65]"
      "[sent_all, sent_all]" False] sent_all_empties t
  show ?thesis by (auto simp: empties_def)
qed

text \<open>C14. The transmitter gets the bytes of the ring in the order they were written, and wakes the
  writer exactly when at least 16 bytes are free: by a signal, or by telling the caller.\<close>

theorem getchar_in_order:
  assumes "tty_inv tty" and "tx tty = c # cs"
  shows "\<exists>w tty'. libtty_getchar tty wake = (c, w, tty') \<and> tx tty' = cs \<and> tty_inv tty' \<and>
    (let room = (16 \<le> fifo_cap (tx_fifo tty) - length cs)
     in if wake then w = room \<and> events tty' = events tty
        else events tty' = events tty @ (if room then [Ev_signal_tx] else []))"
proof -
  note ok = tty_inv_okD(3) [OF assms(1)]
  have "\<not> fifo_is_empty (tx_fifo tty)" using ok assms(2) by (simp add: fifo_empty_iff)
  with fifo_pop_back_content [OF ok] assms(2)
  have "fst (fifo_pop_back (tx_fifo tty)) = c" "fifo_content (snd (fifo_pop_back (tx_fifo tty))) = cs"
    by simp_all
  moreover have "unat (fifo_freespace (snd (fifo_pop_back (tx_fifo tty)))) =
      fifo_cap (tx_fifo tty) - length (fifo_content (snd (fifo_pop_back (tx_fifo tty))))"
    using ok by (simp add: fifo_freespace_eq fifo_pop_back_ok)
  ultimately show ?thesis
    using getchar_inv [OF assms(1), of wake]
    by (cases wake) (auto simp: libtty_getchar_def libtty_popchar_def libtty_wake_writer_def
      case_prod_beta Let_def TX_FIFO_NOTFULL_WATERMARK_def emit_def)
qed

theorem getchar_in_order_witness:
  "\<exists>w tty'. libtty_getchar (snd (libtty_write [] (sample_tty 4 []) [104, 105] True)) True =
     (104, w, tty') \<and> tx tty' = [105] \<and> \<not> w"
proof -
  let ?s = "snd (libtty_write [] (sample_tty 4 []) [104, 105] True)"
  have "tty_inv ?s" by (rule write_inv) (simp_all add: sample_inv sample_fifo_ok keeps_inv_def)
  moreover have "tx ?s = 104 # [105]" "fifo_cap (tx_fifo ?s) = 3" by code_simp+
  ultimately show ?thesis using getchar_in_order [of ?s 104 "[105]" True] by (auto simp: Let_def)
qed

subsection \<open>Start-up\<close>

text \<open>C12. Start-up always returns; when it fails it has given back everything it had acquired, and
  when it succeeds the terminal is empty, open, without a session, and holds the two buffers,
  the two condition variables and the mutex unless the caller brought one.\<close>

theorem init_all_or_nothing:
  assumes "\<And>m. ie_txmem env = Some m \<Longrightarrow> length m = unat bufsize"
    and "\<And>m. ie_rxmem env = Some m \<Longrightarrow> length m = unat bufsize"
  shows "\<exists>r held. libtty_init env callbacks bufsize speed given = Some (r, held) \<and>
    (case r of
       None \<Rightarrow> held = []
     | Some tty \<Rightarrow> tty_inv tty \<and> brk_exact tty \<and> rx tty = [] \<and> tx tty = [] \<and>
         \<not> tf tty TF_CLOSING \<and> sid tty = -1 \<and>
         held = (if given then [] else [R_lock]) @ [R_txmem, R_rxmem, R_txq, R_rxq])"
proof -
  have "\<exists>x. libtty_init env callbacks bufsize speed given = Some x"
  proof (cases "is_pow2 bufsize \<and> 0 \<le> speed \<and> (given \<or> ie_mutex env) \<and> ie_txmem env \<noteq> None \<and>
      ie_rxmem env \<noteq> None \<and> ie_txq env \<and> ie_rxq env")
    case True
    then obtain tm rm where m: "ie_txmem env = Some tm" "ie_rxmem env = Some rm" by auto
    let ?t = "init_tty env callbacks bufsize (of_int speed) tm rm"
    have "fifo_ok (rx_fifo ?t)" "length (breakchars ?t) = 4"
      using True assms(2) [OF m(2)] by (simp_all add: init_tty_def fifo_init_ok)
    then obtain u where "termios_optimize ?t = Some u" by (metis termios_optimize_eq)
    then show ?thesis using m True by (auto simp: libtty_init_def Let_def)
  next
    case False
    then show ?thesis
      by (auto simp: libtty_init_def Let_def is_pow2_def split: option.splits)
  qed
  then obtain r held where e: "libtty_init env callbacks bufsize speed given = Some (r, held)"
    by auto
  show ?thesis
  proof (cases r)
    case None
    with e have "held = []"
      by (auto simp: libtty_init_def Let_def destroy_releases bind_eq_Some_conv
        split: if_splits option.splits)
    with e None show ?thesis by simp
  next
    case (Some tty)
    have "held = (if given then [] else [R_lock]) @ [R_txmem, R_rxmem, R_txq, R_rxq]"
      using e Some by (auto simp: libtty_init_def Let_def bind_eq_Some_conv
        split: if_splits option.splits)
    with init_spec [OF e [unfolded Some] assms] e Some show ?thesis by simp
  qed
qed

theorem init_all_or_nothing_witness:
  "\<exists>held. libtty_init (sample_env\<lparr>ie_rxq := False\<rparr>) (cb (sample_tty 4 [])) 16 115200 False =
     Some (None, held) \<and> held = []"
proof -
  let ?e = "sample_env\<lparr>ie_rxq := False\<rparr>"
  have "fst (the (libtty_init ?e (cb (sample_tty 4 [])) 16 115200 False)) = None" by code_simp
  with init_all_or_nothing [of ?e 16 "cb (sample_tty 4 [])" 115200 False] show ?thesis
    by (auto simp: sample_env_def)
qed

text \<open>C3. Every state of a terminal, from start-up on, under every interleaving of received
  characters, transmissions, reads, writes, ioctls, hang-ups and closes by any number of
  threads, has well-formed rings, break characters that agree with the control characters,
  and no foreground process group without a session.\<close>

theorem reachable_terminal_ok:
  assumes "libtty_init env callbacks bufsize speed given = Some (Some tty, held)"
    and "ie_txmem env = Some tm" and "length tm = unat bufsize"
    and "ie_rxmem env = Some rm" and "length rm = unat bufsize"
    and "tty_step\<^sup>*\<^sup>* tty tty'"
  shows "fifo_ok (rx_fifo tty') \<and> fifo_ok (tx_fifo tty') \<and>
    (\<forall>c. libttydisc_is_breakchar tty' c \<longrightarrow> line_end tty' c) \<and>
    (sid tty' < 0 \<longrightarrow> pgrp tty' = -1)"
proof -
  have "tty_inv tty" using init_spec(1) [OF assms(1)] assms(2-5) by auto
  from tty_run_inv [OF assms(6) this] show ?thesis
    by (simp add: tty_inv_def tty_ok_def brk_cache_ok_def)
qed

theorem reachable_terminal_ok_witness:
  "\<exists>tty held w tty'. sample_start = Some (Some tty, held) \<and>
     libtty_putchar tty 97 True = Some (w, tty') \<and> fifo_ok (rx_fifo tty')"
proof -
  from sample_start_ok obtain tty held where t: "sample_start = Some (Some tty, held)"
    "libtty_init sample_env (cb (sample_tty 4 [])) 16 115200 False = Some (Some tty, held)" .
  have m: "ie_txmem sample_env = Some (replicate 16 0)" "ie_rxmem sample_env = Some (replicate 16 0)"
    by (simp_all add: sample_env_def)
  then have "tty_inv tty" using init_spec(1) [OF t(2)] by simp
  from putchar_spec [OF tty_inv_okD(1) [OF this], of 97 True] obtain w tty'
    where p: "libtty_putchar tty 97 True = Some (w, tty')" by auto
  then have "tty_step\<^sup>*\<^sup>* tty tty'" by (blast intro: tty_step.t_putchar)
  from reachable_terminal_ok [OF t(2) m(1) _ m(2) _ this] t(1) p show ?thesis by auto
qed

subsection \<open>Ioctls and the controlling terminal\<close>

definition ctty_request :: "ioctl \<Rightarrow> bool" where
  "ctty_request cmd \<longleftrightarrow>
     cmd \<in> {TIOCGPGRP, TIOCNOTTY, TIOCSCTTY, TIOCGSID} \<or> (\<exists>g. cmd = TIOCSPGRP g)"

text \<open>C10. A process outside the session that owns a terminal cannot use its job control: while the
  session leader lives, every controlling-terminal ioctl of a process of another session (or of
  none) fails and neither tells nor changes anything.\<close>

theorem ctty_foreign_denied:
  assumes "ctty_request cmd" and "0 \<le> sid tty"
    and "k_procExists k (sid tty) 0 (sid tty) True \<noteq> 0" and "k_getsid k pid \<noteq> Some (nat (sid tty))"
  shows "\<exists>e. libtty_ioctl k ws tty pid cmd = Some (I_err e, Out_none, tty)"
proof -
  have c: "libtty_sessionCheck k tty pid claim = (Inl ENOTTY, tty)" for claim
    using assms(2-4) by (auto simp: libtty_sessionCheck_def Let_def split: option.splits)
  have "\<exists>e. libtty_cttyIoctl k tty pid cmd = (Some e, Out_none, tty)"
    using assms(1) by (cases cmd; auto simp: ctty_request_def libtty_cttyIoctl_def c
      libtty_sessionAcquire_def split: option.splits)
  then obtain e where "libtty_cttyIoctl k tty pid cmd = (Some e, Out_none, tty)" ..
  then show ?thesis
    using assms(1) by (cases cmd) (auto simp: ctty_request_def libtty_ioctl_def ret_of_def)
qed

theorem ctty_foreign_denied_witness:
  "\<exists>e. libtty_ioctl sample_kernel [] ((sample_tty 4 [])\<lparr>sid := 7, pgrp := 8\<rparr>) 9 (TIOCSPGRP (Some 9)) =
     Some (I_err e, Out_none, (sample_tty 4 [])\<lparr>sid := 7, pgrp := 8\<rparr>)"
  by (rule ctty_foreign_denied) (simp_all add: ctty_request_def sample_kernel_def)

text \<open>C11. Acquiring a controlling terminal: a session leader gets a terminal that is free, or whose
  session has ended, provided the kernel grants it; the leader's process group becomes the
  foreground group. Anyone else is refused, and the terminal keeps its owner.\<close>

theorem ctty_acquire:
  assumes "0 < pid" and "k_getsid k pid = Some s" and "k_getpgid k pid = Inr g"
    and "sid tty < 0 \<or> k_procExists k (sid tty) 0 (sid tty) True = 0"
  shows "\<exists>tty'. libtty_ioctl k ws tty pid TIOCSCTTY =
      Some (if int s \<noteq> pid then I_err EPERM else ret_of (k_sessionCtty k pid), Out_none, tty') \<and>
    (if int s = pid \<and> k_sessionCtty k pid = None
     then sid tty' = pid \<and> pgrp tty' = int g else sid tty' < 0)"
proof -
  define t where "t = (if 0 \<le> sid tty \<and> k_procExists k (sid tty) 0 (sid tty) True = 0
    then tty\<lparr>sid := -1, pgrp := -1\<rparr> else tty)"
  have "libtty_sessionCheck k tty pid True = (Inr (int s), t)" and free: "sid t < 0"
    using assms by (auto simp: libtty_sessionCheck_def Let_def t_def)
  then have "libtty_sessionAcquire k tty pid =
      (if int s \<noteq> pid then (Some EPERM, t)
       else case k_sessionCtty k pid of
           Some e \<Rightarrow> (Some e, emit (Ev_sessionCtty pid True) t)
         | None \<Rightarrow> (None, (libtty_sessionClaim (emit (Ev_sessionCtty pid True) t) pid)\<lparr>pgrp := int g\<rparr>))"
    using assms by (auto simp: libtty_sessionAcquire_def Let_def split: option.splits)
  with free show ?thesis
    by (simp add: libtty_ioctl_def libtty_cttyIoctl_def ret_of_def libtty_sessionClaim_def
      split: option.splits)
qed

theorem ctty_acquire_witness:
  "\<exists>tty'. libtty_ioctl sample_kernel [] ((sample_tty 4 [])\<lparr>sid := 9, pgrp := 9\<rparr>) 7 TIOCSCTTY =
     Some (I_ok, Out_none, tty') \<and> sid tty' = 7 \<and> pgrp tty' = 7"
  using ctty_acquire [of 7 sample_kernel 7 7 "(sample_tty 4 [])\<lparr>sid := 9, pgrp := 9\<rparr>" "[]"]
  by (simp add: sample_kernel_def ret_of_def)

text \<open>C13. Terminal attributes: \<open>TCSETS\<close> with consistent speeds is accepted, \<open>TCGETS\<close> afterwards
  returns the supported part of what was set, waiting input and output stay, and the break
  flag is recomputed for the new mode; with inconsistent speeds nothing changes.\<close>

theorem tcsets_tcgets:
  assumes "tty_inv tty"
  shows "\<exists>r tty'. libtty_ioctl k ws tty pid (TCSETS t) = Some (r, Out_none, tty') \<and>
    (if c_ispeed t = 0 \<or> c_ispeed t = c_ospeed t
     then r = I_ok \<and>
       libtty_ioctl k ws' tty' pid' TCGETS = Some (I_ok, Out_termios (accepted_termios tty t), tty') \<and>
       rx tty' = rx tty \<and> tx tty' = tx tty \<and> brk_exact tty' \<and> tty_inv tty'
     else r = I_err EINVAL \<and> tty' = tty)"
proof (cases "c_ispeed t = 0 \<or> c_ispeed t = c_ospeed t")
  case True
  from tcsets_spec [OF assms True] obtain u where "tcsets tty t = Some (I_ok, u)" "tty_inv u"
    "brk_exact u" "tterm u = accepted_termios tty t" "rx u = rx tty" "tx u = tx tty" by metis
  with True show ?thesis by (simp add: libtty_ioctl_def)
next
  case False
  then show ?thesis by (simp add: libtty_ioctl_def tcsets_def Let_def)
qed

theorem tcsets_tcgets_witness:
  "\<exists>r tty'. libtty_ioctl sample_kernel [] (sample_tty 4 [97, 10]) 7
      (TCSETS (termios_init 0 9600)) = Some (r, Out_none, tty') \<and> r = I_ok \<and> rx tty' = [97, 10]"
proof -
  let ?s = "sample_tty 4 [97, 10]"
  have i: "tty_inv ?s" by (simp add: sample_inv sample_fifo_ok)
  have "rx ?s = [97, 10]" by code_simp
  with tcsets_tcgets [OF i, of sample_kernel "[]" 7 "termios_init 0 9600" "[]" 0] show ?thesis
    by (auto simp: termios_init_def)
qed

text \<open>Flushing: \<open>TCFLSH\<close> empties the receive ring, the transmit ring (but for the byte the
  transmitter may be working on), or both, and afterwards the break flag is exact; any other
  argument is \<open>EINVAL\<close> and changes nothing.\<close>

lemma flush_empties:
  assumes "tty_inv tty"
  shows "\<exists>r tty'. libtty_ioctl k ws tty pid (TCFLSH type) = Some (r, Out_none, tty') \<and>
    (if type = Flush_other then r = I_err EINVAL \<and> tty' = tty
     else r = I_ok \<and> brk_exact tty' \<and> tty_inv tty' \<and>
       rx tty' = (if type = TCOFLUSH then rx tty else []) \<and>
       tx tty' = (if type = TCIFLUSH then tx tty else take 1 (tx tty)))"
proof (cases "type = Flush_other")
  case False
  from flush_spec [OF assms False] obtain u where "libtty_flush tty type = Some (None, u)"
    "tty_inv u" "brk_exact u" "rx u = (if type = TCOFLUSH then rx tty else [])"
    "tx u = (if type = TCIFLUSH then tx tty else take 1 (tx tty))" by metis
  with False show ?thesis by (simp add: libtty_ioctl_def ret_of_def)
qed (simp add: libtty_ioctl_def libtty_flush_def ret_of_def)

lemma flush_empties_witness:
  "\<exists>r tty'. libtty_ioctl sample_kernel [] (sample_tty 4 [97, 10]) 7 (TCFLSH TCIOFLUSH) =
     Some (r, Out_none, tty') \<and> r = I_ok \<and> rx tty' = []"
proof -
  have i: "tty_inv (sample_tty 4 [97, 10])" by (simp add: sample_inv sample_fifo_ok)
  from flush_empties [OF i, of sample_kernel "[]" 7 TCIOFLUSH] show ?thesis by auto
qed

end
