(* ===== verification/Lf_Fifo.thy ===== *)
theory Lf_Fifo
  imports Byte_Queue
begin

text \<open>
  The lock-free single-producer single-consumer ring of \<open>tty/libtty/libtty-lf-fifo.h\<close>. The
  producer runs inside an interrupt handler, so a push is one atomic step of the consumer's
  view; a pop is interrupted between its atomic accesses. Each of these accesses is a step of
  \<open>lf_step\<close>, pushes occur at any point between them, and every interleaving is shown to be a
  run of an atomic queue that forgets its oldest byte on overrun.
\<close>

record lf_fifo =
  lf_headPos :: u32
  lf_tail :: u32
  lf_sizeMask :: u32
  lf_data :: "u8 list"

text \<open>\<open>tail\<close> packs a position and, in its lowest bit, whether a push (0) or a pop (1) updated it
  last: \<open>tail >> 1\<close> and \<open>pos << 1\<close>.\<close>

definition tail_pos :: "u32 \<Rightarrow> u32" where
  "tail_pos tail = drop_bit 1 tail"

definition tail_pack :: "u32 \<Rightarrow> u32" where
  "tail_pack pos = push_bit 1 pos"

subsection \<open>Operations\<close>

definition lf_fifo_init :: "u8 list \<Rightarrow> u32 \<Rightarrow> lf_fifo" where
  "lf_fifo_init data sz = \<lparr>lf_headPos = 0, lf_tail = 0, lf_sizeMask = sz - 1, lf_data = data\<rparr>"

text \<open>The returned number is 0 in case of overrun, 1 otherwise.\<close>

definition lf_fifo_push :: "lf_fifo \<Rightarrow> u8 \<Rightarrow> nat \<times> lf_fifo" where
  "lf_fifo_push f byte =
     (let tailPos = tail_pos (lf_tail f);
          f1 = f\<lparr>lf_data := (lf_data f)[unat (lf_headPos f) := byte]\<rparr>;
          headPos = (lf_headPos f + 1) AND lf_sizeMask f;
          (ret, f2) = (if headPos = tailPos
             then (0, f1\<lparr>lf_tail := tail_pack ((headPos + 1) AND lf_sizeMask f)\<rparr>)
             else (1, f1))
      in (ret, f2\<lparr>lf_headPos := headPos\<rparr>))"

text \<open>The consumer between its atomic accesses: nothing read yet; \<open>headPos\<close> loaded; \<open>tail\<close>
  marked and loaded; the byte read.\<close>

datatype pop_pc = Pop_Idle | Pop_Head u32 | Pop_Tail u32 u32 | Pop_Read u32 u8

text \<open>What one access makes of the consumer: it goes on, or it returns the byte it popped
  (the C function's 1) or nothing (0).\<close>

datatype pop_out = Pop_Goes pop_pc | Pop_Ret "u8 option"

fun lf_pop_access :: "lf_fifo \<Rightarrow> pop_pc \<Rightarrow> lf_fifo \<times> pop_out" where
  "lf_pop_access f Pop_Idle = (f, Pop_Goes (Pop_Head (lf_headPos f)))"
| "lf_pop_access f (Pop_Head headPos) =
     (let tail = lf_tail f OR 1 in (f\<lparr>lf_tail := tail\<rparr>, Pop_Goes (Pop_Tail headPos tail)))"
| "lf_pop_access f (Pop_Tail headPos tail) =
     (let tailPos = tail_pos tail
      in (f, if headPos = tailPos then Pop_Ret None
             else Pop_Goes (Pop_Read tail (lf_data f ! unat tailPos))))"
| "lf_pop_access f (Pop_Read tail byte) =
     (let newTail = tail_pack ((tail_pos tail + 1) AND lf_sizeMask f) OR 1
      in if lf_tail f = tail then (f\<lparr>lf_tail := newTail\<rparr>, Pop_Ret (Some byte))
         else (f, Pop_Ret None))"

text \<open>The whole function, run without interruption.\<close>

definition lf_fifo_pop :: "lf_fifo \<Rightarrow> u8 option \<times> lf_fifo" where
  "lf_fifo_pop f =
     (let headPos = lf_headPos f;
          tail = lf_tail f OR 1;
          f1 = f\<lparr>lf_tail := tail\<rparr>;
          tailPos = tail_pos tail;
          newTail = tail_pack ((tailPos + 1) AND lf_sizeMask f) OR 1
      in if headPos = tailPos then (None, f1)
         else (Some (lf_data f ! unat tailPos), f1\<lparr>lf_tail := newTail\<rparr>))"

definition lf_fifo_empty :: "lf_fifo \<Rightarrow> bool \<times> lf_fifo" where
  "lf_fifo_empty f =
     (lf_headPos f = tail_pos (lf_tail f), f\<lparr>lf_tail := lf_tail f OR 1\<rparr>)"

subsection \<open>Well-formed rings and their content\<close>

definition lf_ok :: "lf_fifo \<Rightarrow> bool" where
  "lf_ok f \<longleftrightarrow> is_pow2 (lf_sizeMask f + 1) \<and> length (lf_data f) = unat (lf_sizeMask f + 1) \<and>
     lf_headPos f \<le> lf_sizeMask f \<and> tail_pos (lf_tail f) \<le> lf_sizeMask f"

definition lf_content :: "lf_fifo \<Rightarrow> u8 list" where
  "lf_content f = ring_list (lf_data f) (unat (tail_pos (lf_tail f))) (unat (lf_headPos f))"

definition lf_cap :: "lf_fifo \<Rightarrow> nat" where
  "lf_cap f = length (lf_data f) - 1"

lemma lf_okE:
  assumes "lf_ok f"
  obtains k where "k < 32" "lf_sizeMask f = mask k" "length (lf_data f) = 2 ^ k"
    "unat (lf_headPos f) < 2 ^ k" "unat (tail_pos (lf_tail f)) < 2 ^ k"
proof -
  from assms obtain k where k: "k < 32" "unat (lf_sizeMask f + 1) = 2 ^ k"
    by (auto simp: lf_ok_def dest: is_pow2_unat)
  then have m: "lf_sizeMask f = mask k"
    using is_pow2_mask [of "lf_sizeMask f + 1" k] by simp
  with k assms that show thesis by (simp add: lf_ok_def le_mask_iff)
qed

lemma lf_okI:
  assumes "k < 32" "lf_sizeMask f = mask k" "length (lf_data f) = 2 ^ k"
    "unat (lf_headPos f) < 2 ^ k" "unat (tail_pos (lf_tail f)) < 2 ^ k"
  shows "lf_ok f"
proof -
  have "mask k + 1 = (2 ^ k :: u32)" by (simp add: mask_eq_exp_minus_1)
  with assms show ?thesis by (simp add: lf_ok_def is_pow2_exp le_mask_iff unat_exp)
qed

text \<open>The position and the mark packed into \<open>tail\<close> do not disturb each other.\<close>

lemma tail_pos_or_1 [simp]: "tail_pos (x OR 1) = tail_pos x"
  unfolding tail_pos_def by (rule bit_eqI) (auto simp: bit_simps)

lemma tail_pos_pack:
  assumes "k < 32" and "unat (x :: u32) < 2 ^ k"
  shows "tail_pos (tail_pack x) = x"
proof -
  have "unat x < 2 ^ 31"
    using assms power_increasing [of k 31 "2::nat"] by simp
  then have "unat (tail_pos (tail_pack x)) = unat x"
    by (simp add: tail_pos_def tail_pack_def unsigned_drop_bit_eq drop_bit_Suc push_bit_Suc
      unat_word_ariths)
  then show ?thesis by (simp add: word_unat_eq_iff)
qed

lemma even_tail_pack: "even (tail_pack x)"
  by (simp add: tail_pack_def push_bit_Suc)

lemma odd_or_1: "odd ((x :: u32) OR 1)"
  by (simp add: even_or_iff)

subsection \<open>Sequential behaviour\<close>

text \<open>What a push makes of the content: the byte is appended, and on overrun the oldest byte is
  forgotten.\<close>

definition lf_append :: "nat \<Rightarrow> u8 list \<Rightarrow> u8 \<Rightarrow> nat \<times> u8 list" where
  "lf_append n xs b = (if length xs < n then (1, xs @ [b]) else (0, tl (xs @ [b])))"

lemma lf_content_le: "lf_ok f \<Longrightarrow> length (lf_content f) \<le> lf_cap f"
  by (erule lf_okE) (auto simp: lf_content_def lf_cap_def dest: ring_len_less
    [of "unat (tail_pos (lf_tail f))" _ "unat (lf_headPos f)"])

lemma lf_content_Nil: "lf_ok f \<Longrightarrow> lf_content f = [] \<longleftrightarrow> lf_headPos f = tail_pos (lf_tail f)"
  by (erule lf_okE) (simp add: lf_content_def ring_list_eq_Nil word_unat_eq_iff)

lemma ring_list_overrun:
  assumes "t < length d" and "h < length d" and "Suc h mod length d = t"
  shows "ring_list (d[h := b]) (Suc t mod length d) t = tl (ring_list d t h @ [b])"
proof (cases "length d = 1")
  case True
  with assms show ?thesis by simp
next
  case False
  with assms have ne: "h \<noteq> t" "Suc h mod length d \<noteq> Suc t mod length d"
    by (auto simp: mod_succ_cases split: if_splits)
  have t: "Suc t mod length d < length d" by (rule mod_less_divisor) (use assms in auto)
  from ne assms have "ring_list d t h @ [b] = d ! t # ring_list d (Suc t mod length d) h @ [b]"
    by (simp add: ring_list_pop)
  also have "ring_list d (Suc t mod length d) h @ [b] =
      ring_list (d[h := b]) (Suc t mod length d) (Suc h mod length d)"
    using ring_list_push [OF t assms(2) ne(2)] by simp
  finally show ?thesis by (simp add: assms(3))
qed

lemma lf_push_spec:
  assumes "lf_ok f"
  shows "lf_ok (snd (lf_fifo_push f b))"
    and "lf_cap (snd (lf_fifo_push f b)) = lf_cap f"
    and "(fst (lf_fifo_push f b), lf_content (snd (lf_fifo_push f b))) =
      lf_append (lf_cap f) (lf_content f) b"
proof -
  from assms obtain k where k: "k < 32" "lf_sizeMask f = mask k" "length (lf_data f) = 2 ^ k"
    and n: "unat (lf_headPos f) < 2 ^ k" "unat (tail_pos (lf_tail f)) < 2 ^ k"
    by (rule lf_okE)
  let ?h = "unat (lf_headPos f)" and ?t = "unat (tail_pos (lf_tail f))"
  let ?h' = "(lf_headPos f + 1) AND mask k"
  have succ: "unat ((x + 1) AND mask k) = Suc (unat x) mod 2 ^ k" for x :: u32
    using k by (simp add: ring)
  have pack: "tail_pos (tail_pack (x AND mask k)) = x AND mask k" for x
    by (rule tail_pos_pack [OF k(1) unat_mask_less])
  have full: "length (lf_content f) < lf_cap f \<longleftrightarrow> Suc ?h mod 2 ^ k \<noteq> ?t"
    using lf_content_le [OF assms] k n ring_len_full [of ?t "2 ^ k" ?h]
    by (auto simp: lf_content_def lf_cap_def)
  have eq: "?h' = tail_pos (lf_tail f) \<longleftrightarrow> Suc ?h mod 2 ^ k = ?t"
    by (simp add: word_unat_eq_iff succ)
  show "lf_ok (snd (lf_fifo_push f b))"
    by (rule lf_okI [OF k(1)]) (use k n in \<open>simp_all add: lf_fifo_push_def Let_def succ pack
      split: if_split\<close>)
  show "lf_cap (snd (lf_fifo_push f b)) = lf_cap f"
    by (simp add: lf_cap_def lf_fifo_push_def Let_def)
  show "(fst (lf_fifo_push f b), lf_content (snd (lf_fifo_push f b))) =
      lf_append (lf_cap f) (lf_content f) b"
  proof (cases "Suc ?h mod 2 ^ k = ?t")
    case True
    then show ?thesis
      using full eq k n ring_list_overrun [of ?t "lf_data f" ?h b]
      by (simp add: lf_fifo_push_def Let_def lf_append_def lf_content_def succ pack)
  next
    case False
    then show ?thesis
      using full eq k n ring_list_push [of ?t "lf_data f" ?h b]
      by (simp add: lf_fifo_push_def Let_def lf_append_def lf_content_def succ pack)
  qed
qed

lemma lf_push_tail:
  "fst (lf_fifo_push f b) = 0 \<Longrightarrow> even (lf_tail (snd (lf_fifo_push f b)))"
  "fst (lf_fifo_push f b) \<noteq> 0 \<Longrightarrow> lf_tail (snd (lf_fifo_push f b)) = lf_tail f"
  by (auto simp: lf_fifo_push_def Let_def even_tail_pack split: if_splits)

text \<open>Moving \<open>tail\<close> past the oldest byte.\<close>

lemma lf_advance:
  assumes "lf_ok f" and "lf_content f \<noteq> []"
  defines "f' \<equiv> f\<lparr>lf_tail := tail_pack ((tail_pos (lf_tail f) + 1) AND lf_sizeMask f) OR 1\<rparr>"
  shows "lf_ok f'" and "lf_content f = lf_data f ! unat (tail_pos (lf_tail f)) # lf_content f'"
    and "lf_cap f' = lf_cap f"
proof -
  from assms obtain k where k: "k < 32" "lf_sizeMask f = mask k" "length (lf_data f) = 2 ^ k"
    and n: "unat (lf_headPos f) < 2 ^ k" "unat (tail_pos (lf_tail f)) < 2 ^ k"
    by (elim lf_okE)
  let ?h = "unat (lf_headPos f)" and ?t = "unat (tail_pos (lf_tail f))"
  have pack: "tail_pos (tail_pack (x AND mask k)) = x AND mask k" for x
    by (rule tail_pos_pack [OF k(1) unat_mask_less])
  have ne: "?h \<noteq> ?t" using assms(2) k n by (auto simp: lf_content_def)
  show "lf_ok f'"
    by (rule lf_okI [OF k(1)]) (use k n in \<open>simp_all add: f'_def pack ring\<close>)
  show "lf_content f = lf_data f ! ?t # lf_content f'"
    using ne k n ring_list_pop [of ?t "lf_data f" ?h]
    by (simp add: f'_def lf_content_def pack ring)
  show "lf_cap f' = lf_cap f" by (simp add: f'_def lf_cap_def)
qed

lemma lf_mark [simp]:
  "lf_content (f\<lparr>lf_tail := lf_tail f OR 1\<rparr>) = lf_content f"
  "lf_ok (f\<lparr>lf_tail := lf_tail f OR 1\<rparr>) = lf_ok f"
  "lf_cap (f\<lparr>lf_tail := t\<rparr>) = lf_cap f"
  by (simp_all add: lf_content_def lf_ok_def lf_cap_def)

text \<open>An undisturbed pop takes the oldest byte exactly when there is one.\<close>

lemma lf_pop_spec:
  assumes "lf_ok f"
  shows "lf_ok (snd (lf_fifo_pop f))"
    and "fst (lf_fifo_pop f) = (case lf_content f of [] \<Rightarrow> None | x # xs \<Rightarrow> Some x)"
    and "lf_content (snd (lf_fifo_pop f)) = tl (lf_content f)"
proof -
  have "lf_ok (snd (lf_fifo_pop f)) \<and>
    fst (lf_fifo_pop f) = (case lf_content f of [] \<Rightarrow> None | x # xs \<Rightarrow> Some x) \<and>
    lf_content (snd (lf_fifo_pop f)) = tl (lf_content f)"
  proof (cases "lf_content f = []")
    case True
    with assms have "lf_headPos f = tail_pos (lf_tail f)" by (simp add: lf_content_Nil)
    with assms True show ?thesis by (simp add: lf_fifo_pop_def Let_def)
  next
    case False
    with lf_advance [OF assms False] lf_content_Nil [OF assms] show ?thesis
      by (simp add: lf_fifo_pop_def Let_def split: list.split)
  qed
  then show "lf_ok (snd (lf_fifo_pop f))"
    and "fst (lf_fifo_pop f) = (case lf_content f of [] \<Rightarrow> None | x # xs \<Rightarrow> Some x)"
    and "lf_content (snd (lf_fifo_pop f)) = tl (lf_content f)"
    by blast+
qed

subsection \<open>Every interleaving\<close>

record lf_sys =
  sys_q :: lf_fifo
  sys_pc :: pop_pc

datatype lf_label = L_Push u8 nat | L_Access | L_Ret "u8 option"

inductive lf_step :: "lf_sys \<Rightarrow> lf_label \<Rightarrow> lf_sys \<Rightarrow> bool" where
  interrupt: "lf_fifo_push (sys_q s) b = (r, q) \<Longrightarrow> lf_step s (L_Push b r) (s\<lparr>sys_q := q\<rparr>)"
| access: "lf_pop_access (sys_q s) (sys_pc s) = (q, Pop_Goes pc) \<Longrightarrow>
    lf_step s L_Access \<lparr>sys_q = q, sys_pc = pc\<rparr>"
| return: "lf_pop_access (sys_q s) (sys_pc s) = (q, Pop_Ret r) \<Longrightarrow>
    lf_step s (L_Ret r) \<lparr>sys_q = q, sys_pc = Pop_Idle\<rparr>"

inductive lf_run :: "lf_sys \<Rightarrow> lf_label list \<Rightarrow> lf_sys \<Rightarrow> bool" where
  stop: "lf_run s [] s"
| step: "lf_step s l s1 \<Longrightarrow> lf_run s1 ls s2 \<Longrightarrow> lf_run s (l # ls) s2"

text \<open>The queue the ring stands for, as an atomic object: a push appends with overrun, a
  successful pop takes the first byte, an unsuccessful one and the accesses inside a pop leave
  the queue alone. \<^term>\<open>None\<close> is a label the queue does not allow.\<close>

fun spec_step :: "nat \<Rightarrow> u8 list \<Rightarrow> lf_label \<Rightarrow> u8 list option" where
  "spec_step n xs (L_Push b r) =
     (let (r', ys) = lf_append n xs b in if r = r' then Some ys else None)"
| "spec_step n xs L_Access = Some xs"
| "spec_step n xs (L_Ret None) = Some xs"
| "spec_step n xs (L_Ret (Some b)) =
     (case xs of [] \<Rightarrow> None | x # ys \<Rightarrow> if x = b then Some ys else None)"

fun spec_run :: "nat \<Rightarrow> u8 list \<Rightarrow> lf_label list \<Rightarrow> u8 list option" where
  "spec_run n xs [] = Some xs"
| "spec_run n xs (l # ls) = (case spec_step n xs l of None \<Rightarrow> None | Some ys \<Rightarrow> spec_run n ys ls)"

text \<open>What holds between the accesses of a pop. The mark is what makes it inductive: a push that
  moves \<open>tail\<close> clears the mark, so the value the consumer compares with can not come back.\<close>

fun pc_inv :: "lf_fifo \<Rightarrow> pop_pc \<Rightarrow> bool" where
  "pc_inv q Pop_Idle = True"
| "pc_inv q (Pop_Head h) = (lf_content q = [] \<longrightarrow> h = lf_headPos q)"
| "pc_inv q (Pop_Tail h t) =
     (odd t \<and> (lf_tail q = t \<longrightarrow> h \<noteq> tail_pos t \<longrightarrow> lf_content q \<noteq> []))"
| "pc_inv q (Pop_Read t b) =
     (odd t \<and> (lf_tail q = t \<longrightarrow> lf_content q \<noteq> [] \<and> hd (lf_content q) = b))"

definition lf_inv :: "lf_sys \<Rightarrow> bool" where
  "lf_inv s \<longleftrightarrow> lf_ok (sys_q s) \<and> pc_inv (sys_q s) (sys_pc s)"

lemma lf_content_hd:
  "lf_ok f \<Longrightarrow> lf_headPos f \<noteq> tail_pos (lf_tail f) \<Longrightarrow>
    hd (lf_content f) = lf_data f ! unat (tail_pos (lf_tail f))"
  using lf_advance(2) [of f] by (simp add: lf_content_Nil)

lemma lf_content_advance:
  "lf_ok f \<Longrightarrow> lf_content f \<noteq> [] \<Longrightarrow>
    lf_content (f\<lparr>lf_tail := tail_pack ((tail_pos (lf_tail f) + 1) AND lf_sizeMask f) OR 1\<rparr>) =
      tl (lf_content f)"
  using lf_advance(2) [of f] by simp

lemma lf_cap_0: "lf_ok f \<Longrightarrow> lf_cap f = 0 \<Longrightarrow> lf_headPos f = 0"
  by (erule lf_okE) (auto simp: lf_cap_def word_unat_eq_iff le_Suc_eq)

lemma pc_inv_push:
  assumes "lf_ok q" and "pc_inv q pc"
  shows "pc_inv (snd (lf_fifo_push q b)) pc"
proof -
  let ?r = "fst (lf_fifo_push q b)" and ?q = "snd (lf_fifo_push q b)"
  note push = lf_push_spec [OF assms(1), of b]
  have keep: "lf_tail ?q = lf_tail q \<and> lf_content ?q = lf_content q @ [b]" if "odd (lf_tail ?q)"
    using that push(3) lf_push_tail [of q b] by (auto simp: lf_append_def split: if_splits)
  show ?thesis
  proof (cases pc)
    case (Pop_Head h)
    have "h = lf_headPos ?q" if e: "lf_content ?q = []"
    proof -
      from e push(3) have "lf_content q = []" "lf_cap q = 0"
        by (auto simp: lf_append_def tl_append split: if_splits list.splits)
      with Pop_Head assms push show ?thesis by (simp add: lf_cap_0)
    qed
    with Pop_Head show ?thesis by simp
  qed (use assms keep in auto)
qed

lemma lf_step_inv:
  assumes "lf_step s l s'" and "lf_inv s"
  shows "lf_inv s' \<and> lf_cap (sys_q s') = lf_cap (sys_q s) \<and>
    spec_step (lf_cap (sys_q s)) (lf_content (sys_q s)) l = Some (lf_content (sys_q s'))"
  using assms
proof (induction rule: lf_step.induct)
  case (interrupt s b r q)
  have ok: "lf_ok (sys_q s)" and pc: "pc_inv (sys_q s) (sys_pc s)"
    using interrupt.prems by (auto simp: lf_inv_def)
  from lf_push_spec [OF ok, of b] pc_inv_push [OF ok pc, of b] show ?case
    by (auto simp: lf_inv_def interrupt.hyps split: prod.split)
next
  case (access s q pc)
  then show ?case
    by (cases "sys_pc s")
      (auto simp: lf_inv_def Let_def odd_or_1 lf_content_Nil lf_content_hd split: if_splits)
next
  case (return s q r)
  then show ?case
    by (cases "sys_pc s")
      (auto simp: lf_inv_def Let_def lf_advance(1) lf_content_advance split: if_splits list.split)
qed

lemma lf_run_inv:
  assumes "lf_run s ls s'" and "lf_inv s"
  shows "lf_inv s' \<and> spec_run (lf_cap (sys_q s)) (lf_content (sys_q s)) ls =
    Some (lf_content (sys_q s'))"
  using assms
proof (induction rule: lf_run.induct)
  case (stop s)
  then show ?case by simp
next
  case (step s l s1 ls s2)
  then show ?case using lf_step_inv [of s l s1] by simp
qed

lemma lf_init_ok:
  assumes "is_pow2 sz" and "length data = unat sz"
  shows "lf_ok (lf_fifo_init data sz)" and "lf_content (lf_fifo_init data sz) = []"
    and "lf_cap (lf_fifo_init data sz) = unat sz - 1"
  using assms by (simp_all add: lf_ok_def lf_fifo_init_def lf_content_def lf_cap_def tail_pos_def)

text \<open>C1. The lock-free ring is linearizable: from start-up, whatever an interrupt handler pushes
  between whichever accesses of the consumer, the pushes and pops that return form a run of a
  bounded queue that forgets its oldest byte on overrun. No byte is popped that was not pushed,
  none is popped twice or out of order, and an overrun is always reported.\<close>

theorem lf_linearizable:
  assumes "is_pow2 sz" and "length data = unat sz"
    and "lf_run \<lparr>sys_q = lf_fifo_init data sz, sys_pc = Pop_Idle\<rparr> ls s"
  shows "spec_run (unat sz - 1) [] ls = Some (lf_content (sys_q s))"
proof -
  have "lf_inv \<lparr>sys_q = lf_fifo_init data sz, sys_pc = Pop_Idle\<rparr>"
    using assms(1,2) by (simp add: lf_inv_def lf_init_ok)
  from lf_run_inv [OF assms(3) this] assms(1,2) show ?thesis by (simp add: lf_init_ok)
qed

text \<open>A pop interrupted by an overrun on a ring of two cells: the consumer has read the byte 7 when
  the handler pushes 8, which drops 7; the pop reports failure and the next one returns 8.\<close>

theorem lf_linearizable_witness:
  "\<exists>s. lf_run \<lparr>sys_q = lf_fifo_init [0, 0] 2, sys_pc = Pop_Idle\<rparr>
      [L_Push 7 1, L_Access, L_Access, L_Access, L_Push 8 0, L_Ret None] s \<and>
    spec_run (unat (2 :: u32) - 1) [] [L_Push 7 1, L_Access, L_Access, L_Access, L_Push 8 0, L_Ret None] =
      Some (lf_content (sys_q s)) \<and> lf_content (sys_q s) = [8]"
proof -
  let ?ls = "[L_Push 7 1, L_Access, L_Access, L_Access, L_Push 8 0, L_Ret None]"
  have "\<exists>s. lf_run \<lparr>sys_q = lf_fifo_init [0, 0] 2, sys_pc = Pop_Idle\<rparr> ?ls s"
    by (rule exI, (rule lf_run.intros lf_step.interrupt lf_step.access [rotated]
      lf_step.return [rotated] | code_simp)+)
  then obtain s where s: "lf_run \<lparr>sys_q = lf_fifo_init [0, 0] 2, sys_pc = Pop_Idle\<rparr> ?ls s" ..
  have "is_pow2 (2 :: u32)" "length [0, 0 :: u8] = unat (2 :: u32)" by code_simp+
  from lf_linearizable [OF this s] s show ?thesis by (auto simp: lf_append_def)
qed

text \<open>The accesses of one pop, run without an interrupt.\<close>

fun lf_pop_run :: "nat \<Rightarrow> lf_fifo \<Rightarrow> pop_pc \<Rightarrow> (u8 option \<times> lf_fifo) option" where
  "lf_pop_run 0 f pc = None"
| "lf_pop_run (Suc n) f pc =
     (case lf_pop_access f pc of
        (g, Pop_Goes pc') \<Rightarrow> lf_pop_run n g pc'
      | (g, Pop_Ret r) \<Rightarrow> Some (r, g))"

text \<open>A pop that is not interrupted makes at most four atomic accesses; it returns the oldest
  byte of a non-empty ring and nothing of an empty one, and agrees with the function run as a
  whole.\<close>

lemma lf_pop_undisturbed:
  assumes "lf_ok f"
  shows "lf_pop_run 4 f Pop_Idle = Some (lf_fifo_pop f) \<and>
    fst (lf_fifo_pop f) = (if lf_content f = [] then None else Some (hd (lf_content f))) \<and>
    lf_content (snd (lf_fifo_pop f)) = tl (lf_content f)"
proof -
  have "lf_pop_run 4 f Pop_Idle = Some (lf_fifo_pop f)"
    by (simp add: numeral_eq_Suc lf_fifo_pop_def Let_def)
  with lf_pop_spec [OF assms] show ?thesis by (auto split: list.splits)
qed

lemma lf_pop_undisturbed_witness:
  "lf_pop_run 4 (snd (lf_fifo_push (lf_fifo_init [0, 0] 2) 7)) Pop_Idle =
     Some (lf_fifo_pop (snd (lf_fifo_push (lf_fifo_init [0, 0] 2) 7)))"
proof -
  have "lf_ok (snd (lf_fifo_push (lf_fifo_init [0, 0] 2) 7))" by code_simp
  from lf_pop_undisturbed [OF this] show ?thesis by blast
qed

end
