(* ===== verification/Bytes.thy ===== *)
theory Bytes
  imports Dev_Prelude "HOL-Library.Monad_Syntax"
begin

text \<open>
  Byte-level encoding shared by the protocol components: the bytes of 16-, 24- and 32-bit
  fields as the C expressions \<open>(x >> 8) & 0xff\<close> and \<open>b << 8 | ...\<close> write them, and buffers
  with their bounds. Reading or writing outside a buffer is \<^term>\<open>None\<close>.
\<close>

definition byte_of16 :: "nat \<Rightarrow> u16 \<Rightarrow> u8" where
  "byte_of16 i x = ucast (drop_bit (8 * i) x AND 0xff)"

definition byte_of32 :: "nat \<Rightarrow> u32 \<Rightarrow> u8" where
  "byte_of32 i x = ucast (drop_bit (8 * i) x AND 0xff)"

definition join16 :: "u8 \<Rightarrow> u8 \<Rightarrow> u16" where
  "join16 b1 b0 = push_bit 8 (ucast b1) OR ucast b0"

definition join24 :: "u8 \<Rightarrow> u8 \<Rightarrow> u8 \<Rightarrow> u32" where
  "join24 b2 b1 b0 = push_bit 16 (ucast b2) OR push_bit 8 (ucast b1) OR ucast b0"

definition join32 :: "u8 \<Rightarrow> u8 \<Rightarrow> u8 \<Rightarrow> u8 \<Rightarrow> u32" where
  "join32 b3 b2 b1 b0 =
     push_bit 24 (ucast b3) OR push_bit 16 (ucast b2) OR push_bit 8 (ucast b1) OR ucast b0"

lemma mask_8: "(0xff :: 'a :: len word) = mask 8"
  by (simp add: mask_eq_exp_minus_1)

lemma bit_byte_of16: "bit (byte_of16 i x) n \<longleftrightarrow> n < 8 \<and> bit x (8 * i + n)"
  unfolding byte_of16_def mask_8 by (auto simp: bit_simps dest: bit_imp_le_length)

lemma bit_byte_of32: "bit (byte_of32 i x) n \<longleftrightarrow> n < 8 \<and> bit x (8 * i + n)"
  unfolding byte_of32_def mask_8 by (auto simp: bit_simps dest: bit_imp_le_length)

lemma join16_bytes [simp]: "join16 (byte_of16 1 x) (byte_of16 0 x) = x"
proof (rule bit_word_eqI)
  fix n assume "n < LENGTH(16)"
  then show "bit (join16 (byte_of16 1 x) (byte_of16 0 x)) n = bit x n"
    unfolding join16_def by (cases "n < 8") (auto simp: bit_simps bit_byte_of16)
qed

lemma join32_bytes [simp]:
  "join32 (byte_of32 3 x) (byte_of32 2 x) (byte_of32 1 x) (byte_of32 0 x) = x"
proof (rule bit_word_eqI)
  fix n assume "n < LENGTH(32)"
  then show "bit (join32 (byte_of32 3 x) (byte_of32 2 x) (byte_of32 1 x) (byte_of32 0 x)) n = bit x n"
    unfolding join32_def
    by (cases "n < 8"; cases "n < 16"; cases "n < 24") (auto simp: bit_simps bit_byte_of32)
qed

lemma join24_bytes:
  assumes "x \<le> 0xffffff"
  shows "join24 (byte_of32 2 x) (byte_of32 1 x) (byte_of32 0 x) = x"
proof (rule bit_word_eqI)
  fix n assume n: "n < LENGTH(32)"
  have "x = take_bit 24 x"
    using assms by (simp add: word_le_nat_alt unsigned_take_bit_eq take_bit_nat_eq_self
      word_unat_eq_iff)
  then have "24 \<le> n \<Longrightarrow> \<not> bit x n" by (metis bit_take_bit_iff not_le)
  with n show "bit (join24 (byte_of32 2 x) (byte_of32 1 x) (byte_of32 0 x)) n = bit x n"
    unfolding join24_def
    by (cases "n < 8"; cases "n < 16"; cases "n < 24") (auto simp: bit_simps bit_byte_of32)
qed

subsection \<open>Buffers\<close>

definition buf_get :: "'a list \<Rightarrow> nat \<Rightarrow> 'a option" where
  "buf_get buf i = (if i < length buf then Some (buf ! i) else None)"

definition buf_put :: "'a list \<Rightarrow> nat \<Rightarrow> 'a list \<Rightarrow> 'a list option" where
  "buf_put buf i bs =
     (if i + length bs \<le> length buf then Some (take i buf @ bs @ drop (i + length bs) buf)
      else None)"

lemma buf_put_put:
  "buf_put buf i bs \<bind> (\<lambda>buf'. buf_put buf' (i + length bs) cs) = buf_put buf i (bs @ cs)"
proof (cases "i + length bs + length cs \<le> length buf")
  case True
  then have "min (length buf) i = i" by simp
  with True show ?thesis by (simp add: buf_put_def ac_simps)
qed (auto simp: buf_put_def)

lemma buf_put_length: "buf_put buf i bs = Some buf' \<Longrightarrow> length buf' = length buf"
  by (auto simp: buf_put_def split: if_splits)

text \<open>Fields written one behind the other, as \<open>header[offs++] = ...\<close> and \<open>memcpy(&header[offs], ...)\<close>
  do.\<close>

fun put_fields :: "'a list \<Rightarrow> nat \<Rightarrow> 'a list list \<Rightarrow> (nat \<times> 'a list) option" where
  "put_fields buf offs [] = Some (offs, buf)"
| "put_fields buf offs (f # fs) =
     do { buf' \<leftarrow> buf_put buf offs f; put_fields buf' (offs + length f) fs }"

lemma put_fields_eq:
  "offs \<le> length buf \<Longrightarrow> put_fields buf offs fs =
    map_option (Pair (offs + length (concat fs))) (buf_put buf offs (concat fs))"
proof (induction fs arbitrary: buf offs)
  case Nil
  then show ?case by (simp add: buf_put_def)
next
  case (Cons f fs)
  show ?case
  proof (cases "buf_put buf offs f")
    case None
    then show ?thesis by (simp flip: buf_put_put)
  next
    case (Some buf')
    then have "offs + length f \<le> length buf'"
      using buf_put_length [OF Some] by (auto simp: buf_put_def split: if_splits)
    with Some Cons.IH show ?thesis by (simp add: add.assoc flip: buf_put_put)
  qed
qed

end
