(* ===== verification/Rmap.thy ===== *)
theory Rmap
  imports Bytes
begin

text \<open>
  The RMAP packet library, \<open>spacewire/librmap/rmap.c\<close>: building the header of a write, read or
  read-modify-write command and parsing a reply. A command is written into the caller's buffer
  field by field; \<^term>\<open>None\<close> is a write past its end. The format of a command as a target sees
  it, and the encoding of a reply, are reference definitions after which the code is checked.
\<close>

definition RMAP_MIN_HEADER_SIZE :: nat where "RMAP_MIN_HEADER_SIZE = 15"
definition RMAP_MIN_READ_REPLY_SIZE :: nat where "RMAP_MIN_READ_REPLY_SIZE = 12"
definition RMAP_MIN_REPLY_SIZE :: nat where "RMAP_MIN_REPLY_SIZE = 8"
definition RMAP_PROTOCOL_ID :: u8 where "RMAP_PROTOCOL_ID = 0x01"
definition RMAP_MAX_DATA_LEN :: u32 where "RMAP_MAX_DATA_LEN = 0x00ffffff"
definition INSTR_PACKET_TYPE_MASK :: u8 where "INSTR_PACKET_TYPE_MASK = 0xc0"
definition INSTR_PACKET_TYPE_CMD :: u8 where "INSTR_PACKET_TYPE_CMD = 0x40"
definition INSTR_PACKET_TYPE_REPLY :: u8 where "INSTR_PACKET_TYPE_REPLY = 0x00"
definition INSTR_CMD_WRITE :: u8 where "INSTR_CMD_WRITE = 0x20"
definition INSTR_CMD_VERIFY :: u8 where "INSTR_CMD_VERIFY = 0x10"
definition INSTR_CMD_REPLY_REQ :: u8 where "INSTR_CMD_REPLY_REQ = 0x08"
definition INSTR_CMD_INC_ADDR :: u8 where "INSTR_CMD_INC_ADDR = 0x04"

lemmas rmap_consts = RMAP_MIN_HEADER_SIZE_def RMAP_MIN_READ_REPLY_SIZE_def RMAP_MIN_REPLY_SIZE_def
  RMAP_PROTOCOL_ID_def RMAP_MAX_DATA_LEN_def INSTR_PACKET_TYPE_MASK_def INSTR_PACKET_TYPE_CMD_def
  INSTR_PACKET_TYPE_REPLY_def INSTR_CMD_WRITE_def INSTR_CMD_VERIFY_def INSTR_CMD_REPLY_REQ_def
  INSTR_CMD_INC_ADDR_def

text \<open>The paths are the arrays with their length fields.\<close>

record rmap_params =
  targetLogicalAddr :: u8
  initiatorLogicalAddr :: u8
  key :: u8
  transactionId :: u16
  extendedAddr :: u8
  memoryAddr :: u32
  targetPath :: "u8 list"
  replyPath :: "u8 list"
  verifyData :: bool
  requireAck :: bool
  incrementAddr :: bool

datatype rmap_op = rmap_write | rmap_read | rmap_rmw

subsection \<open>Commands\<close>

definition cmd_instruction :: "rmap_params \<Rightarrow> rmap_op \<Rightarrow> u8" where
  "cmd_instruction params opType =
     INSTR_PACKET_TYPE_CMD OR
     (if opType = rmap_write then INSTR_CMD_WRITE else 0) OR
     (if opType = rmap_rmw \<or> verifyData params then INSTR_CMD_VERIFY else 0) OR
     (if requireAck params then INSTR_CMD_REPLY_REQ else 0) OR
     (if incrementAddr params then INSTR_CMD_INC_ADDR else 0) OR
     of_nat ((length (replyPath params) + 3) div 4)"

definition zero_pad :: "rmap_params \<Rightarrow> nat" where
  "zero_pad params = (4 - length (replyPath params) mod 4) mod 4"

text \<open>\<open>header\<close> is the caller's buffer, \<open>headerLen\<close> its length. The result is the error, or the
  length of the header with the buffer.\<close>

definition buildCmd ::
    "rmap_params \<Rightarrow> u8 list \<Rightarrow> u32 \<Rightarrow> rmap_op \<Rightarrow> (errno + nat \<times> u8 list) option" where
  "buildCmd params header dataLen opType =
     (if length (replyPath params) > 12 \<or> dataLen > RMAP_MAX_DATA_LEN then Some (Inl EINVAL)
      else if length header < RMAP_MIN_HEADER_SIZE + zero_pad params + length (replyPath params)
      then Some (Inl ENOMEM)
      else map_option Inr (put_fields header 0
        [targetPath params,
         [targetLogicalAddr params, RMAP_PROTOCOL_ID, cmd_instruction params opType, key params],
         replicate (zero_pad params) 0, replyPath params,
         [initiatorLogicalAddr params, byte_of16 1 (transactionId params),
          byte_of16 0 (transactionId params), extendedAddr params],
         [byte_of32 3 (memoryAddr params), byte_of32 2 (memoryAddr params),
          byte_of32 1 (memoryAddr params), byte_of32 0 (memoryAddr params)],
         [byte_of32 2 dataLen, byte_of32 1 dataLen, byte_of32 0 dataLen]]))"

definition rmap_buildWriteCmd ::
    "rmap_params \<Rightarrow> u8 list \<Rightarrow> u32 \<Rightarrow> (errno + nat \<times> u8 list) option" where
  "rmap_buildWriteCmd params header dataLen = buildCmd params header dataLen rmap_write"

definition rmap_buildReadCmd ::
    "rmap_params \<Rightarrow> u8 list \<Rightarrow> u32 \<Rightarrow> (errno + nat \<times> u8 list) option" where
  "rmap_buildReadCmd params header readLen =
     (if \<not> requireAck params \<or> verifyData params then Some (Inl EINVAL)
      else buildCmd params header readLen rmap_read)"

definition rmap_buildReadModifyWriteCmd ::
    "rmap_params \<Rightarrow> u8 list \<Rightarrow> u32 \<Rightarrow> (errno + nat \<times> u8 list) option" where
  "rmap_buildReadModifyWriteCmd params header dataLen =
     (if dataLen \<noteq> 0 \<and> dataLen \<noteq> 2 \<and> dataLen \<noteq> 4 \<and> dataLen \<noteq> 6 \<and> dataLen \<noteq> 8 then Some (Inl EINVAL)
      else if \<not> requireAck params \<or> \<not> incrementAddr params then Some (Inl EINVAL)
      else buildCmd params header dataLen rmap_rmw)"

subsection \<open>Replies\<close>

text \<open>\<open>data\<close> points into the packet: its offset, \<^term>\<open>None\<close> for NULL.\<close>

record rmap_reply =
  r_initiatorLogicalAddr :: u8
  r_targetLogicalAddr :: u8
  r_status :: u8
  r_transactionId :: u16
  r_isReadReply :: bool
  r_dataLen :: u32
  r_data :: "nat option"

definition rmap_parseReply :: "u8 list \<Rightarrow> rmap_reply \<Rightarrow> ((errno + nat) \<times> rmap_reply) option" where
  "rmap_parseReply packet reply =
     (if length packet < RMAP_MIN_REPLY_SIZE then Some (Inl EINVAL, reply)
      else do {
        b0 \<leftarrow> buf_get packet 0;
        let reply = reply\<lparr>r_initiatorLogicalAddr := b0\<rparr>;
        b1 \<leftarrow> buf_get packet 1;
        if b1 \<noteq> RMAP_PROTOCOL_ID then Some (Inl EPROTO, reply)
        else do {
          instruction \<leftarrow> buf_get packet 2;
          if instruction AND INSTR_PACKET_TYPE_MASK \<noteq> INSTR_PACKET_TYPE_REPLY
          then Some (Inl EPROTO, reply)
          else do {
            let reply = reply\<lparr>r_isReadReply := (instruction AND INSTR_CMD_WRITE = 0)\<rparr>;
            b3 \<leftarrow> buf_get packet 3;
            let reply = reply\<lparr>r_status := b3\<rparr>;
            b4 \<leftarrow> buf_get packet 4;
            let reply = reply\<lparr>r_targetLogicalAddr := b4\<rparr>;
            b5 \<leftarrow> buf_get packet 5;
            b6 \<leftarrow> buf_get packet 6;
            let reply = reply\<lparr>r_transactionId := join16 b5 b6\<rparr>;
            if r_isReadReply reply then
              (if length packet < RMAP_MIN_READ_REPLY_SIZE then Some (Inl EINVAL, reply)
               else do {
                 b8 \<leftarrow> buf_get packet 8;
                 b9 \<leftarrow> buf_get packet 9;
                 b10 \<leftarrow> buf_get packet 10;
                 Some (Inr 12, reply\<lparr>r_dataLen := join24 b8 b9 b10, r_data := Some 12\<rparr>)
               })
            else Some (Inr 8, reply\<lparr>r_dataLen := 0, r_data := None\<rparr>)
          }
        }
      })"

subsection \<open>The command as the target reads it\<close>

text \<open>A target's decoder, written after the command format of the standard: logical address,
  protocol, instruction, key, reply address (as many words as the instruction says), initiator,
  transaction, address and length.\<close>

record rmap_cmd =
  c_target :: u8
  c_protocol :: u8
  c_instruction :: u8
  c_key :: u8
  c_reply :: "u8 list"
  c_initiator :: u8
  c_transaction :: u16
  c_extended :: u8
  c_address :: u32
  c_length :: u32

fun decode_tail :: "u8 list \<Rightarrow> (u8 \<times> u16 \<times> u8 \<times> u32 \<times> u32) option" where
  "decode_tail [i, t1, t0, e, a3, a2, a1, a0, l2, l1, l0] =
     Some (i, join16 t1 t0, e, join32 a3 a2 a1 a0, join24 l2 l1 l0)"
| "decode_tail _ = None"

fun decode_cmd :: "u8 list \<Rightarrow> rmap_cmd option" where
  "decode_cmd (t # p # ins # k # rest) =
     (let n = 4 * unat (ins AND 3)
      in case decode_tail (drop n rest) of
           Some (i, tr, e, a, l) \<Rightarrow>
             Some \<lparr>c_target = t, c_protocol = p, c_instruction = ins, c_key = k,
                   c_reply = take n rest, c_initiator = i, c_transaction = tr,
                   c_extended = e, c_address = a, c_length = l\<rparr>
         | None \<Rightarrow> None)"
| "decode_cmd _ = None"

definition cmd_of :: "rmap_params \<Rightarrow> u32 \<Rightarrow> rmap_op \<Rightarrow> rmap_cmd" where
  "cmd_of params dataLen opType =
     \<lparr>c_target = targetLogicalAddr params, c_protocol = 1,
      c_instruction = cmd_instruction params opType, c_key = key params,
      c_reply = replicate (zero_pad params) 0 @ replyPath params,
      c_initiator = initiatorLogicalAddr params, c_transaction = transactionId params,
      c_extended = extendedAddr params, c_address = memoryAddr params, c_length = dataLen\<rparr>"

text \<open>The bytes of a command behind the target path.\<close>

definition cmd_bytes :: "rmap_params \<Rightarrow> u32 \<Rightarrow> rmap_op \<Rightarrow> u8 list" where
  "cmd_bytes params dataLen opType =
     [targetLogicalAddr params, RMAP_PROTOCOL_ID, cmd_instruction params opType, key params] @
     (replicate (zero_pad params) 0 @ replyPath params) @
     [initiatorLogicalAddr params, byte_of16 1 (transactionId params),
      byte_of16 0 (transactionId params), extendedAddr params,
      byte_of32 3 (memoryAddr params), byte_of32 2 (memoryAddr params),
      byte_of32 1 (memoryAddr params), byte_of32 0 (memoryAddr params),
      byte_of32 2 dataLen, byte_of32 1 dataLen, byte_of32 0 dataLen]"

definition cmd_size :: "rmap_params \<Rightarrow> nat" where
  "cmd_size params =
     length (targetPath params) + RMAP_MIN_HEADER_SIZE + zero_pad params + length (replyPath params)"

lemma length_cmd_bytes:
  "length (targetPath params) + length (cmd_bytes params dataLen opType) = cmd_size params"
  by (simp add: cmd_bytes_def cmd_size_def rmap_consts)

definition cmd_guards :: "rmap_params \<Rightarrow> u8 list \<Rightarrow> u32 \<Rightarrow> bool" where
  "cmd_guards params header dataLen \<longleftrightarrow>
     length (replyPath params) \<le> 12 \<and> dataLen \<le> RMAP_MAX_DATA_LEN \<and>
     RMAP_MIN_HEADER_SIZE + zero_pad params + length (replyPath params) \<le> length header"

lemma buildCmd_put:
  assumes "cmd_guards params header dataLen"
  shows "buildCmd params header dataLen opType =
    map_option (\<lambda>h. Inr (cmd_size params, h))
      (buf_put header 0 (targetPath params @ cmd_bytes params dataLen opType))"
proof -
  have "\<not> (length (replyPath params) > 12 \<or> dataLen > RMAP_MAX_DATA_LEN)"
    "\<not> length header < RMAP_MIN_HEADER_SIZE + zero_pad params + length (replyPath params)"
    using assms by (auto simp: cmd_guards_def)
  then show ?thesis
    by (simp add: buildCmd_def put_fields_eq option.map_comp comp_def cmd_bytes_def cmd_size_def
      RMAP_MIN_HEADER_SIZE_def ac_simps numeral_eq_Suc del: put_fields.simps)
qed

text \<open>The instruction byte: its low two bits are the number of words of the reply address.\<close>

lemma pad_words:
  assumes "n \<le> 12"
  shows "(4 - n mod 4) mod 4 + n = 4 * ((n + 3) div 4)" and "(n + 3) div 4 \<le> (3::nat)"
proof -
  from assms have "n \<in> {0, 1, 2, 3, 4, 5, 6, 7, 8, 9, 10, 11, 12}" by (simp, presburger)
  then show "(4 - n mod 4) mod 4 + n = 4 * ((n + 3) div 4)" "(n + 3) div 4 \<le> (3::nat)"
    by (elim insertE emptyE; simp)+
qed

lemma instruction_words:
  assumes "length (replyPath params) \<le> 12"
  shows "4 * unat (cmd_instruction params opType AND 3) = zero_pad params + length (replyPath params)"
proof -
  let ?k = "(length (replyPath params) + 3) div 4"
  have k: "?k \<in> {0, 1, 2, 3}" using pad_words(2) [OF assms] by auto
  then have m: "of_nat ?k AND 3 = (of_nat ?k :: u8)" by (elim insertE emptyE) simp_all
  have "cmd_instruction params opType AND 3 = of_nat ?k"
    unfolding cmd_instruction_def rmap_consts
    using m by (simp add: bit.conj_disj_distrib2)
  moreover have "unat (of_nat ?k :: u8) = ?k" using k by (elim insertE emptyE) simp_all
  ultimately show ?thesis using pad_words(1) [OF assms] by (simp add: zero_pad_def)
qed

lemma decode_cmd_bytes:
  assumes "length (replyPath params) \<le> 12" and "dataLen \<le> RMAP_MAX_DATA_LEN"
  shows "decode_cmd (cmd_bytes params dataLen opType) = Some (cmd_of params dataLen opType)"
proof -
  let ?r = "replicate (zero_pad params) 0 @ replyPath params"
  have n: "4 * unat (cmd_instruction params opType AND 3) = length ?r"
    by (simp add: instruction_words [OF assms(1)])
  have "join24 (byte_of32 2 dataLen) (byte_of32 1 dataLen) (byte_of32 0 dataLen) = dataLen"
    using assms(2) by (intro join24_bytes) (simp add: rmap_consts)
  then show ?thesis
    using join16_bytes [of "transactionId params"] join32_bytes [of "memoryAddr params"]
    by (simp add: cmd_bytes_def n cmd_of_def rmap_consts del: join16_bytes join32_bytes)
qed

subsection \<open>Building commands\<close>

definition sample_params :: rmap_params where
  "sample_params =
     \<lparr>targetLogicalAddr = 0xfe, initiatorLogicalAddr = 0x67, key = 0x20, transactionId = 0x1234,
      extendedAddr = 0, memoryAddr = 0x40001000, targetPath = [2, 3], replyPath = [5, 6, 7],
      verifyData = False, requireAck = True, incrementAddr = True\<rparr>"



text \<open>C18. The check of the buffer's length forgets the target path: a command whose parameters pass
  every guard is written past the end of the caller's buffer exactly when the buffer is too
  short for the path and the header together.\<close>

theorem rmap_header_overflow:
  assumes "cmd_guards params header dataLen"
  shows "buildCmd params header dataLen opType = None \<longleftrightarrow> length header < cmd_size params"
  using buildCmd_put [OF assms, of opType] length_cmd_bytes [of params dataLen opType]
  by (auto simp: buf_put_def)

theorem rmap_header_overflow_witness:
  "buildCmd sample_params (replicate 20 0) 64 rmap_write = None"
proof -
  have "cmd_guards sample_params (replicate 20 0) 64" "length (replicate 20 (0 :: u8)) < cmd_size sample_params"
    by code_simp+
  with rmap_header_overflow [of sample_params "replicate 20 0" 64 rmap_write] show ?thesis by simp
qed

subsection \<open>Parsing replies\<close>

text \<open>The reply as a target sends it, before its payload.\<close>

definition reply_bytes :: "rmap_reply \<Rightarrow> u8 \<Rightarrow> u8 \<Rightarrow> u8 list" where
  "reply_bytes r ins crc =
     [r_initiatorLogicalAddr r, RMAP_PROTOCOL_ID, ins, r_status r, r_targetLogicalAddr r,
      byte_of16 1 (r_transactionId r), byte_of16 0 (r_transactionId r)] @
     (if r_isReadReply r
      then [0, byte_of32 2 (r_dataLen r), byte_of32 1 (r_dataLen r), byte_of32 0 (r_dataLen r), crc]
      else [crc])"



end
