(* ===== verification/Rtt.thy ===== *)
theory Rtt
  imports Byte_Queue "HOL-Library.Monad_Syntax"
begin

text \<open>
  The debug-channel library, \<open>librtt/librtt.c\<close>: rings in memory shared with a debugger, their
  descriptor, and the checks of a descriptor that something else has prepared. Memory is
  explicit, a function from 32-bit addresses to bytes; the descriptor is an object of its own,
  disjoint from the rings, and an access to a channel behind its end is \<^term>\<open>None\<close>. Barriers
  order the accesses of one core and are not modelled; cache maintenance is logged.
\<close>

subsection \<open>State\<close>

record rtt_pipe =
  p_name :: "string option"
  p_ptr :: u32
  p_sz :: u32
  p_wr :: u32
  p_rd :: u32
  p_flags :: u32

record rtt_desc =
  d_tag :: string
  txChannels :: u32
  rxChannels :: u32
  channel :: "rtt_pipe list"

datatype cache_event = Inval u32 u32 | Clean u32 u32

record librtt =
  rtt :: "rtt_desc option"
  invalFn :: bool
  cleanFn :: bool
  lastRd :: "u32 list"
  mem :: "u32 \<Rightarrow> u8"
  ops :: "cache_event list"

definition LIBRTT_DESC_SIZE :: u32 where "LIBRTT_DESC_SIZE = 256"
definition LIBRTT_TXCHANNELS :: u32 where "LIBRTT_TXCHANNELS = 2"
definition LIBRTT_RXCHANNELS :: u32 where "LIBRTT_RXCHANNELS = 2"
definition librtt_tagReversed :: string where "librtt_tagReversed = ''EPIP TTR''"
definition librtt_txName :: "string list" where "librtt_txName = [''rtt1_tx'', ''rtt2_tx'']"
definition librtt_rxName :: "string list" where "librtt_rxName = [''rtt1_rx'', ''rtt2_rx'']"

text \<open>The sizes of the two structures on a 32-bit target.\<close>

definition sizeof_desc :: u32 where "sizeof_desc = 24"
definition sizeof_pipe :: u32 where "sizeof_pipe = 24"

definition get_channel :: "librtt \<Rightarrow> u32 \<Rightarrow> rtt_pipe option" where
  "get_channel st ch =
     do { d \<leftarrow> rtt st;
          if unat ch < length (channel d) then Some (channel d ! unat ch) else None }"

definition set_channel :: "librtt \<Rightarrow> u32 \<Rightarrow> rtt_pipe \<Rightarrow> librtt" where
  "set_channel st ch p =
     st\<lparr>rtt := map_option (\<lambda>d. d\<lparr>channel := (channel d)[unat ch := p]\<rparr>) (rtt st)\<rparr>"

subsection \<open>Channels\<close>

definition performCacheOp :: "bool \<Rightarrow> (u32 \<Rightarrow> u32 \<Rightarrow> cache_event) \<Rightarrow> u32 \<Rightarrow> u32 \<Rightarrow> u32 \<Rightarrow> u32 \<Rightarrow>
    cache_event list" where
  "performCacheOp there oper buf sz rd wr =
     (if rd = wr \<or> \<not> there then []
      else if wr < rd then [oper (buf + rd) (sz - rd), oper buf (wr + 1)]
      else [oper (buf + rd) (wr - rd + 1)])"

definition librtt_checkTx :: "librtt \<Rightarrow> u32 \<Rightarrow> bool" where
  "librtt_checkTx st ch =
     (case rtt st of None \<Rightarrow> False
      | Some d \<Rightarrow> \<not> (ch \<ge> txChannels d \<or> ch \<ge> LIBRTT_TXCHANNELS))"

definition librtt_checkRx :: "librtt \<Rightarrow> u32 \<Rightarrow> bool" where
  "librtt_checkRx st ch =
     (case rtt st of None \<Rightarrow> False
      | Some d \<Rightarrow> \<not> (ch \<ge> rxChannels d \<or> ch \<ge> LIBRTT_RXCHANNELS))"

definition rx_index :: "librtt \<Rightarrow> u32 \<Rightarrow> u32" where
  "rx_index st ch = (case rtt st of None \<Rightarrow> ch | Some d \<Rightarrow> ch + txChannels d)"

fun read_loop :: "(u32 \<Rightarrow> u8) \<Rightarrow> u32 \<Rightarrow> u32 \<Rightarrow> u32 \<Rightarrow> u32 \<Rightarrow> nat \<Rightarrow> u8 list \<times> u32" where
  "read_loop m src sz rd wr 0 = ([], rd)"
| "read_loop m src sz rd wr (Suc todo) =
     (if rd \<noteq> wr
      then let (bs, rd') = read_loop m src sz ((rd + 1) AND sz) wr todo in (m (src + rd) # bs, rd')
      else ([], rd))"

text \<open>The bytes delivered are the result; their number is what the C function returns.\<close>

definition librtt_read :: "librtt \<Rightarrow> u32 \<Rightarrow> nat \<Rightarrow> ((errno + u8 list) \<times> librtt) option" where
  "librtt_read st ch count =
     (if \<not> librtt_checkRx st ch then Some (Inl ENODEV, st)
      else do {
        let ch = rx_index st ch;
        p \<leftarrow> get_channel st ch;
        let sz = p_sz p - 1; let rd = p_rd p AND sz; let wr = p_wr p AND sz;
        let evs = performCacheOp (invalFn st) Inval (p_ptr p) (sz + 1) rd wr;
        let (bs, rd') = read_loop (mem st) (p_ptr p) sz rd wr count;
        Some (Inr bs, (set_channel st ch (p\<lparr>p_rd := rd'\<rparr>))\<lparr>ops := ops st @ evs\<rparr>)
      })"

fun write_until_full :: "(u32 \<Rightarrow> u8) \<Rightarrow> u32 \<Rightarrow> u32 \<Rightarrow> u32 \<Rightarrow> u32 \<Rightarrow> u8 list \<Rightarrow>
    (u32 \<Rightarrow> u8) \<times> u32 \<times> u8 list" where
  "write_until_full m dst sz rd wr [] = (m, wr, [])"
| "write_until_full m dst sz rd wr (b # bs) =
     (if rd \<noteq> wr then write_until_full (m(dst + wr := b)) dst sz rd ((wr + 1) AND sz) bs
      else (m, wr, b # bs))"

fun write_over :: "(u32 \<Rightarrow> u8) \<Rightarrow> u32 \<Rightarrow> u32 \<Rightarrow> u32 \<Rightarrow> u8 list \<Rightarrow> (u32 \<Rightarrow> u8) \<times> u32" where
  "write_over m dst sz wr [] = (m, wr)"
| "write_over m dst sz wr (b # bs) = write_over (m(dst + wr := b)) dst sz ((wr + 1) AND sz) bs"

definition librtt_write ::
    "librtt \<Rightarrow> u32 \<Rightarrow> u8 list \<Rightarrow> bool \<Rightarrow> ((errno + nat) \<times> librtt) option" where
  "librtt_write st ch buf allowOverwrite =
     (if \<not> librtt_checkTx st ch then Some (Inl ENODEV, st)
      else do {
        p \<leftarrow> get_channel st ch;
        let sz = p_sz p - 1; let rd = (p_rd p + sz) AND sz; let wr = p_wr p AND sz;
        let (m1, wr1, rest1) = write_until_full (mem st) (p_ptr p) sz rd wr buf;
        let (m2, wr2, rest2, p2) =
              (if rd = wr1 \<and> allowOverwrite
               then let (m2, wr2) = write_over m1 (p_ptr p) sz wr1 rest1
                    in (m2, wr2, [], p\<lparr>p_rd := wr2\<rparr>)
               else (m1, wr1, rest1, p));
        let evs = performCacheOp (cleanFn st) Clean (p_ptr p) (sz + 1) rd wr2;
        Some (Inr (length buf - length rest2),
          (set_channel st ch (p2\<lparr>p_wr := wr2\<rparr>))\<lparr>mem := m2, ops := ops st @ evs\<rparr>)
      })"

definition librtt_rxAvail :: "librtt \<Rightarrow> u32 \<Rightarrow> u32 option" where
  "librtt_rxAvail st ch =
     (if \<not> librtt_checkRx st ch then Some 0
      else do {
        p \<leftarrow> get_channel st (rx_index st ch);
        let sz = p_sz p - 1; let rd = p_rd p AND sz; let wr = p_wr p AND sz;
        Some (if rd > wr then sz + 1 - (rd - wr) else wr - rd)
      })"

definition librtt_txAvail :: "librtt \<Rightarrow> u32 \<Rightarrow> u32 option" where
  "librtt_txAvail st ch =
     (if \<not> librtt_checkTx st ch then Some 0
      else do {
        p \<leftarrow> get_channel st ch;
        let sz = p_sz p - 1; let rd = (p_rd p + sz) AND sz; let wr = p_wr p AND sz;
        Some (if wr > rd then sz + 1 - (wr - rd) else rd - wr)
      })"

definition librtt_rxReset :: "librtt \<Rightarrow> u32 \<Rightarrow> librtt option" where
  "librtt_rxReset st ch =
     (if \<not> librtt_checkRx st ch then Some st
      else do {
        let ch = rx_index st ch;
        p \<leftarrow> get_channel st ch;
        Some (set_channel st ch (p\<lparr>p_rd := p_wr p\<rparr>))
      })"

definition librtt_txReset :: "librtt \<Rightarrow> u32 \<Rightarrow> librtt option" where
  "librtt_txReset st ch =
     (if \<not> librtt_checkTx st ch then Some st
      else do {
        p \<leftarrow> get_channel st ch;
        Some (set_channel st ch (p\<lparr>p_wr := p_rd p\<rparr>))
      })"

definition librtt_txCheckReaderAttached :: "librtt \<Rightarrow> u32 \<Rightarrow> (bool \<times> librtt) option" where
  "librtt_txCheckReaderAttached st ch =
     (if \<not> librtt_checkTx st ch then Some (False, st)
      else do {
        p \<leftarrow> get_channel st ch;
        if lastRd st ! unat ch \<noteq> p_rd p
        then Some (True, st\<lparr>lastRd := (lastRd st)[unat ch := p_rd p]\<rparr>)
        else Some (False, st)
      })"

subsection \<open>Descriptors\<close>

definition librtt_verifyChannel :: "rtt_pipe \<Rightarrow> u32 \<Rightarrow> u32 \<Rightarrow> bool" where
  "librtt_verifyChannel p buffers buffersSize =
     (let bufEnd = buffers + buffersSize; sz = p_sz p
      in \<not> (sz = 0 \<or> sz AND (sz - 1) \<noteq> 0) \<and>
         \<not> (p_ptr p < buffers \<or> p_ptr p \<ge> bufEnd) \<and>
         \<not> (p_ptr p + p_sz p \<le> buffers \<or> p_ptr p + p_sz p > bufEnd))"

text \<open>The loop over the channels, from \<open>n\<close> on; \<open>todo\<close> of them are left.\<close>

fun verify_loop :: "rtt_desc \<Rightarrow> u32 \<Rightarrow> u32 \<Rightarrow> nat \<Rightarrow> nat \<Rightarrow> u32 list \<Rightarrow> (bool \<times> u32 list) option" where
  "verify_loop d buffers buffersSize n 0 lrd = Some (True, lrd)"
| "verify_loop d buffers buffersSize n (Suc todo) lrd =
     (if n < length (channel d) then
        let p = channel d ! n
        in if \<not> librtt_verifyChannel p buffers buffersSize then Some (False, lrd)
           else verify_loop d buffers buffersSize (n + 1) todo
             (if n < unat LIBRTT_TXCHANNELS then lrd[n := p_rd p] else lrd)
      else None)"

text \<open>\<open>d\<close> is the object at \<open>addr\<close>; its channels are those inside the control block.\<close>

definition librtt_verify ::
    "librtt \<Rightarrow> rtt_desc \<Rightarrow> u32 \<Rightarrow> u32 \<Rightarrow> u32 \<Rightarrow> bool \<Rightarrow> bool \<Rightarrow> (errno option \<times> librtt) option" where
  "librtt_verify st d cbSize buffers buffersSize inval clean =
     (if cbSize < sizeof_desc then Some (Some EINVAL, st)
      else if take (length librtt_tagReversed) (d_tag d) \<noteq> rev librtt_tagReversed
      then Some (Some EINVAL, st)
      else
        let realCbSize = sizeof_desc + (txChannels d + rxChannels d) * sizeof_pipe
        in if cbSize < realCbSize then Some (Some EINVAL, st)
           else
             let totalChannels = sint (txChannels d + rxChannels d)
             in map_option (\<lambda>(good, last).
                  if good
                  then (None, st\<lparr>lastRd := last, invalFn := inval, cleanFn := clean, rtt := Some d\<rparr>)
                  else (Some EINVAL, st\<lparr>lastRd := last\<rparr>))
                (verify_loop d buffers buffersSize 0 (nat totalChannels) (lastRd st)))"

definition zero_pipe :: rtt_pipe where
  "zero_pipe = \<lparr>p_name = None, p_ptr = 0, p_sz = 0, p_wr = 0, p_rd = 0, p_flags = 0\<rparr>"

definition librtt_init :: "librtt \<Rightarrow> bool \<Rightarrow> bool \<Rightarrow> errno option \<times> librtt" where
  "librtt_init st inval clean =
     (let cbSize = sizeof_desc + (LIBRTT_TXCHANNELS + LIBRTT_RXCHANNELS) * sizeof_pipe
      in if LIBRTT_DESC_SIZE < cbSize \<or> rtt st \<noteq> None then (Some EINVAL, st)
         else (None, st\<lparr>invalFn := inval, cleanFn := clean,
           rtt := Some \<lparr>d_tag = rev librtt_tagReversed @ replicate (16 - length librtt_tagReversed) (CHR 0x00),
             txChannels = LIBRTT_TXCHANNELS, rxChannels = LIBRTT_RXCHANNELS,
             channel = replicate (unat (LIBRTT_TXCHANNELS + LIBRTT_RXCHANNELS)) zero_pipe\<rparr>\<rparr>))"

definition librtt_initChannel :: "librtt \<Rightarrow> bool \<Rightarrow> u32 \<Rightarrow> u32 \<Rightarrow> u32 \<Rightarrow> (errno option \<times> librtt) option" where
  "librtt_initChannel st isTx ch buf sz =
     (case rtt st of
        None \<Rightarrow> Some (Some EINVAL, st)
      | Some d \<Rightarrow>
          if sz = 0 \<or> sz AND (sz - 1) \<noteq> 0 then Some (Some EINVAL, st)
          else if isTx then
            (if ch \<ge> LIBRTT_TXCHANNELS \<or> ch \<ge> txChannels d then Some (Some EINVAL, st)
             else do {
               p \<leftarrow> get_channel st ch;
               Some (None, (set_channel st ch (p\<lparr>p_name := Some (librtt_txName ! unat ch),
                 p_ptr := buf, p_sz := sz, p_rd := 0, p_wr := 0\<rparr>))\<lparr>lastRd := (lastRd st)[unat ch := 0]\<rparr>)
             })
          else
            (if ch \<ge> LIBRTT_RXCHANNELS \<or> ch \<ge> rxChannels d then Some (Some EINVAL, st)
             else do {
               p \<leftarrow> get_channel st (ch + txChannels d);
               Some (None, set_channel st (ch + txChannels d) (p\<lparr>p_name := Some (librtt_rxName ! unat ch),
                 p_ptr := buf, p_sz := sz, p_rd := 0, p_wr := 0\<rparr>))
             }))"

definition librtt_done :: "librtt \<Rightarrow> librtt" where
  "librtt_done st = st\<lparr>rtt := None\<rparr>"

subsection \<open>A concrete descriptor\<close>

text \<open>One channel each way, with rings of four bytes at 0x2000 and 0x2004; the receive channel holds
  three bytes across the end of its ring.\<close>

definition sample_pipe :: "u32 \<Rightarrow> u32 \<Rightarrow> u32 \<Rightarrow> rtt_pipe" where
  "sample_pipe ptr wr rd =
     \<lparr>p_name = None, p_ptr = ptr, p_sz = 4, p_wr = wr, p_rd = rd, p_flags = 0\<rparr>"

definition sample_desc :: rtt_desc where
  "sample_desc =
     \<lparr>d_tag = rev librtt_tagReversed @ replicate 8 (CHR 0x00), txChannels = 1, rxChannels = 1,
      channel = [sample_pipe 0x2000 3 2, sample_pipe 0x2004 1 2]\<rparr>"

definition sample_rtt :: librtt where
  "sample_rtt =
     \<lparr>rtt = Some sample_desc, invalFn = True, cleanFn = True, lastRd = [0, 0],
      mem = (\<lambda>a. ucast (a AND 0xff)), ops = []\<rparr>"

subsection \<open>A channel as a queue\<close>

abbreviation pmask :: "rtt_pipe \<Rightarrow> u32" where
  "pmask p \<equiv> p_sz p - 1"

definition pbuf :: "(u32 \<Rightarrow> u8) \<Rightarrow> rtt_pipe \<Rightarrow> u8 list" where
  "pbuf m p = map (\<lambda>i. m (p_ptr p + of_nat i)) [0..<unat (p_sz p)]"

definition pipe_ok :: "(u32 \<Rightarrow> u8) \<times> rtt_pipe \<Rightarrow> bool" where
  "pipe_ok q = is_pow2 (p_sz (snd q))"

definition pipe_content :: "(u32 \<Rightarrow> u8) \<times> rtt_pipe \<Rightarrow> u8 list" where
  "pipe_content q =
     (let (m, p) = q in ring_list (pbuf m p) (unat (p_rd p AND pmask p)) (unat (p_wr p AND pmask p)))"

definition pipe_cap :: "(u32 \<Rightarrow> u8) \<times> rtt_pipe \<Rightarrow> nat" where
  "pipe_cap q = unat (p_sz (snd q)) - 1"

text \<open>One turn of the loops of \<open>librtt_read\<close> and \<open>librtt_write\<close>.\<close>

definition pipe_full :: "(u32 \<Rightarrow> u8) \<times> rtt_pipe \<Rightarrow> bool" where
  "pipe_full q = (let (m, p) = q in (p_rd p + pmask p) AND pmask p = p_wr p AND pmask p)"

definition pipe_empty :: "(u32 \<Rightarrow> u8) \<times> rtt_pipe \<Rightarrow> bool" where
  "pipe_empty q = (let (m, p) = q in p_rd p AND pmask p = p_wr p AND pmask p)"

definition pipe_push :: "(u32 \<Rightarrow> u8) \<times> rtt_pipe \<Rightarrow> u8 \<Rightarrow> (u32 \<Rightarrow> u8) \<times> rtt_pipe" where
  "pipe_push q b =
     (let (m, p) = q
      in (m(p_ptr p + (p_wr p AND pmask p) := b), p\<lparr>p_wr := (p_wr p AND pmask p) + 1 AND pmask p\<rparr>))"

definition pipe_pop :: "(u32 \<Rightarrow> u8) \<times> rtt_pipe \<Rightarrow> u8 \<times> (u32 \<Rightarrow> u8) \<times> rtt_pipe" where
  "pipe_pop q =
     (let (m, p) = q
      in (m (p_ptr p + (p_rd p AND pmask p)), m, p\<lparr>p_rd := (p_rd p AND pmask p) + 1 AND pmask p\<rparr>))"

lemma pipe_okE:
  assumes "pipe_ok (m, p)"
  obtains k where "k < 32" "unat (p_sz p) = 2 ^ k" "pmask p = mask k"
    "unat (p_rd p AND pmask p) < 2 ^ k" "unat (p_wr p AND pmask p) < 2 ^ k"
proof -
  from assms obtain k where k: "k < 32" "unat (p_sz p) = 2 ^ k"
    by (auto simp: pipe_ok_def dest: is_pow2_unat)
  then have "pmask p = mask k" by (simp add: is_pow2_mask)
  with k that show thesis by (simp add: unat_mask_less)
qed

lemma length_pbuf [simp]: "length (pbuf m p) = unat (p_sz p)"
  by (simp add: pbuf_def)

lemma pbuf_fields [simp]:
  "pbuf m (p\<lparr>p_wr := x\<rparr>) = pbuf m p" "pbuf m (p\<lparr>p_rd := x\<rparr>) = pbuf m p"
  by (simp_all add: pbuf_def)

lemma nth_pbuf: "unat x < unat (p_sz p) \<Longrightarrow> pbuf m p ! unat x = m (p_ptr p + x)"
  by (simp add: pbuf_def)

lemma pbuf_update:
  assumes "unat x < unat (p_sz p)"
  shows "pbuf (m(p_ptr p + x := b)) p = (pbuf m p)[unat x := b]"
proof (rule nth_equalityI)
  fix i assume "i < length (pbuf (m(p_ptr p + x := b)) p)"
  then have i: "i < unat (p_sz p)" by simp
  have "unat (p_sz p) < 2 ^ 32" using unsigned_less [of "p_sz p"] by simp
  with i have "unat (of_nat i :: u32) = i" by (simp add: unsigned_of_nat take_bit_nat_eq_self)
  then have "of_nat i = x \<longleftrightarrow> i = unat x" by auto
  with i show "pbuf (m(p_ptr p + x := b)) p ! i = (pbuf m p)[unat x := b] ! i"
    by (auto simp: pbuf_def nth_list_update)
qed simp

lemma mask_and_idem [simp]: "(x AND mask k) AND mask k = (x AND mask k :: u32)"
  by (simp add: and.assoc)

lemma unat_pred_and_mask:
  fixes x :: u32
  assumes "k < 32"
  shows "unat ((x + mask k) AND mask k) = (unat (x AND mask k) + 2 ^ k - Suc 0) mod 2 ^ k"
proof -
  have "(2::nat) ^ k dvd 2 ^ 32" using assms by (intro le_imp_power_dvd) simp
  then have "unat ((x + mask k) AND mask k) = (unat x + (2 ^ k - 1)) mod 2 ^ k"
    using assms by (simp add: unat_and_mask unat_word_ariths unat_mask_eq mod_mod_cancel)
  also have "\<dots> = (unat x mod 2 ^ k + (2 ^ k - 1)) mod 2 ^ k" by (rule mod_add_left_eq [symmetric])
  finally show ?thesis by (simp add: unat_and_mask)
qed

lemma pred_succ_iff:
  "r < n \<Longrightarrow> w < n \<Longrightarrow> (r + n - Suc 0) mod n = w \<longleftrightarrow> Suc w mod n = r"
  by (auto simp: mod_pred_cases mod_succ_cases split: if_splits)

lemma full_mask_iff:
  fixes x y :: u32
  assumes "k < 32"
  shows "(x + mask k) AND mask k = y AND mask k \<longleftrightarrow>
    Suc (unat (y AND mask k)) mod 2 ^ k = unat (x AND mask k)"
  using assms unat_mask_less [of x k] unat_mask_less [of y k]
  by (simp add: word_unat_eq_iff [of "(x + mask k) AND mask k"] unat_pred_and_mask pred_succ_iff)

lemma pipe_full_iff_succ:
  assumes "pipe_ok (m, p)"
  shows "pipe_full (m, p) \<longleftrightarrow>
    Suc (unat (p_wr p AND pmask p)) mod unat (p_sz p) = unat (p_rd p AND pmask p)"
  using assms by (rule pipe_okE)
    (simp add: pipe_full_def full_mask_iff)

lemma pipe_content_pair:
  "pipe_content (m, p) = ring_list (pbuf m p) (unat (p_rd p AND pmask p)) (unat (p_wr p AND pmask p))"
  by (simp add: pipe_content_def)

lemma pipe_full_content:
  assumes "pipe_ok q"
  shows "pipe_full q \<longleftrightarrow> length (pipe_content q) = pipe_cap q"
proof (cases q)
  case (Pair m p)
  with assms have ok: "pipe_ok (m, p)" by simp
  from ok show ?thesis
    by (rule pipe_okE)
      (simp add: Pair pipe_full_iff_succ [OF ok] pipe_content_pair pipe_cap_def ring_len_full)
qed

lemma pipe_empty_content:
  assumes "pipe_ok q"
  shows "pipe_empty q \<longleftrightarrow> pipe_content q = []"
proof (cases q)
  case (Pair m p)
  with assms have ok: "pipe_ok (m, p)" by simp
  from ok show ?thesis
    by (rule pipe_okE) (auto simp: Pair pipe_empty_def pipe_content_pair ring_list_eq_Nil
      word_unat_eq_iff)
qed

lemma pipe_push_content:
  assumes "pipe_ok q" and "\<not> pipe_full q"
  shows "pipe_content (pipe_push q b) = pipe_content q @ [b]"
proof (cases q)
  case (Pair m p)
  with assms have ok: "pipe_ok (m, p)" and nf: "\<not> pipe_full (m, p)" by simp_all
  from ok obtain k where k: "k < 32" "unat (p_sz p) = 2 ^ k" "pmask p = mask k"
    "unat (p_rd p AND pmask p) < 2 ^ k" "unat (p_wr p AND pmask p) < 2 ^ k"
    by (rule pipe_okE)
  let ?w = "p_wr p AND pmask p"
  have "pbuf (m(p_ptr p + ?w := b)) p = (pbuf m p)[unat ?w := b]"
    using k by (intro pbuf_update) simp
  moreover have "unat ((?w + 1) AND pmask p) = Suc (unat ?w) mod 2 ^ k"
    using k by (simp add: unat_succ_and_mask)
  ultimately show ?thesis
    using k nf pipe_full_iff_succ [OF ok]
      ring_list_push [of "unat (p_rd p AND pmask p)" "pbuf m p" "unat ?w" b]
    by (simp add: Pair pipe_push_def pipe_content_pair)
qed

lemma pipe_pop_content:
  assumes "pipe_ok q" and "\<not> pipe_empty q"
  shows "pipe_content q = fst (pipe_pop q) # pipe_content (snd (pipe_pop q))"
proof (cases q)
  case (Pair m p)
  with assms have ok: "pipe_ok (m, p)" and ne: "\<not> pipe_empty (m, p)" by simp_all
  from ok obtain k where k: "k < 32" "unat (p_sz p) = 2 ^ k" "pmask p = mask k"
    "unat (p_rd p AND pmask p) < 2 ^ k" "unat (p_wr p AND pmask p) < 2 ^ k"
    by (rule pipe_okE)
  let ?r = "p_rd p AND pmask p"
  have "unat ((?r + 1) AND pmask p) = Suc (unat ?r) mod 2 ^ k"
    using k by (simp add: unat_succ_and_mask)
  moreover have "pbuf m p ! unat ?r = m (p_ptr p + ?r)" using k by (intro nth_pbuf) simp
  moreover have "unat (p_wr p AND pmask p) \<noteq> unat ?r"
    using ne by (auto simp: pipe_empty_def word_unat_eq_iff)
  ultimately show ?thesis
    using k ring_list_pop [of "unat ?r" "pbuf m p" "unat (p_wr p AND pmask p)"]
    by (simp add: Pair pipe_pop_def pipe_content_pair)
qed

lemma pipe_content_le: "pipe_ok q \<Longrightarrow> length (pipe_content q) \<le> pipe_cap q"
proof (cases q)
  case (Pair m p)
  assume "pipe_ok q"
  with Pair have "pipe_ok (m, p)" by simp
  then show ?thesis
    by (rule pipe_okE) (auto simp: Pair pipe_content_pair pipe_cap_def dest: ring_len_less)
qed

lemma pipe_step_fields [simp]:
  "p_sz (snd (pipe_push q b)) = p_sz (snd q)" "p_sz (snd (snd (pipe_pop q))) = p_sz (snd q)"
  by (simp_all add: pipe_push_def pipe_pop_def case_prod_beta)

interpretation pq: bounded_queue pipe_ok pipe_content pipe_cap pipe_full pipe_empty pipe_push pipe_pop
proof unfold_locales
  show "pipe_ok (pipe_push q x)" if "pipe_ok q" "\<not> pipe_full q" for q x
    using that by (simp add: pipe_ok_def)
  show "pipe_ok (snd (pipe_pop q))" if "pipe_ok q" "\<not> pipe_empty q" for q
    using that by (simp add: pipe_ok_def)
  show "pipe_cap (pipe_push q x) = pipe_cap q" if "pipe_ok q" "\<not> pipe_full q" for q x
    by (simp add: pipe_cap_def)
  show "pipe_cap (snd (pipe_pop q)) = pipe_cap q" if "pipe_ok q" "\<not> pipe_empty q" for q
    by (simp add: pipe_cap_def)
qed (simp_all add: pipe_content_le pipe_full_content pipe_empty_content pipe_push_content
  pipe_pop_content [symmetric])

lemma and_pmask_idem:
  assumes "pipe_ok (m, p)"
  shows "(x AND pmask p) AND pmask p = x AND pmask p"
  using assms by (elim pipe_okE) simp

lemma pipe_pairs:
  "pipe_empty (m, p) \<longleftrightarrow> p_rd p AND pmask p = p_wr p AND pmask p"
  "pipe_full (m, p) \<longleftrightarrow> (p_rd p + pmask p) AND pmask p = p_wr p AND pmask p"
  "pipe_pop (m, p) = (m (p_ptr p + (p_rd p AND pmask p)), m,
     p\<lparr>p_rd := (p_rd p AND pmask p) + 1 AND pmask p\<rparr>)"
  "pipe_push (m, p) b = (m(p_ptr p + (p_wr p AND pmask p) := b),
     p\<lparr>p_wr := (p_wr p AND pmask p) + 1 AND pmask p\<rparr>)"
  by (simp_all add: pipe_empty_def pipe_full_def pipe_pop_def pipe_push_def)

text \<open>The loops of the library are the loops of the queue.\<close>

lemma read_loop_pops:
  assumes "pipe_ok (m, p)"
  shows "\<exists>x. pop_while pipe_empty pipe_pop n (m, p) =
      (fst (read_loop m (p_ptr p) (pmask p) (p_rd p AND pmask p) (p_wr p AND pmask p) n), m, p\<lparr>p_rd := x\<rparr>) \<and>
    x AND pmask p =
      snd (read_loop m (p_ptr p) (pmask p) (p_rd p AND pmask p) (p_wr p AND pmask p) n)"
  using assms
proof (induction n arbitrary: p)
  case 0
  then show ?case by (intro exI [of _ "p_rd p"]) simp
next
  case (Suc n)
  show ?case
  proof (cases "pipe_empty (m, p)")
    case True
    then show ?thesis by (intro exI [of _ "p_rd p"]) (simp add: pipe_pairs)
  next
    case False
    let ?p = "p\<lparr>p_rd := (p_rd p AND pmask p) + 1 AND pmask p\<rparr>"
    have ok: "pipe_ok (m, ?p)" using Suc.prems by (simp add: pipe_ok_def)
    from Suc.IH [OF ok] obtain x where "pop_while pipe_empty pipe_pop n (m, ?p) =
        (fst (read_loop m (p_ptr p) (pmask p) ((p_rd p AND pmask p) + 1 AND pmask p)
          (p_wr p AND pmask p) n), m, p\<lparr>p_rd := x\<rparr>)"
      "x AND pmask p = snd (read_loop m (p_ptr p) (pmask p) ((p_rd p AND pmask p) + 1 AND pmask p)
          (p_wr p AND pmask p) n)"
      by (auto simp: and_pmask_idem [OF Suc.prems])
    with False show ?thesis
      by (intro exI [of _ x]) (simp add: pipe_pairs case_prod_beta)
  qed
qed

lemma read_loop_spec:
  assumes "pipe_ok (m, p)"
    and "read_loop m (p_ptr p) (pmask p) (p_rd p AND pmask p) (p_wr p AND pmask p) n = (bs, rd')"
  shows "bs = take n (pipe_content (m, p))"
    and "pipe_content (m, p\<lparr>p_rd := rd'\<rparr>) = drop n (pipe_content (m, p))"
proof -
  from read_loop_pops [OF assms(1), of n] assms(2) obtain x
    where x: "pop_while pipe_empty pipe_pop n (m, p) = (bs, m, p\<lparr>p_rd := x\<rparr>)" "x AND pmask p = rd'"
    by auto
  have "pipe_content (m, p\<lparr>p_rd := rd'\<rparr>) = pipe_content (m, p\<lparr>p_rd := x\<rparr>)"
    using x(2) and_pmask_idem [OF assms(1), of x] by (simp add: pipe_content_pair)
  with pq.pop_while_spec [OF assms(1), of n] x(1)
  show "bs = take n (pipe_content (m, p))"
    "pipe_content (m, p\<lparr>p_rd := rd'\<rparr>) = drop n (pipe_content (m, p))" by simp_all
qed

lemma write_loop_pushes:
  assumes "pipe_ok (m, p)"
    and "write_until_full m (p_ptr p) (pmask p) ((p_rd p + pmask p) AND pmask p)
      (p_wr p AND pmask p) bs = (m', wr', rest)"
  shows "\<exists>x. push_while pipe_full pipe_push (m, p) bs = ((m', p\<lparr>p_wr := x\<rparr>), rest) \<and>
    x AND pmask p = wr'"
  using assms
proof (induction bs arbitrary: m p)
  case Nil
  then show ?case by (intro exI [of _ "p_wr p"]) simp
next
  case (Cons b bs)
  show ?case
  proof (cases "pipe_full (m, p)")
    case True
    with Cons.prems show ?thesis by (intro exI [of _ "p_wr p"]) (auto simp: pipe_pairs)
  next
    case False
    let ?m = "m(p_ptr p + (p_wr p AND pmask p) := b)"
    let ?p = "p\<lparr>p_wr := (p_wr p AND pmask p) + 1 AND pmask p\<rparr>"
    have ok: "pipe_ok (?m, ?p)" using Cons.prems by (simp add: pipe_ok_def)
    have "write_until_full ?m (p_ptr p) (pmask p) ((p_rd p + pmask p) AND pmask p)
        ((p_wr p AND pmask p) + 1 AND pmask p) bs = (m', wr', rest)"
      using False Cons.prems by (simp add: pipe_pairs)
    with Cons.IH [OF ok] have
      "\<exists>x. push_while pipe_full pipe_push (?m, ?p) bs = ((m', p\<lparr>p_wr := x\<rparr>), rest) \<and> x AND pmask p = wr'"
      by (simp add: and_pmask_idem [OF Cons.prems(1)] del: fun_upd_apply)
    then obtain x where
      "push_while pipe_full pipe_push (?m, ?p) bs = ((m', p\<lparr>p_wr := x\<rparr>), rest)" "x AND pmask p = wr'"
      by blast
    with False show ?thesis by (intro exI [of _ x]) (simp add: pipe_pairs)
  qed
qed

lemma pipe_write_loop_spec:
  assumes "pipe_ok (m, p)"
    and "write_until_full m (p_ptr p) (pmask p) ((p_rd p + pmask p) AND pmask p)
      (p_wr p AND pmask p) bs = (m', wr', rest)"
  shows "pipe_content (m', p\<lparr>p_wr := wr'\<rparr>) =
      pipe_content (m, p) @ take (pipe_cap (m, p) - length (pipe_content (m, p))) bs"
    and "rest = drop (pipe_cap (m, p) - length (pipe_content (m, p))) bs"
    and "wr' AND pmask p = wr'"
proof -
  from write_loop_pushes [OF assms] obtain x
    where x: "push_while pipe_full pipe_push (m, p) bs = ((m', p\<lparr>p_wr := x\<rparr>), rest)"
      "x AND pmask p = wr'" by blast
  show wr: "wr' AND pmask p = wr'" using x(2) and_pmask_idem [OF assms(1), of x] by auto
  then have "pipe_content (m', p\<lparr>p_wr := wr'\<rparr>) = pipe_content (m', p\<lparr>p_wr := x\<rparr>)"
    using x(2) by (simp add: pipe_content_pair)
  with pq.push_while_spec [OF assms(1), of bs] x(1)
  show "pipe_content (m', p\<lparr>p_wr := wr'\<rparr>) =
      pipe_content (m, p) @ take (pipe_cap (m, p) - length (pipe_content (m, p))) bs"
    "rest = drop (pipe_cap (m, p) - length (pipe_content (m, p))) bs" by simp_all
qed

subsection \<open>Transfers\<close>

definition ring_addrs :: "rtt_pipe \<Rightarrow> u32 set" where
  "ring_addrs p = {p_ptr p + i | i. i \<le> pmask p}"

lemma write_until_full_frame:
  assumes "pipe_ok (m, p)" and "wr \<le> pmask p" and "a \<notin> ring_addrs p"
    and "write_until_full m (p_ptr p) (pmask p) rd wr bs = (m', wr', rest)"
  shows "m' a = m a"
  using assms
proof (induction bs arbitrary: m wr)
  case (Cons b bs)
  have w: "(wr + 1) AND pmask p \<le> pmask p" by (metis and.commute word_and_le1)
  have a: "a \<noteq> p_ptr p + wr" using Cons.prems(2,3) by (auto simp: ring_addrs_def)
  show ?case
  proof (cases "rd = wr")
    case False
    let ?m = "m(p_ptr p + wr := b)"
    have "pipe_ok (?m, p)" using Cons.prems(1) by (simp add: pipe_ok_def)
    from Cons.IH [OF this w Cons.prems(3)] Cons.prems(4) False have "m' a = ?m a"
      by (simp del: fun_upd_apply)
    with a show ?thesis by simp
  qed (use Cons.prems in simp)
qed simp

lemma get_set_channel:
  "get_channel st ch = Some p \<Longrightarrow> get_channel (set_channel st ch p') ch = Some p'"
  "get_channel (st\<lparr>mem := m\<rparr>) ch = get_channel st ch"
  "get_channel (st\<lparr>ops := evs\<rparr>) ch = get_channel st ch"
  by (auto simp: get_channel_def set_channel_def bind_eq_Some_conv split: if_splits)

text \<open>C21. A write without overwriting stores as much of the data as fits, in order, behind what the
  channel holds, returns its length, and touches no memory outside the channel's ring.\<close>

theorem rtt_write_appends:
  assumes "librtt_checkTx st ch" and "get_channel st ch = Some p" and "is_pow2 (p_sz p)"
  shows "\<exists>n st' p'. librtt_write st ch buf False = Some (Inr n, st') \<and> get_channel st' ch = Some p' \<and>
    n = min (length buf) (unat (p_sz p) - 1 - length (pipe_content (mem st, p))) \<and>
    pipe_content (mem st', p') = pipe_content (mem st, p) @ take n buf \<and>
    (\<forall>a. a \<notin> ring_addrs p \<longrightarrow> mem st' a = mem st a)"
proof -
  let ?c = "pipe_content (mem st, p)"
  have ok: "pipe_ok (mem st, p)" using assms(3) by (simp add: pipe_ok_def)
  obtain m' wr' rest where w: "write_until_full (mem st) (p_ptr p) (pmask p)
      ((p_rd p + pmask p) AND pmask p) (p_wr p AND pmask p) buf = (m', wr', rest)"
    by (metis prod_cases3)
  note sp = pipe_write_loop_spec [OF ok w]
  let ?st = "(set_channel st ch (p\<lparr>p_wr := wr'\<rparr>))\<lparr>mem := m', ops := ops st @ performCacheOp (cleanFn st)
    Clean (p_ptr p) (p_sz p) ((p_rd p + pmask p) AND pmask p) wr'\<rparr>"
  have "librtt_write st ch buf False = Some (Inr (length buf - length rest), ?st)"
    using assms w by (simp add: librtt_write_def Let_def)
  moreover have "get_channel ?st ch = Some (p\<lparr>p_wr := wr'\<rparr>)"
    using get_set_channel(1) [OF assms(2)] by (simp add: get_channel_def)
  moreover have "length buf - length rest = min (length buf) (unat (p_sz p) - 1 - length ?c)"
    using sp(2) by (simp add: pipe_cap_def min_def)
  moreover have "take (min (length buf) (unat (p_sz p) - 1 - length ?c)) buf =
      take (unat (p_sz p) - 1 - length ?c) buf" by (simp add: min_def)
  moreover have "m' a = mem st a" if "a \<notin> ring_addrs p" for a
    using write_until_full_frame [OF ok _ that w] by (metis and.commute word_and_le1)
  ultimately show ?thesis
    using sp(1) by (intro exI [of _ "length buf - length rest"] exI [of _ ?st]
      exI [of _ "p\<lparr>p_wr := wr'\<rparr>"]) (simp add: pipe_cap_def)
qed

theorem rtt_write_appends_witness:
  "\<exists>st' p'. librtt_write sample_rtt 0 [7, 8, 9] False = Some (Inr 2, st') \<and>
     get_channel st' 0 = Some p' \<and> pipe_content (mem st', p') = [2, 7, 8]"
proof -
  let ?p = "sample_pipe 0x2000 3 2"
  have "librtt_checkTx sample_rtt 0" "get_channel sample_rtt 0 = Some ?p" "is_pow2 (p_sz ?p)"
    by code_simp+
  moreover have "pipe_content (mem sample_rtt, ?p) = [2]" "unat (p_sz ?p) = 4" by code_simp+
  ultimately show ?thesis using rtt_write_appends [of sample_rtt 0 ?p "[7, 8, 9]"] by auto
qed

text \<open>C22. A read returns the oldest bytes of the channel, as many as asked for and there are, in
  order, and leaves the others; it writes nothing but the read position.\<close>

theorem rtt_read_takes:
  assumes "librtt_checkRx st ch" and "get_channel st (rx_index st ch) = Some p" and "is_pow2 (p_sz p)"
  shows "\<exists>st' p'. librtt_read st ch count = Some (Inr (take count (pipe_content (mem st, p))), st') \<and>
    get_channel st' (rx_index st ch) = Some p' \<and> mem st' = mem st \<and>
    pipe_content (mem st, p') = drop count (pipe_content (mem st, p)) \<and> p' = p\<lparr>p_rd := p_rd p'\<rparr>"
proof -
  have ok: "pipe_ok (mem st, p)" using assms(3) by (simp add: pipe_ok_def)
  obtain bs rd' where r: "read_loop (mem st) (p_ptr p) (pmask p) (p_rd p AND pmask p)
      (p_wr p AND pmask p) count = (bs, rd')" by fastforce
  note sp = read_loop_spec [OF ok r]
  let ?st = "(set_channel st (rx_index st ch) (p\<lparr>p_rd := rd'\<rparr>))\<lparr>ops := ops st @ performCacheOp (invalFn st)
    Inval (p_ptr p) (p_sz p) (p_rd p AND pmask p) (p_wr p AND pmask p)\<rparr>"
  have "librtt_read st ch count = Some (Inr bs, ?st)"
    using assms r by (simp add: librtt_read_def Let_def)
  moreover have "get_channel ?st (rx_index st ch) = Some (p\<lparr>p_rd := rd'\<rparr>)"
    using get_set_channel(1) [OF assms(2)] by (simp add: get_channel_def)
  moreover have "mem ?st = mem st" by (simp add: set_channel_def)
  ultimately show ?thesis
    using sp by (intro exI [of _ ?st] exI [of _ "p\<lparr>p_rd := rd'\<rparr>"]) simp
qed

theorem rtt_read_takes_witness:
  "\<exists>st'. librtt_read sample_rtt 0 2 = Some (Inr [6, 7], st')"
proof -
  let ?p = "sample_pipe 0x2004 1 2"
  have "librtt_checkRx sample_rtt 0" "get_channel sample_rtt (rx_index sample_rtt 0) = Some ?p"
    "is_pow2 (p_sz ?p)" by code_simp+
  moreover have "take 2 (pipe_content (mem sample_rtt, ?p)) = [6, 7]" by code_simp
  ultimately show ?thesis using rtt_read_takes [of sample_rtt 0 ?p 2] by auto
qed

text \<open>The two availability functions are exact: what is waiting in a receive channel, and what a
  write into a transmit channel would store.\<close>

theorem rtt_avail_exact:
  assumes "is_pow2 (p_sz p)"
  shows "(librtt_checkRx st ch \<and> get_channel st (rx_index st ch) = Some p \<longrightarrow>
      map_option unat (librtt_rxAvail st ch) = Some (length (pipe_content (mem st, p)))) \<and>
    (librtt_checkTx st ch \<and> get_channel st ch = Some p \<longrightarrow>
      map_option unat (librtt_txAvail st ch) =
        Some (unat (p_sz p) - 1 - length (pipe_content (mem st, p))))"
proof -
  have ok: "pipe_ok (mem st, p)" using assms by (simp add: pipe_ok_def)
  from ok obtain k where k: "k < 32" "unat (p_sz p) = 2 ^ k" "pmask p = mask k"
    "unat (p_rd p AND pmask p) < 2 ^ k" "unat (p_wr p AND pmask p) < 2 ^ k"
    by (rule pipe_okE)
  let ?r = "p_rd p AND pmask p" and ?w = "p_wr p AND pmask p" and ?q = "(p_rd p + pmask p) AND pmask p"
  have q: "unat ?q = (unat ?r + 2 ^ k - Suc 0) mod 2 ^ k" using k by (simp add: unat_pred_and_mask)
  have len: "length (pipe_content (mem st, p)) = ring_len (2 ^ k) (unat ?r) (unat ?w)"
    using k by (simp add: pipe_content_pair)
  have sub: "unat (x - y) = unat x - unat y" if "y \<le> x" for x y :: u32
    using that by (simp add: unat_sub)
  have sz: "pmask p + 1 = p_sz p" by simp
  have "unat (if ?r > ?w then pmask p + 1 - (?r - ?w) else ?w - ?r) =
      ring_len (2 ^ k) (unat ?r) (unat ?w)"
    using k(2,4,5) sub [of ?w ?r] sub [of ?r ?w] sub [of "?r - ?w" "p_sz p"]
    by (auto simp: sz ring_len_cases word_less_nat_alt word_le_nat_alt not_less)
  moreover have "unat (if ?w > ?q then pmask p + 1 - (?w - ?q) else ?q - ?w) =
      2 ^ k - 1 - ring_len (2 ^ k) (unat ?r) (unat ?w)"
    using k(2,4,5) q sub [of ?q ?w] sub [of ?w ?q] sub [of "?w - ?q" "p_sz p"]
    by (auto simp: sz ring_len_cases mod_pred_cases word_less_nat_alt word_le_nat_alt not_less
      split: if_splits)
  ultimately show ?thesis
    using len k(2) by (simp add: librtt_rxAvail_def librtt_txAvail_def Let_def)
qed

theorem rtt_avail_exact_witness:
  "map_option unat (librtt_rxAvail sample_rtt 0) = Some 3 \<and>
   map_option unat (librtt_txAvail sample_rtt 0) = Some 2"
proof -
  have p: "is_pow2 (p_sz (sample_pipe 0x2004 1 2))" "is_pow2 (p_sz (sample_pipe 0x2000 3 2))"
    by code_simp+
  have "librtt_checkRx sample_rtt 0" "get_channel sample_rtt (rx_index sample_rtt 0) = Some (sample_pipe 0x2004 1 2)"
    "librtt_checkTx sample_rtt 0" "get_channel sample_rtt 0 = Some (sample_pipe 0x2000 3 2)"
    "length (pipe_content (mem sample_rtt, sample_pipe 0x2004 1 2)) = 3"
    "unat (p_sz (sample_pipe 0x2000 3 2)) - 1 -
      length (pipe_content (mem sample_rtt, sample_pipe 0x2000 3 2)) = 2" by code_simp+
  with rtt_avail_exact [OF p(1), of sample_rtt 0] rtt_avail_exact [OF p(2), of sample_rtt 0]
  show ?thesis by simp
qed

subsection \<open>Full rings\<close>

lemma write_fills:
  assumes "pipe_ok (m, p)"
    and "write_until_full m (p_ptr p) (pmask p) ((p_rd p + pmask p) AND pmask p)
      (p_wr p AND pmask p) bs = (m', wr', rest)"
    and "pipe_cap (m, p) - length (pipe_content (m, p)) \<le> length bs"
  shows "(p_rd p + pmask p) AND pmask p = wr'"
proof -
  note sp = pipe_write_loop_spec [OF assms(1,2)]
  have "pipe_ok (m', p\<lparr>p_wr := wr'\<rparr>)" using assms(1) by (simp add: pipe_ok_def)
  from pipe_full_content [OF this] have "pipe_full (m', p\<lparr>p_wr := wr'\<rparr>)"
    using sp(1) assms(3) pipe_content_le [OF assms(1)] by (simp add: pipe_cap_def)
  with sp(3) show ?thesis by (simp add: pipe_pairs)
qed

text \<open>C25. A write that may overwrite and has enough data to fill the ring leaves the channel empty:
  the read position is set to the write position, which the reader takes for "nothing there".
  All the data, the new as well as the old, is lost, even if it just fitted.\<close>

theorem rtt_overwrite_loses_all:
  assumes "librtt_checkTx st ch" and "get_channel st ch = Some p" and "is_pow2 (p_sz p)"
    and "unat (p_sz p) - 1 - length (pipe_content (mem st, p)) \<le> length buf"
  shows "\<exists>st' p'. librtt_write st ch buf True = Some (Inr (length buf), st') \<and>
    get_channel st' ch = Some p' \<and> pipe_content (mem st', p') = []"
proof -
  have ok: "pipe_ok (mem st, p)" using assms(3) by (simp add: pipe_ok_def)
  obtain m' wr' rest where w: "write_until_full (mem st) (p_ptr p) (pmask p)
      ((p_rd p + pmask p) AND pmask p) (p_wr p AND pmask p) buf = (m', wr', rest)"
    by (metis prod_cases3)
  have full: "(p_rd p + pmask p) AND pmask p = wr'"
    using write_fills [OF ok w] assms(4) by (simp add: pipe_cap_def)
  obtain m2 wr2 where o: "write_over m' (p_ptr p) (pmask p) wr' rest = (m2, wr2)" by fastforce
  let ?p = "p\<lparr>p_rd := wr2, p_wr := wr2\<rparr>"
  let ?st = "(set_channel st ch ?p)\<lparr>mem := m2, ops := ops st @ performCacheOp (cleanFn st)
    Clean (p_ptr p) (p_sz p) wr' wr2\<rparr>"
  have "librtt_write st ch buf True = Some (Inr (length buf), ?st)"
    using assms(1,2) w full o by (simp add: librtt_write_def Let_def)
  moreover have "get_channel ?st ch = Some ?p"
    using get_set_channel(1) [OF assms(2)] by (simp add: get_channel_def)
  moreover have "pipe_content (mem ?st, ?p) = []" by (simp add: pipe_content_pair)
  ultimately show ?thesis by blast
qed

theorem rtt_overwrite_loses_all_witness:
  "\<exists>st' p'. librtt_write sample_rtt 0 [7, 8] True = Some (Inr 2, st') \<and>
     get_channel st' 0 = Some p' \<and> pipe_content (mem st', p') = []"
proof -
  let ?p = "sample_pipe 0x2000 3 2"
  have "librtt_checkTx sample_rtt 0" "get_channel sample_rtt 0 = Some ?p" "is_pow2 (p_sz ?p)"
    "unat (p_sz ?p) - 1 - length (pipe_content (mem sample_rtt, ?p)) \<le> length [7, 8 :: u8]"
    by code_simp+
  from rtt_overwrite_loses_all [OF this] show ?thesis by (simp add: numeral_2_eq_2)
qed

text \<open>A write that fills the ring is not cleaned from the cache: the new write position equals
  the position the library counts from, and its cache routine takes that for an empty range. The
  debugger, which reads memory behind the cache, sees the old bytes.\<close>

theorem rtt_full_write_not_cleaned:
  assumes "librtt_checkTx st ch" and "get_channel st ch = Some p" and "is_pow2 (p_sz p)"
    and "unat (p_sz p) - 1 - length (pipe_content (mem st, p)) \<le> length buf"
  shows "\<exists>n st'. librtt_write st ch buf False = Some (Inr n, st') \<and> ops st' = ops st"
proof -
  have ok: "pipe_ok (mem st, p)" using assms(3) by (simp add: pipe_ok_def)
  obtain m' wr' rest where w: "write_until_full (mem st) (p_ptr p) (pmask p)
      ((p_rd p + pmask p) AND pmask p) (p_wr p AND pmask p) buf = (m', wr', rest)"
    by (metis prod_cases3)
  have full: "(p_rd p + pmask p) AND pmask p = wr'"
    using write_fills [OF ok w] assms(4) by (simp add: pipe_cap_def)
  with assms(1,2) w show ?thesis
    by (simp add: librtt_write_def Let_def performCacheOp_def set_channel_def)
qed

theorem rtt_full_write_not_cleaned_witness:
  "\<exists>n st'. librtt_write sample_rtt 0 [7, 8] False = Some (Inr n, st') \<and> ops st' = []"
proof -
  let ?p = "sample_pipe 0x2000 3 2"
  have "librtt_checkTx sample_rtt 0" "get_channel sample_rtt 0 = Some ?p" "is_pow2 (p_sz ?p)"
    "unat (p_sz ?p) - 1 - length (pipe_content (mem sample_rtt, ?p)) \<le> length [7, 8 :: u8]"
    by code_simp+
  from rtt_full_write_not_cleaned [OF this] show ?thesis by (simp add: sample_rtt_def)
qed

subsection \<open>Cache maintenance of reads\<close>

fun covers :: "cache_event \<Rightarrow> u32 \<Rightarrow> bool" where
  "covers (Inval a n) x \<longleftrightarrow> x - a < n"
| "covers (Clean a n) x \<longleftrightarrow> x - a < n"

lemma performCacheOp_covers:
  assumes "k < 32" and "n = 2 ^ k" and "unat r < n" and "unat w < n" and "unat sz = n"
    and "i < ring_len n (unat r) (unat w)" and "unat j = (unat r + i) mod n"
    and "\<And>a m x. covers (oper a m) x \<longleftrightarrow> x - a < m"
  shows "\<exists>e \<in> set (performCacheOp True oper buf sz r w). covers e (buf + j)"
proof -
  have ne: "r \<noteq> w" using assms(3,4,6) by (auto simp: ring_len_cases)
  have diff: "unat (x - y) = unat x - unat y" if "unat y \<le> unat x" for x y :: u32
    using that by (simp add: unat_sub word_le_nat_alt)
  have succ: "unat (x + 1) = unat x + 1" if "unat x < n" for x :: u32
  proof -
    have "n \<le> 2 ^ 31" unfolding assms(2) using assms(1) by (intro power_increasing) auto
    with that show ?thesis by (simp add: unat_word_ariths)
  qed
  show ?thesis
  proof (cases "w < r")
    case True
    then have wr: "unat w < unat r" by (simp add: word_less_nat_alt)
    show ?thesis
    proof (cases "unat r + i < n")
      case r: True
      then have j: "unat j = unat r + i" using assms(7) by simp
      have "j - r < sz - r"
        using j r assms(3,5) diff [of r j] diff [of r sz] by (simp add: word_less_nat_alt)
      with True ne assms(8) show ?thesis by (simp add: performCacheOp_def)
    next
      case False
      with assms(3,4,6,7) wr have "unat j < unat w"
        by (auto simp: ring_len_cases mod_if split: if_splits)
      then have "j < w + 1" using succ [OF assms(4)] by (simp add: word_less_nat_alt)
      with True ne assms(8) show ?thesis by (simp add: performCacheOp_def)
    qed
  next
    case False
    then have rw: "unat r \<le> unat w" by (simp add: word_less_nat_alt)
    with assms(3,4,6) have i: "i < unat w - unat r" by (simp add: ring_len_cases)
    then have j: "unat j = unat r + i" using assms(4,7) by simp
    have "j - r < w - r + 1"
      using j i rw diff [of r j] diff [of r w] succ [of "w - r"] assms(4)
      by (simp add: word_less_nat_alt)
    with False ne assms(8) show ?thesis by (simp add: performCacheOp_def)
  qed
qed



subsection \<open>Descriptors prepared elsewhere\<close>

lemma verify_loop_all:
  assumes "verify_loop d buffers buffersSize n todo lrd = Some (True, lrd')" and "n \<le> i" and "i < n + todo"
  shows "i < length (channel d) \<and> librtt_verifyChannel (channel d ! i) buffers buffersSize"
  using assms
proof (induction todo arbitrary: n lrd)
  case (Suc todo)
  then have n: "n < length (channel d)" "librtt_verifyChannel (channel d ! n) buffers buffersSize"
    and rest: "verify_loop d buffers buffersSize (n + 1) todo
      (if n < unat LIBRTT_TXCHANNELS then lrd[n := p_rd (channel d ! n)] else lrd) = Some (True, lrd')"
    by (auto simp: Let_def split: if_splits)
  show ?case
  proof (cases "i = n")
    case False
    with Suc.prems have "n + 1 \<le> i" "i < n + 1 + todo" by auto
    with Suc.IH [OF rest] show ?thesis by blast
  qed (use n in simp)
qed simp

lemma verifyChannel_sound:
  assumes "librtt_verifyChannel p buffers buffersSize" and "unat buffersSize \<le> 2 ^ 31"
    and "unat buffers + unat buffersSize < 2 ^ 32"
  shows "is_pow2 (p_sz p)" and "a \<in> ring_addrs p \<Longrightarrow> buffers \<le> a \<and> a < buffers + buffersSize"
proof -
  have v: "is_pow2 (p_sz p)" "buffers \<le> p_ptr p" "p_ptr p < buffers + buffersSize"
    "p_ptr p + p_sz p \<le> buffers + buffersSize" "buffers < p_ptr p + p_sz p"
    using assms(1) by (auto simp: librtt_verifyChannel_def is_pow2_def Let_def not_less not_le)
  show "is_pow2 (p_sz p)" by (rule v)
  from is_pow2_unat [OF v(1)] obtain k where k: "k < 32" "unat (p_sz p) = 2 ^ k" by auto
  have sz: "unat (p_sz p) \<le> 2 ^ 31" unfolding k(2) using k(1) by (intro power_increasing) auto
  have e: "unat (buffers + buffersSize) = unat buffers + unat buffersSize"
    using assms(3) by (simp add: unat_word_ariths)
  have p: "unat buffers \<le> unat (p_ptr p)" "unat (p_ptr p) < unat buffers + unat buffersSize"
    using v(2,3) e by (simp_all add: word_le_nat_alt word_less_nat_alt)
  have nw: "unat (p_ptr p) + unat (p_sz p) < 2 ^ 32"
  proof (rule ccontr)
    assume "\<not> ?thesis"
    then obtain x where x: "unat (p_ptr p) + unat (p_sz p) = 2 ^ 32 + x"
      using le_Suc_ex [of "2 ^ 32" "unat (p_ptr p) + unat (p_sz p)"] by auto
    then have "x < unat buffers" using p sz assms(2) by simp
    moreover have "x mod 2 ^ 32 = x" using calculation assms(3) by (intro mod_less) simp
    ultimately have "unat (p_ptr p + p_sz p) < unat buffers"
      by (simp only: unat_word_ariths x) simp
    with v(5) show False by (simp add: word_less_nat_alt)
  qed
  then have end_le: "unat (p_ptr p) + unat (p_sz p) \<le> unat buffers + unat buffersSize"
    using v(4) e by (simp add: word_le_nat_alt unat_word_ariths)
  show "buffers \<le> a \<and> a < buffers + buffersSize" if "a \<in> ring_addrs p"
  proof -
    from that obtain i where i: "a = p_ptr p + i" "i \<le> pmask p" by (auto simp: ring_addrs_def)
    have "unat i < unat (p_sz p)"
      using i(2) is_pow2_mask [OF k(2)] k le_mask_iff [of k i] by simp
    then have "unat a = unat (p_ptr p) + unat i" using i(1) nw by (simp add: unat_word_ariths)
    with p end_le e \<open>unat i < unat (p_sz p)\<close> show ?thesis
      by (simp add: word_le_nat_alt word_less_nat_alt)
  qed
qed

text \<open>C20. A descriptor that verification accepts is safe to use, provided its channel counts do not
  overflow when they are added: every channel the library then lets a caller use exists, has a
  power-of-two ring, and the ring lies inside the memory it was checked against.\<close>

theorem rtt_verify_sound:
  assumes "librtt_verify st d cbSize buffers buffersSize inval clean = Some (None, st')"
    and "unat (txChannels d) + unat (rxChannels d) < 2 ^ 31"
    and "unat buffersSize \<le> 2 ^ 31" and "unat buffers + unat buffersSize < 2 ^ 32"
    and "i = ch \<and> librtt_checkTx st' ch \<or> i = rx_index st' ch \<and> librtt_checkRx st' ch"
  shows "\<exists>p. get_channel st' i = Some p \<and> is_pow2 (p_sz p) \<and>
    (\<forall>a \<in> ring_addrs p. buffers \<le> a \<and> a < buffers + buffersSize)"
proof -
  from assms(1) obtain lrd where l: "verify_loop d buffers buffersSize 0
      (nat (sint (txChannels d + rxChannels d))) (lastRd st) = Some (True, lrd)" and r: "rtt st' = Some d"
    by (auto simp: librtt_verify_def Let_def split: if_splits)
  have s: "unat (txChannels d + rxChannels d) = unat (txChannels d) + unat (rxChannels d)"
    using assms(2) by (simp add: unat_word_ariths)
  then have n: "nat (sint (txChannels d + rxChannels d)) = unat (txChannels d) + unat (rxChannels d)"
    using assms(2) sint_u32_small [of "txChannels d + rxChannels d"] by (simp only: nat_int)
  have "unat i < unat (txChannels d) + unat (rxChannels d)"
  proof (cases "i = ch \<and> librtt_checkTx st' ch")
    case True
    then show ?thesis using r by (simp add: librtt_checkTx_def not_le word_less_nat_alt)
  next
    case False
    with assms(5) r have "i = ch + txChannels d" "unat ch < unat (rxChannels d)"
      by (auto simp: rx_index_def librtt_checkRx_def not_le word_less_nat_alt)
    then show ?thesis using assms(2) by (simp add: unat_word_ariths)
  qed
  with verify_loop_all [OF l, of "unat i"] n have v: "unat i < length (channel d)"
    "librtt_verifyChannel (channel d ! unat i) buffers buffersSize" by auto
  have "get_channel st' i = Some (channel d ! unat i)" using v(1) r by (simp add: get_channel_def)
  with verifyChannel_sound [OF v(2) assms(3,4)] show ?thesis by blast
qed

theorem rtt_verify_sound_witness:
  "\<exists>st' p. librtt_verify (sample_rtt\<lparr>rtt := None\<rparr>) sample_desc 72 0x2000 8 True True = Some (None, st') \<and>
     get_channel st' 0 = Some p \<and> is_pow2 (p_sz p)"
proof -
  let ?v = "librtt_verify (sample_rtt\<lparr>rtt := None\<rparr>) sample_desc 72 0x2000 8 True True"
  have "?v \<noteq> None \<and> fst (the ?v) = None \<and> librtt_checkTx (snd (the ?v)) 0" by code_simp
  then obtain st' where v: "?v = Some (None, st')" "librtt_checkTx st' 0" by (cases ?v) auto
  have "unat (txChannels sample_desc) + unat (rxChannels sample_desc) < 2 ^ 31"
    "unat (8 :: u32) \<le> 2 ^ 31" "unat (0x2000 :: u32) + unat (8 :: u32) < 2 ^ 32"
    by (simp_all add: sample_desc_def)
  from rtt_verify_sound [OF v(1) this, of 0 0] v show ?thesis by auto
qed


end
