(* ===== verification/Shmsrv.thy ===== *)
theory Shmsrv
  imports Dev_Prelude "HOL-Library.Monad_Syntax"
begin

text \<open>
  The shared-memory object server, \<open>misc/shmsrv/shmsrv.c\<close> and \<open>misc/shmsrv/shm_proto.h\<close>: the
  table of objects, one definition per message handler, and the server loop. Object memory is a
  function from offsets to bytes; an access outside the mapped capacity is \<^term>\<open>None\<close>. The
  outcomes of \<open>calloc\<close>, \<open>mmap\<close> and \<open>memExport\<close> and the size of the kernel's attribute structure
  come with each message, and the calls the server makes to the kernel are logged.
\<close>

subsection \<open>Protocol and state\<close>

definition SHMSRV_PROTO :: u32 where "SHMSRV_PROTO = 1"
definition SHMSRV_OP_CREATE :: u32 where "SHMSRV_OP_CREATE = 0x53480001"
definition SHMSRV_OP_STATS :: u32 where "SHMSRV_OP_STATS = 0x53480002"
definition SHMSRV_OP_QUIT :: u32 where "SHMSRV_OP_QUIT = 0x53480003"
definition SHMSRV_MAX_BYTES :: u64 where "SHMSRV_MAX_BYTES = push_bit 20 256"
definition SHM_PAGE :: u64 where "SHM_PAGE = 4096"
definition SHM_MIN_CAP :: u64 where "SHM_MIN_CAP = 1024 * 1024"

record shmsrv_create_req =
  req_op :: u32
  req_proto :: u32

record shmsrv_create_rsp =
  rsp_err :: "errno option"
  rsp_id :: u32
  rsp_live :: u32
  rsp_bytes :: u64

record shm_obj =
  oid_no :: u32
  opens :: u32
  osize :: u64
  exported :: u64
  cap :: u64
  va :: "u64 \<Rightarrow> u8"

datatype kernel_call =
    MemExport u64 u64
  | MemExportFailed u64 u64
  | MemUnexport u64
  | Munmap u64 u64

record srv =
  srv_port :: u32
  next_id :: u32
  objs :: "shm_obj list"
  live :: u32
  bytes :: u64
  created :: u64
  destroyed :: u64
  quit :: bool
  calls :: "kernel_call list"

text \<open>What the C library and the kernel answer while one message is handled.\<close>

record env =
  env_calloc :: bool
  env_mmap :: bool
  env_export :: "errno option"
  env_attr_size :: u64
  env_now :: int

definition srv_init :: "u32 \<Rightarrow> srv" where
  "srv_init port = \<lparr>srv_port = port, next_id = 1, objs = [], live = 0, bytes = 0, created = 0,
     destroyed = 0, quit = False, calls = []\<rparr>"

subsection \<open>Messages\<close>

datatype msg_type = mtLookup | mtOpen | mtClose | mtTruncate | mtRead | mtWrite | mtGetAttr
  | mtGetAttrAll | mtDevCtl | mtOther
datatype attr_type = atMode | atType | atSize | atOther
datatype obj_type = otDir | otFile
datatype file_mode = S_IFDIR u32 | S_IFREG u32
datatype attr_val = AttrMode file_mode | AttrType obj_type

record attrAll =
  a_mode :: file_mode
  a_size :: u64
  a_blocks :: u64
  a_ioblock :: u64
  a_type :: obj_type
  a_port :: u32
  a_dev :: u32
  a_links :: nat
  a_time :: int
  a_pollStatus :: errno
  a_eventMask :: errno

record msg =
  m_type :: msg_type
  m_id :: u64
  i_data :: "u8 list option"
  i_size :: u64
  io_len :: u64
  io_offs :: u64
  i_attr :: attr_type
  i_raw :: shmsrv_create_req
  o_null :: bool
  o_size :: u64

record reply =
  r_err :: "errno + int"
  r_lookup :: "(u32 \<times> u64) option"
  r_data :: "u8 list"
  r_attr :: "attr_val option"
  r_attrAll :: "attrAll option"
  r_rsp :: "shmsrv_create_rsp option"

definition no_reply :: reply where
  "no_reply = \<lparr>r_err = Inr 0, r_lookup = None, r_data = [], r_attr = None, r_attrAll = None,
     r_rsp = None\<rparr>"

abbreviation fail :: "errno \<Rightarrow> reply" where
  "fail e \<equiv> no_reply\<lparr>r_err := Inl e\<rparr>"

text \<open>\<open>(int)n\<close> of a \<open>size_t\<close>.\<close>

definition to_int :: "u64 \<Rightarrow> int" where
  "to_int n = sint (ucast n :: u32)"

subsection \<open>Objects\<close>

definition obj_find :: "srv \<Rightarrow> u32 \<Rightarrow> shm_obj option" where
  "obj_find s i = List.find (\<lambda>ob. oid_no ob = i) (objs s)"

definition obj_oid :: "shm_obj \<Rightarrow> u64" where
  "obj_oid ob = ucast (oid_no ob)"

text \<open>Objects are reached through \<^const>\<open>obj_find\<close> only, so the pointer the code holds is the
  first object of the list with its number.\<close>

fun obj_store :: "shm_obj \<Rightarrow> shm_obj list \<Rightarrow> shm_obj list" where
  "obj_store ob [] = []"
| "obj_store ob (p # ps) = (if oid_no p = oid_no ob then ob # ps else p # obj_store ob ps)"

fun obj_unlink :: "u32 \<Rightarrow> shm_obj list \<Rightarrow> shm_obj list" where
  "obj_unlink i [] = []"
| "obj_unlink i (p # ps) = (if oid_no p = i then ps else p # obj_unlink i ps)"

definition put_obj :: "shm_obj \<Rightarrow> srv \<Rightarrow> srv" where
  "put_obj ob s = s\<lparr>objs := obj_store ob (objs s)\<rparr>"

definition obj_destroy :: "srv \<Rightarrow> shm_obj \<Rightarrow> srv" where
  "obj_destroy s ob =
     (let s1 = (if exported ob \<noteq> 0 then s\<lparr>calls := calls s @ [MemUnexport (obj_oid ob)]\<rparr> else s);
          s2 = (if cap ob \<noteq> 0
                then s1\<lparr>calls := calls s1 @ [Munmap (obj_oid ob) (cap ob)], bytes := bytes s1 - cap ob\<rparr>
                else s1)
      in s2\<lparr>objs := obj_unlink (oid_no ob) (objs s2), live := live s2 - 1,
            destroyed := destroyed s2 + 1\<rparr>)"

definition round_pages :: "u64 \<Rightarrow> u64" where
  "round_pages n = (n + SHM_PAGE - 1) AND NOT (SHM_PAGE - 1)"

partial_function (option) pow2_loop :: "u64 \<Rightarrow> u64 \<Rightarrow> u64 option" where
  "pow2_loop c n = (if c < n then pow2_loop (push_bit 1 c) n else Some c)"

declare pow2_loop.simps [code]

definition pow2_pages :: "u64 \<Rightarrow> u64 option" where
  "pow2_pages n = pow2_loop SHM_MIN_CAP n"

text \<open>Accesses to an object's memory, with their bounds.\<close>

definition in_cap :: "shm_obj \<Rightarrow> u64 \<Rightarrow> u64 \<Rightarrow> bool" where
  "in_cap ob off n \<longleftrightarrow> unat off + unat n \<le> unat (cap ob)"

definition zero_va :: "shm_obj \<Rightarrow> u64 \<Rightarrow> u64 \<Rightarrow> shm_obj option" where
  "zero_va ob off n = (if in_cap ob off n
     then Some (ob\<lparr>va := \<lambda>i. if off \<le> i \<and> unat i < unat off + unat n then 0 else va ob i\<rparr>)
     else None)"

definition read_va :: "shm_obj \<Rightarrow> u64 \<Rightarrow> u64 \<Rightarrow> u8 list option" where
  "read_va ob off n = (if in_cap ob off n
     then Some (map (\<lambda>k. va ob (off + of_nat k)) [0..<unat n]) else None)"

definition write_va :: "shm_obj \<Rightarrow> u64 \<Rightarrow> u64 \<Rightarrow> u8 list \<Rightarrow> shm_obj option" where
  "write_va ob off n d = (if in_cap ob off n \<and> unat n \<le> length d
     then Some (ob\<lparr>va := \<lambda>i. if off \<le> i \<and> unat i < unat off + unat n
                               then d ! (unat i - unat off) else va ob i\<rparr>)
     else None)"

subsection \<open>Truncation\<close>

text \<open>The first size allocates; a later one must stay within the capacity.\<close>

definition obj_alloc :: "env \<Rightarrow> shm_obj \<Rightarrow> u64 \<Rightarrow> u64 \<Rightarrow> (errno + shm_obj \<times> u64) option" where
  "obj_alloc e ob sz ex =
     (if cap ob = 0 \<and> sz \<noteq> 0
      then do {
        c \<leftarrow> pow2_pages ex;
        Some (if env_mmap e then Inr (ob\<lparr>va := \<lambda>_. 0, cap := c\<rparr>, c) else Inl ENOMEM)
      }
      else if ex > cap ob then Some (Inl EFBIG)
      else Some (Inr (ob, 0)))"

definition obj_shrink :: "shm_obj \<Rightarrow> u64 \<Rightarrow> shm_obj option" where
  "obj_shrink ob sz =
     (if cap ob \<noteq> 0 \<and> sz < osize ob then zero_va ob sz (osize ob - sz) else Some ob)"

definition obj_export :: "env \<Rightarrow> shm_obj \<Rightarrow> u64 \<Rightarrow> shm_obj \<times> kernel_call list \<times> errno option" where
  "obj_export e ob ex =
     (if ex = exported ob then (ob, [], None)
      else let ks = (if exported ob \<noteq> 0 then [MemUnexport (obj_oid ob)] else []);
               ob1 = ob\<lparr>exported := 0\<rparr>
           in if ex = 0 then (ob1, ks, None)
              else case env_export e of
                None \<Rightarrow> (ob1\<lparr>exported := ex\<rparr>, ks @ [MemExport (obj_oid ob) ex], None)
              | Some er \<Rightarrow> (ob1, ks @ [MemExportFailed (obj_oid ob) ex], Some er))"

definition obj_truncate :: "env \<Rightarrow> srv \<Rightarrow> shm_obj \<Rightarrow> u64 \<Rightarrow> (srv \<times> (errno + int)) option" where
  "obj_truncate e s ob sz =
     (let ex = round_pages sz in
      if sz > SHMSRV_MAX_BYTES then Some (s, Inl EFBIG)
      else do {
        r \<leftarrow> obj_alloc e ob sz ex;
        case r of
          Inl er \<Rightarrow> Some (s, Inl er)
        | Inr (ob1, added) \<Rightarrow> do {
            ob2 \<leftarrow> obj_shrink ob1 sz;
            case obj_export e ob2 ex of
              (ob3, ks, rc) \<Rightarrow>
                (let s1 = s\<lparr>bytes := bytes s + added, calls := calls s @ ks\<rparr>
                 in case rc of
                      Some er \<Rightarrow> Some (put_obj ob3 s1, Inl er)
                    | None \<Rightarrow> Some (put_obj (ob3\<lparr>osize := sz\<rparr>) s1, Inr 0))
          }
      })"

subsection \<open>Handlers\<close>

definition attr_all :: "env \<Rightarrow> srv \<Rightarrow> msg \<Rightarrow> shm_obj option \<Rightarrow> reply" where
  "attr_all e s m ob =
     (if o_null m \<or> o_size m < env_attr_size e then fail EINVAL
      else no_reply\<lparr>r_attrAll := Some
        \<lparr>a_mode = (case ob of None \<Rightarrow> S_IFDIR 0x16d | Some _ \<Rightarrow> S_IFREG 0x180),
         a_size = (case ob of None \<Rightarrow> 0 | Some x \<Rightarrow> osize x),
         a_blocks = (case ob of None \<Rightarrow> 0 | Some x \<Rightarrow> cap x div 512),
         a_ioblock = SHM_PAGE,
         a_type = (case ob of None \<Rightarrow> otDir | Some _ \<Rightarrow> otFile),
         a_port = srv_port s, a_dev = srv_port s, a_links = 1, a_time = env_now e,
         a_pollStatus = EINVAL, a_eventMask = EINVAL\<rparr>\<rparr>)"

text \<open>The part of the C library the name lookup uses, over byte strings without their
  terminator: \<open>strnlen\<close>, and \<open>strtoul\<close> in base 10 with the value and the unparsed rest.\<close>

definition is_space :: "u8 \<Rightarrow> bool" where
  "is_space c \<longleftrightarrow> c = 32 \<or> 9 \<le> c \<and> c \<le> 13"

definition is_digit :: "u8 \<Rightarrow> bool" where
  "is_digit c \<longleftrightarrow> 48 \<le> c \<and> c \<le> 57"

definition strnlen :: "u8 list \<Rightarrow> u64 \<Rightarrow> nat" where
  "strnlen d n = length (takeWhile (\<lambda>c. c \<noteq> 0) (take (unat n) d))"

definition decimal :: "u8 list \<Rightarrow> nat" where
  "decimal ds = foldl (\<lambda>a c. 10 * a + (unat c - 48)) 0 ds"

definition strtoul :: "u8 list \<Rightarrow> u64 \<times> u8 list" where
  "strtoul str =
     (let t = dropWhile is_space str;
          neg = (t \<noteq> [] \<and> hd t = 45);
          t1 = (if t \<noteq> [] \<and> (hd t = 45 \<or> hd t = 43) then tl t else t);
          ds = takeWhile is_digit t1;
          v = decimal ds
      in if ds = [] then (0, str)
         else (if 2 ^ 64 \<le> v then - 1 else if neg then - of_nat v else of_nat v,
               dropWhile is_digit t1))"

definition handle_lookup :: "srv \<Rightarrow> msg \<Rightarrow> reply" where
  "handle_lookup s m =
     (let d = (case i_data m of None \<Rightarrow> [] | Some d \<Rightarrow> d);
          len = (case i_data m of None \<Rightarrow> 0 | Some d \<Rightarrow> strnlen d (i_size m))
      in if len = 0 \<or> 16 \<le> len then fail ENOENT
         else case strtoul (take len d) of
           (i, rest) \<Rightarrow>
             if rest \<noteq> [] \<or> i = 0 \<or> obj_find s (ucast i) = None then fail ENOENT
             else no_reply\<lparr>r_err := Inr (int len), r_lookup := Some (srv_port s, i)\<rparr>)"

definition handle_open :: "srv \<Rightarrow> bool \<Rightarrow> shm_obj option \<Rightarrow> srv \<times> reply" where
  "handle_open s is_root ob =
     (case ob of
        Some x \<Rightarrow> (put_obj (x\<lparr>opens := opens x + 1\<rparr>) s, no_reply)
      | None \<Rightarrow> (s, if is_root then no_reply else fail ENOENT))"

definition handle_close :: "srv \<Rightarrow> shm_obj option \<Rightarrow> srv \<times> reply" where
  "handle_close s ob =
     (case ob of
        None \<Rightarrow> (s, no_reply)
      | Some x \<Rightarrow>
          let y = (if opens x > 0 then x\<lparr>opens := opens x - 1\<rparr> else x);
              s1 = put_obj y s
          in (if opens y = 0 then obj_destroy s1 y else s1, no_reply))"

definition handle_read :: "msg \<Rightarrow> shm_obj option \<Rightarrow> reply option" where
  "handle_read m ob =
     (case ob of
        None \<Rightarrow> Some (fail EINVAL)
      | Some x \<Rightarrow>
          let off = io_offs m;
              n0 = (if off < osize x then osize x - off else 0);
              n = (if n0 < o_size m then n0 else o_size m)
          in if n = 0 then Some (no_reply\<lparr>r_err := Inr (to_int n)\<rparr>)
             else if o_null m then None
             else do {
               d \<leftarrow> read_va x off n;
               Some (no_reply\<lparr>r_err := Inr (to_int n), r_data := d\<rparr>)
             })"

definition handle_write :: "srv \<Rightarrow> msg \<Rightarrow> shm_obj option \<Rightarrow> (srv \<times> reply) option" where
  "handle_write s m ob =
     (case ob of
        None \<Rightarrow> Some (s, fail EINVAL)
      | Some x \<Rightarrow>
          let off = io_offs m;
              n0 = (if off < osize x then osize x - off else 0);
              n = (if n0 < i_size m then n0 else i_size m)
          in if n = 0 then Some (s, if i_size m = 0 then no_reply else fail EFBIG)
             else do {
               d \<leftarrow> i_data m;
               y \<leftarrow> write_va x off n d;
               Some (put_obj y s, no_reply\<lparr>r_err := Inr (to_int n)\<rparr>)
             })"

definition handle_getattr :: "msg \<Rightarrow> bool \<Rightarrow> shm_obj option \<Rightarrow> reply" where
  "handle_getattr m is_root ob =
     (if \<not> is_root \<and> ob = None then fail ENOENT
      else if i_attr m = atMode
      then no_reply\<lparr>r_attr := Some (AttrMode (if is_root then S_IFDIR 0x16d else S_IFREG 0x180))\<rparr>
      else if i_attr m = atType
      then no_reply\<lparr>r_attr := Some (AttrType (if is_root then otDir else otFile))\<rparr>
      else fail EINVAL)"

definition new_obj :: "u32 \<Rightarrow> shm_obj" where
  "new_obj i = \<lparr>oid_no = i, opens = 0, osize = 0, exported = 0, cap = 0, va = \<lambda>_. 0\<rparr>"

definition handle_devctl :: "env \<Rightarrow> srv \<Rightarrow> msg \<Rightarrow> srv \<times> reply" where
  "handle_devctl e s m =
     (let rsp = \<lparr>rsp_err = None, rsp_id = 0, rsp_live = 0, rsp_bytes = 0\<rparr>;
          stats = rsp\<lparr>rsp_live := live s, rsp_bytes := bytes s, rsp_id := next_id s - 1\<rparr>;
          op = req_op (i_raw m);
          (s', rsp') =
            (if m_id m \<noteq> 0 then (s, rsp\<lparr>rsp_err := Some EINVAL\<rparr>)
             else if op = SHMSRV_OP_CREATE then
               (if req_proto (i_raw m) \<noteq> SHMSRV_PROTO then (s, rsp\<lparr>rsp_err := Some EPROTO\<rparr>)
                else if \<not> env_calloc e then (s, rsp\<lparr>rsp_err := Some ENOMEM\<rparr>)
                else (s\<lparr>objs := new_obj (next_id s) # objs s, next_id := next_id s + 1,
                        live := live s + 1, created := created s + 1\<rparr>,
                      rsp\<lparr>rsp_id := next_id s\<rparr>))
             else if op = SHMSRV_OP_STATS \<or> op = SHMSRV_OP_QUIT then
               (if op = SHMSRV_OP_QUIT then s\<lparr>quit := True\<rparr> else s, stats)
             else (s, rsp\<lparr>rsp_err := Some ENOSYS\<rparr>))
      in (s', no_reply\<lparr>r_rsp := Some rsp',
            r_err := (case rsp_err rsp' of None \<Rightarrow> Inr 0 | Some er \<Rightarrow> Inl er)\<rparr>))"

definition handle :: "env \<Rightarrow> srv \<Rightarrow> msg \<Rightarrow> (srv \<times> reply) option" where
  "handle e s m =
     (let is_root = (m_id m = 0);
          ob = (if m_id m \<noteq> 0 then obj_find s (ucast (m_id m)) else None)
      in case m_type m of
           mtLookup \<Rightarrow> Some (s, handle_lookup s m)
         | mtOpen \<Rightarrow> Some (handle_open s is_root ob)
         | mtClose \<Rightarrow> Some (handle_close s ob)
         | mtTruncate \<Rightarrow>
             (case ob of
                None \<Rightarrow> Some (s, fail EINVAL)
              | Some x \<Rightarrow> do {
                  (s', rc) \<leftarrow> obj_truncate e s x (io_len m);
                  Some (s', no_reply\<lparr>r_err := rc\<rparr>)
                })
         | mtRead \<Rightarrow> do { r \<leftarrow> handle_read m ob; Some (s, r) }
         | mtWrite \<Rightarrow> handle_write s m ob
         | mtGetAttr \<Rightarrow> Some (s, handle_getattr m is_root ob)
         | mtGetAttrAll \<Rightarrow>
             Some (s, if \<not> is_root \<and> ob = None then fail ENOENT else attr_all e s m ob)
         | mtDevCtl \<Rightarrow> Some (handle_devctl e s m)
         | mtOther \<Rightarrow> Some (s, fail ENOSYS))"

text \<open>The server loop over the messages that arrive, until one of them asks it to quit.\<close>

fun serve :: "srv \<Rightarrow> (env \<times> msg) list \<Rightarrow> (srv \<times> reply list) option" where
  "serve s [] = Some (s, [])"
| "serve s ((e, m) # ms) =
     (if quit s then Some (s, [])
      else do {
        (s1, r) \<leftarrow> handle e s m;
        (s2, rs) \<leftarrow> serve s1 ms;
        Some (s2, r # rs)
      })"

text \<open>The client side of \<open>-s\<close> and \<open>-q\<close>: the exit code, with \<open>lookup\<close> (the server's port) and
  \<open>msgSend\<close> (what the reply's raw area holds) as parameters. The other fields are those of a
  message cleared to zero.\<close>

definition client_op ::
  "(string \<Rightarrow> u32 option) \<Rightarrow> (u32 \<Rightarrow> msg \<Rightarrow> shmsrv_create_rsp option) \<Rightarrow> u32 \<Rightarrow> int"
where
  "client_op lookup msgSend op =
     (case lookup ''/shm'' of
        None \<Rightarrow> 1
      | Some port \<Rightarrow>
          (case msgSend port
             \<lparr>m_type = mtDevCtl, m_id = 0, i_data = None, i_size = 0, io_len = 0, io_offs = 0,
              i_attr = atMode, i_raw = \<lparr>req_op = op, req_proto = SHMSRV_PROTO\<rparr>, o_null = True,
              o_size = 0\<rparr> of
             None \<Rightarrow> 1
           | Some rsp \<Rightarrow> if rsp_err rsp = None then 0 else 1))"

subsection \<open>Sizes\<close>

lemma and_not_mask_unat:
  fixes x :: "'a::len word"
  shows "unat (x AND NOT (mask k)) = unat x - unat x mod 2 ^ k"
proof -
  have "x AND NOT (mask k) = push_bit k (drop_bit k x)"
    by (rule bit_word_eqI) (auto simp: bit_simps)
  then have "(x AND NOT (mask k)) + take_bit k x = x" by (simp add: bits_ident)
  then have "x AND NOT (mask k) = x - take_bit k x" by (metis add_diff_cancel)
  moreover have "take_bit k x \<le> x"
    by (simp add: word_le_nat_alt unsigned_take_bit_eq)
  ultimately show ?thesis
    by (simp only: unat_sub unsigned_take_bit_eq) (simp only: take_bit_eq_mod)
qed

lemma max_bytes [simp]: "SHMSRV_MAX_BYTES = 2 ^ 28" "unat SHMSRV_MAX_BYTES = 2 ^ 28"
  by (simp_all add: SHMSRV_MAX_BYTES_def push_bit_eq_mult)

lemma round_pages_unat:
  assumes "sz \<le> SHMSRV_MAX_BYTES"
  shows "unat (round_pages sz) = (unat sz + 4095) div 4096 * 4096"
proof -
  have le: "unat sz \<le> 2 ^ 28" using assms by (simp add: word_le_nat_alt)
  have m: "(4095::u64) = mask 12" by (simp add: mask_eq_exp_minus_1)
  have "unat (round_pages sz) = unat (sz + 4095) - unat (sz + 4095) mod 2 ^ 12"
    unfolding round_pages_def SHM_PAGE_def and_not_mask_unat [symmetric] m [symmetric]
    by (simp add: add.commute)
  moreover have "unat (sz + 4095) = unat sz + 4095"
    using le by (subst unat_plus_if') auto
  ultimately show ?thesis by (simp add: minus_mod_eq_div_mult)
qed

lemma round_pages_bounds:
  assumes "sz \<le> SHMSRV_MAX_BYTES"
  shows "sz \<le> round_pages sz" "round_pages sz \<le> SHMSRV_MAX_BYTES"
    and "round_pages sz = 0 \<longleftrightarrow> sz = 0"
proof -
  let ?n = "unat sz"
  have le: "?n \<le> 2 ^ 28" using assms by (simp add: word_le_nat_alt)
  define q where "q = (?n + 4095) div 4096"
  define r where "r = (?n + 4095) mod 4096"
  have q: "?n + 4095 = q * 4096 + r" "r < 4096" by (simp_all add: q_def r_def)
  have u: "unat (round_pages sz) = q * 4096" using assms by (simp add: round_pages_unat q_def)
  show "sz \<le> round_pages sz" using q u by (simp add: word_le_nat_alt)
  have "q * 4096 \<le> 268435456" using q le by simp
  with u show "round_pages sz \<le> SHMSRV_MAX_BYTES"
    by (simp add: word_le_nat_alt del: max_bytes(1))
  have "q * 4096 = 0 \<longleftrightarrow> ?n = 0" using q by (cases q) auto
  with u show "round_pages sz = 0 \<longleftrightarrow> sz = 0" by (metis unat_eq_0)
qed

lemma pow2_loop_spec:
  assumes "k \<le> 28" and "n \<le> SHMSRV_MAX_BYTES"
  shows "\<exists>j. pow2_loop (2 ^ k) n = Some (2 ^ j) \<and> k \<le> j \<and> j \<le> 28 \<and> n \<le> 2 ^ j"
  using assms
proof (induction "28 - k" arbitrary: k)
  case 0
  then have "k = 28" by simp
  then have "pow2_loop (2 ^ k) n = Some (2 ^ k)" using 0 by (subst pow2_loop.simps) auto
  then show ?case using 0 \<open>k = 28\<close> by (auto intro!: exI [of _ 28])
next
  case (Suc d)
  show ?case
  proof (cases "(2 ^ k :: u64) < n")
    case True
    have k: "28 - Suc k = d" "Suc k \<le> 28" using Suc.hyps(2) by auto
    have "pow2_loop (2 ^ k) n = pow2_loop (2 ^ Suc k) n"
      using True by (subst pow2_loop.simps) (simp add: push_bit_eq_mult mult.commute)
    with Suc.hyps(1) [of "Suc k"] k Suc.prems(2) show ?thesis by (metis Suc_leD)
  next
    case False
    then have "pow2_loop (2 ^ k) n = Some (2 ^ k)" by (subst pow2_loop.simps) simp
    then show ?thesis using False Suc.prems by (auto intro!: exI [of _ k])
  qed
qed

lemma pow2_pages_spec:
  assumes "n \<le> SHMSRV_MAX_BYTES"
  shows "\<exists>j. pow2_pages n = Some (2 ^ j) \<and> 20 \<le> j \<and> j \<le> 28 \<and> n \<le> 2 ^ j"
proof -
  have "SHM_MIN_CAP = 2 ^ 20" by (simp add: SHM_MIN_CAP_def)
  then show ?thesis using pow2_loop_spec [of 20 n] assms by (simp add: pow2_pages_def)
qed

subsection \<open>Invariant\<close>

definition cap_ok :: "u64 \<Rightarrow> bool" where
  "cap_ok c \<longleftrightarrow> (\<exists>j. 20 \<le> j \<and> j \<le> 28 \<and> c = 2 ^ j)"

definition obj_ok :: "shm_obj \<Rightarrow> bool" where
  "obj_ok ob \<longleftrightarrow> (cap ob = 0 \<or> cap_ok (cap ob)) \<and> osize ob \<le> cap ob \<and>
     (exported ob = 0 \<or> exported ob = round_pages (osize ob)) \<and> exported ob \<le> cap ob \<and>
     (\<forall>i. osize ob \<le> i \<longrightarrow> va ob i = 0)"

definition accounted :: "srv \<Rightarrow> bool" where
  "accounted s \<longleftrightarrow> live s = of_nat (length (objs s)) \<and> bytes s = sum_list (map cap (objs s)) \<and>
     created s = destroyed s + of_nat (length (objs s))"

definition shm_inv :: "srv \<Rightarrow> bool" where
  "shm_inv s \<longleftrightarrow> (\<forall>ob \<in> set (objs s). obj_ok ob) \<and> accounted s"

text \<open>What message passing guarantees of the buffers of a message.\<close>

definition msg_ok :: "msg \<Rightarrow> bool" where
  "msg_ok m \<longleftrightarrow> (case i_data m of None \<Rightarrow> i_size m = 0 | Some d \<Rightarrow> length d = unat (i_size m)) \<and>
     (o_null m \<longrightarrow> o_size m = 0)"

lemma cap_ok_le: "cap_ok c \<Longrightarrow> c \<le> SHMSRV_MAX_BYTES"
  using power_increasing [of _ 28 "2::nat"]
  unfolding cap_ok_def word_le_nat_alt max_bytes(2) by (auto simp: unat_exp)

lemma obj_ok_le: "obj_ok ob \<Longrightarrow> cap ob \<le> SHMSRV_MAX_BYTES \<and> osize ob \<le> SHMSRV_MAX_BYTES"
  unfolding obj_ok_def using cap_ok_le by (metis order_trans word_zero_le)

lemma obj_ok_new [simp]: "obj_ok (new_obj i)"
  by (simp add: obj_ok_def new_obj_def)

lemma find_SomeD: "List.find P xs = Some x \<Longrightarrow> x \<in> set xs \<and> P x"
  by (auto simp: find_Some_iff)

lemma obj_store_length [simp]: "length (obj_store ob os) = length os"
  by (induction os) auto

lemma obj_store_ids [simp]: "map oid_no (obj_store ob os) = map oid_no os"
  by (induction os) auto

lemma obj_store_set: "set (obj_store ob os) \<subseteq> insert ob (set os)"
  by (induction os) auto

lemma obj_store_caps:
  assumes "List.find (\<lambda>p. oid_no p = i) os = Some x" and "oid_no y = i"
  shows "sum_list (map cap (obj_store y os)) = sum_list (map cap os) + cap y - cap x"
  using assms by (induction os) (auto split: if_splits simp: algebra_simps)

lemma obj_unlink_set: "set (obj_unlink i os) \<subseteq> set os"
  by (induction os) auto

lemma obj_unlink_found:
  assumes "List.find (\<lambda>p. oid_no p = i) os = Some x"
  shows "length os = Suc (length (obj_unlink i os))"
    and "sum_list (map cap (obj_unlink i os)) = sum_list (map cap os) - cap x"
  using assms by (induction os) (auto split: if_splits simp: algebra_simps)

lemma find_obj_store:
  assumes "List.find (\<lambda>p. oid_no p = oid_no y) os \<noteq> None"
  shows "List.find (\<lambda>p. oid_no p = j) (obj_store y os) =
    (if j = oid_no y then Some y else List.find (\<lambda>p. oid_no p = j) os)"
  using assms by (induction os) (auto split: if_splits)

lemma put_obj_simps [simp]:
  "objs (put_obj y s) = obj_store y (objs s)" "live (put_obj y s) = live s"
  "bytes (put_obj y s) = bytes s" "created (put_obj y s) = created s"
  "destroyed (put_obj y s) = destroyed s" "next_id (put_obj y s) = next_id s"
  "calls (put_obj y s) = calls s" "srv_port (put_obj y s) = srv_port s" "quit (put_obj y s) = quit s"
  by (simp_all add: put_obj_def)

lemma put_obj_inv:
  assumes "shm_inv s" and "obj_find s i = Some x" and "oid_no y = i" and "obj_ok y"
    and "cap y = cap x + c"
  shows "shm_inv (put_obj y (s\<lparr>bytes := bytes s + c, calls := ks\<rparr>))"
  using assms obj_store_set [of y "objs s"] obj_store_caps [of i "objs s" x y]
  by (auto simp: shm_inv_def accounted_def obj_find_def algebra_simps)

lemma put_obj_inv0:
  assumes "shm_inv s" and "obj_find s i = Some x" and "oid_no y = i" and "obj_ok y"
    and "cap y = cap x"
  shows "shm_inv (put_obj y s)"
  using put_obj_inv [of s i x y 0 "calls s"] assms by simp

lemma obj_destroy_simps:
  "objs (obj_destroy s x) = obj_unlink (oid_no x) (objs s)" "live (obj_destroy s x) = live s - 1"
  "bytes (obj_destroy s x) = bytes s - cap x" "created (obj_destroy s x) = created s"
  "destroyed (obj_destroy s x) = destroyed s + 1" "next_id (obj_destroy s x) = next_id s"
  by (simp_all add: obj_destroy_def Let_def)

lemma obj_destroy_inv:
  assumes "shm_inv s" and "obj_find s (oid_no x) = Some x"
  shows "shm_inv (obj_destroy s x)"
proof -
  note f = obj_unlink_found [OF assms(2) [unfolded obj_find_def]]
  show ?thesis
    using assms(1) f obj_unlink_set [of "oid_no x" "objs s"]
    by (auto simp: shm_inv_def accounted_def obj_destroy_simps)
qed

lemma obj_ok_update [simp]:
  "obj_ok (x\<lparr>opens := n\<rparr>) \<longleftrightarrow> obj_ok x"
  by (simp add: obj_ok_def)

lemma obj_alloc_ok:
  assumes "obj_ok x" and "sz \<le> SHMSRV_MAX_BYTES"
  obtains er where "obj_alloc e x sz (round_pages sz) = Some (Inl er)"
  | y c where "obj_alloc e x sz (round_pages sz) = Some (Inr (y, c))" "obj_ok y"
      "cap y = cap x + c" "round_pages sz \<le> cap y" "oid_no y = oid_no x" "osize y = osize x"
      "exported y = exported x" "osize x \<noteq> 0 \<Longrightarrow> va y = va x"
proof (cases "cap x = 0 \<and> sz \<noteq> 0")
  case True
  obtain j where j: "pow2_pages (round_pages sz) = Some (2 ^ j)" "20 \<le> j" "j \<le> 28"
      "round_pages sz \<le> 2 ^ j"
    using pow2_pages_spec round_pages_bounds(2) [OF assms(2)] by metis
  have z: "osize x = 0" "exported x = 0" using True assms(1) by (auto simp: obj_ok_def)
  show thesis
  proof (cases "env_mmap e")
    case t: True
    show thesis
      by (rule that(2) [of "x\<lparr>va := \<lambda>_. 0, cap := 2 ^ j\<rparr>" "2 ^ j"])
        (use True t j z in \<open>auto simp: obj_alloc_def obj_ok_def cap_ok_def\<close>)
  next
    case False
    with True j that(1) show thesis by (simp add: obj_alloc_def)
  qed
next
  case False
  show thesis
  proof (cases "cap x < round_pages sz")
    case True
    with False that(1) [of EFBIG] show thesis by (auto simp: obj_alloc_def)
  next
    case nl: False
    show thesis
      by (rule that(2) [of x 0]) (use False nl assms in \<open>auto simp: obj_alloc_def\<close>)
  qed
qed

text \<open>Shrinking clears what is cut off, whatever the new size does later.\<close>

lemma obj_shrink_ok:
  assumes "obj_ok x"
  obtains y where "obj_shrink x sz = Some y" "obj_ok y" "cap y = cap x" "oid_no y = oid_no x"
    "osize y = osize x" "exported y = exported x"
    "va y = (\<lambda>i. if sz \<le> i then (if sz < osize x then 0 else va x i) else va x i)"
proof (cases "cap x \<noteq> 0 \<and> sz < osize x")
  case True
  let ?y = "x\<lparr>va := \<lambda>i. if sz \<le> i \<and> unat i < unat sz + unat (osize x - sz) then 0 else va x i\<rparr>"
  have u: "unat sz + unat (osize x - sz) = unat (osize x)"
    using True by (simp add: unat_sub word_less_nat_alt word_le_nat_alt)
  have "in_cap x sz (osize x - sz)"
    unfolding in_cap_def u using assms by (simp add: obj_ok_def word_le_nat_alt)
  then have s: "obj_shrink x sz = Some ?y" using True by (simp add: obj_shrink_def zero_va_def)
  have "va ?y = (\<lambda>i. if sz \<le> i then (if sz < osize x then 0 else va x i) else va x i)"
    unfolding u using assms True by (auto simp: obj_ok_def fun_eq_iff simp flip: word_less_nat_alt)
  moreover have "obj_ok ?y" using assms by (simp add: obj_ok_def)
  ultimately show thesis by (intro that [OF s]) simp_all
next
  case False
  then have "obj_shrink x sz = Some x" by (auto simp: obj_shrink_def)
  moreover have "va x = (\<lambda>i. if sz \<le> i then (if sz < osize x then 0 else va x i) else va x i)"
    using False assms by (auto simp: obj_ok_def fun_eq_iff)
  ultimately show thesis using that assms by blast
qed

lemma obj_export_ok:
  assumes "obj_export e x ex = (y, ks, rc)"
  shows "y = x\<lparr>exported := (if rc = None then ex else 0)\<rparr>" and "rc \<noteq> None \<Longrightarrow> ex \<noteq> 0"
  using assms by (auto simp: obj_export_def Let_def split: if_splits option.splits)

definition contents :: "shm_obj \<Rightarrow> u8 list" where
  "contents x = map (\<lambda>k. va x (of_nat k)) [0..<unat (osize x)]"

lemma contents_length [simp]: "length (contents x) = unat (osize x)"
  by (simp add: contents_def)

definition file_truncate :: "nat \<Rightarrow> u8 list \<Rightarrow> u8 list" where
  "file_truncate n d = take n d @ replicate (n - length d) 0"

lemma nth_file_truncate:
  "k < n \<Longrightarrow> file_truncate n d ! k = (if k < length d then d ! k else 0)"
  by (auto simp: file_truncate_def nth_append)

lemma length_file_truncate [simp]: "length (file_truncate n d) = n"
  by (auto simp: file_truncate_def)

lemma unat_of_nat_below: "k < unat (n :: u64) \<Longrightarrow> unat (of_nat k :: u64) = k"
  using unsigned_less [of n, where 'a = nat]
  by (simp add: unsigned_of_nat take_bit_nat_eq_self)

lemma of_nat_below_iff:
  fixes n m :: u64
  assumes "k < unat n"
  shows "m \<le> of_nat k \<longleftrightarrow> unat m \<le> k"
  using unat_of_nat_below [OF assms] by (simp add: word_le_nat_alt)

lemma contents_resize:
  assumes "obj_ok x"
    and "va y = (\<lambda>i. if sz \<le> i then (if sz < osize x then 0 else va x i) else va x i)"
  shows "osize y = sz \<Longrightarrow> contents y = file_truncate (unat sz) (contents x)"
    and "osize y = osize x \<Longrightarrow>
      contents y = file_truncate (length (contents x)) (take (unat sz) (contents x))"
proof -
  have z: "va x i = 0" if "osize x \<le> i" for i using that assms(1) by (simp add: obj_ok_def)
  show "contents y = file_truncate (unat sz) (contents x)" if "osize y = sz"
    by (rule nth_equalityI)
      (use assms(2) that z in \<open>auto simp: nth_file_truncate of_nat_below_iff [of _ sz]\<close>,
       auto simp: contents_def of_nat_below_iff [of _ sz] assms(2) intro!: z)
  show "contents y = file_truncate (length (contents x)) (take (unat sz) (contents x))"
    if "osize y = osize x"
    by (rule nth_equalityI)
      (use that in \<open>auto simp: nth_file_truncate\<close>,
       auto simp: contents_def of_nat_below_iff [of _ "osize x"] word_less_nat_alt assms(2))
qed

text \<open>Truncation: what the object is afterwards, on every path.\<close>

lemma obj_truncate_ok:
  assumes inv: "shm_inv s" and x: "obj_find s i = Some x"
  obtains (refused) er where "obj_truncate e s x sz = Some (s, Inl er)"
  | (failed) y ks c er where
      "obj_truncate e s x sz =
        Some (put_obj y (s\<lparr>bytes := bytes s + c, calls := calls s @ ks\<rparr>), Inl er)"
      "obj_ok y" "oid_no y = i" "cap y = cap x + c" "exported y = 0" "osize y = osize x"
      "contents y = file_truncate (length (contents x)) (take (unat sz) (contents x))"
      "\<exists>ob. oid_no ob = i \<and> exported ob = exported x \<and> obj_export e ob (round_pages sz) = (ob\<lparr>exported := 0\<rparr>, ks, Some er)"
  | (applied) y ks c where
      "obj_truncate e s x sz =
        Some (put_obj y (s\<lparr>bytes := bytes s + c, calls := calls s @ ks\<rparr>), Inr 0)"
      "obj_ok y" "oid_no y = i" "cap y = cap x + c" "exported y = round_pages sz" "osize y = sz"
      "contents y = file_truncate (unat sz) (contents x)"
      "\<exists>ob. oid_no ob = i \<and> exported ob = exported x \<and> obj_export e ob (round_pages sz) = (ob\<lparr>exported := round_pages sz\<rparr>, ks, None)"
proof (cases "sz \<le> SHMSRV_MAX_BYTES")
  case False
  then have "obj_truncate e s x sz = Some (s, Inl EFBIG)"
    by (simp add: obj_truncate_def not_le)
  then show thesis by (rule refused)
next
  case True
  have ok: "obj_ok x" using inv x find_SomeD by (fastforce simp: shm_inv_def obj_find_def)
  have id: "oid_no x = i" using x find_SomeD by (fastforce simp: obj_find_def)
  let ?ex = "round_pages sz"
  have lt: "(sz > SHMSRV_MAX_BYTES) = False" using True by auto
  from ok True show thesis
  proof (cases rule: obj_alloc_ok [where e = e])
    case (1 er)
    then show thesis by (intro refused [of er]) (simp add: obj_truncate_def lt Let_def del: max_bytes)
  next
    case (2 y1 c)
    from \<open>obj_ok y1\<close> obtain y2 where y2: "obj_shrink y1 sz = Some y2" "obj_ok y2" "cap y2 = cap y1"
        "oid_no y2 = oid_no y1" "osize y2 = osize y1" "exported y2 = exported y1"
        "va y2 = (\<lambda>i. if sz \<le> i then (if sz < osize y1 then 0 else va y1 i) else va y1 i)"
      by (rule obj_shrink_ok)
    obtain y3 ks rc where y3: "obj_export e y2 ?ex = (y3, ks, rc)" by (metis prod_cases3)
    note ex = obj_export_ok [OF y3]
    have szle: "sz \<le> cap y2"
      using round_pages_bounds(1) [OF True] 2(4) y2(3) by simp
    have z: "va y2 i = 0" if "sz \<le> i" for i
      using that \<open>obj_ok y1\<close> y2(7) by (auto simp: obj_ok_def)
    have cx: "contents y1 = contents x"
      using 2(6,8) by (cases "osize x = 0") (simp_all add: contents_def)
    show thesis
    proof (cases rc)
      case None
      let ?y = "y2\<lparr>exported := ?ex, osize := sz\<rparr>"
      have y: "y3 = y2\<lparr>exported := ?ex\<rparr>" using ex None by simp
      have eq: "obj_truncate e s x sz =
          Some (put_obj ?y (s\<lparr>bytes := bytes s + c, calls := calls s @ ks\<rparr>), Inr 0)"
        using 2(1) y2(1) y3 None by (simp add: obj_truncate_def lt Let_def y del: max_bytes)
      show thesis
      proof (rule applied [OF eq])
        show "obj_ok ?y"
          using \<open>obj_ok y2\<close> szle z 2(4) y2(3) by (simp add: obj_ok_def)
        show "contents ?y = file_truncate (unat sz) (contents x)"
          unfolding cx [symmetric]
          by (rule contents_resize(1) [OF \<open>obj_ok y1\<close>]) (simp_all add: y2(5,7))
        show "\<exists>ob. oid_no ob = i \<and> exported ob = exported x \<and>
            obj_export e ob ?ex = (ob\<lparr>exported := ?ex\<rparr>, ks, None)"
          using y3 None y y2(4,6) 2(5,7) id by (intro exI [of _ y2]) simp
      qed (use 2(3,5,6) y2(3-6) id in simp_all)
    next
      case (Some er)
      let ?y = "y2\<lparr>exported := 0\<rparr>"
      have y: "y3 = ?y" using ex Some by simp
      have eq: "obj_truncate e s x sz =
          Some (put_obj ?y (s\<lparr>bytes := bytes s + c, calls := calls s @ ks\<rparr>), Inl er)"
        using 2(1) y2(1) y3 Some by (simp add: obj_truncate_def lt Let_def y del: max_bytes)
      show thesis
      proof (rule failed [OF eq])
        show "obj_ok ?y" using \<open>obj_ok y2\<close> by (simp add: obj_ok_def)
        show "contents ?y = file_truncate (length (contents x)) (take (unat sz) (contents x))"
          unfolding cx [symmetric]
          by (rule contents_resize(2) [OF \<open>obj_ok y1\<close>]) (simp_all add: y2(5,7))
        show "\<exists>ob. oid_no ob = i \<and> exported ob = exported x \<and>
            obj_export e ob ?ex = (ob\<lparr>exported := 0\<rparr>, ks, Some er)"
          using y3 Some y y2(4,6) 2(5,7) id by (intro exI [of _ y2]) simp
      qed (use 2(3,5,6) y2(3-6) id in simp_all)
    qed
  qed
qed

subsection \<open>Objects as files\<close>

text \<open>What an object promises: a byte sequence read and written at an offset, never grown by
  writing.\<close>

definition file_read :: "nat \<Rightarrow> nat \<Rightarrow> u8 list \<Rightarrow> u8 list" where
  "file_read off n c = take n (drop off c)"

definition file_write :: "nat \<Rightarrow> u8 list \<Rightarrow> u8 list \<Rightarrow> u8 list" where
  "file_write off d c =
     (let w = take (length c - off) d in take off c @ w @ drop (off + length w) c)"

lemma length_file_write [simp]: "length (file_write off d c) = length c"
  by (auto simp: file_write_def Let_def)

lemma nth_file_write:
  "k < length c \<Longrightarrow>
     file_write off d c ! k = (if off \<le> k \<and> k < off + length d then d ! (k - off) else c ! k)"
  by (auto simp: file_write_def Let_def nth_append min_def)

lemma obj_find_ok: "shm_inv s \<Longrightarrow> obj_find s i = Some x \<Longrightarrow> obj_ok x"
  using find_SomeD by (fastforce simp: shm_inv_def obj_find_def)

lemma obj_find_id: "obj_find s i = Some x \<Longrightarrow> oid_no x = i"
  using find_SomeD by (fastforce simp: obj_find_def)

lemma to_int_small:
  assumes "n \<le> SHMSRV_MAX_BYTES"
  shows "to_int n = int (unat n)"
proof -
  have n: "unat n < 2 ^ 31" using assms by (simp add: word_le_nat_alt)
  then have "unat n < 2 ^ 32" by simp
  then have "unat (ucast n :: u32) = unat n"
    by (simp add: unsigned_ucast_eq take_bit_nat_eq_self_iff)
  with n show ?thesis by (simp only: to_int_def sint_u32_small)
qed

lemma to_int_0 [simp]: "to_int 0 = 0"
  by (simp add: to_int_def)

text \<open>The number of bytes an access at \<open>off\<close> of at most \<open>n\<close> bytes moves.\<close>

lemma io_count:
  fixes sz off n :: u64
  defines "k \<equiv> (if (if off < sz then sz - off else 0) < n then (if off < sz then sz - off else 0) else n)"
  shows "unat k = min (unat n) (unat sz - unat off)"
    and "k \<noteq> 0 \<Longrightarrow> unat off + unat k \<le> unat sz" and "k \<le> sz"
proof -
  have s: "unat (sz - off) = unat sz - unat off" if "off < sz"
    using that by (simp add: unat_sub word_less_nat_alt word_le_nat_alt)
  show u: "unat k = min (unat n) (unat sz - unat off)"
    using s by (auto simp: k_def word_less_nat_alt)
  show "k \<noteq> 0 \<Longrightarrow> unat off + unat k \<le> unat sz"
    using u unat_gt_0 [of k] by (auto simp: min_def split: if_splits)
  show "k \<le> sz" using u by (simp add: word_le_nat_alt)
qed

lemma va_contents:
  assumes "unat off + k < unat (osize x)"
  shows "va x (off + of_nat k) = contents x ! (unat off + k)"
  using assms by (simp add: contents_def)

lemma handle_read_spec:
  assumes "obj_ok x" and "msg_ok m"
  shows "handle_read m (Some x) =
    (let d = file_read (unat (io_offs m)) (unat (o_size m)) (contents x)
     in Some (no_reply\<lparr>r_err := Inr (int (length d)), r_data := d\<rparr>))"
proof -
  let ?off = "io_offs m"
  define n where "n = (if (if ?off < osize x then osize x - ?off else 0) < o_size m
    then (if ?off < osize x then osize x - ?off else 0) else o_size m)"
  note c = io_count [of ?off "osize x" "o_size m", folded n_def]
  have le: "n \<le> SHMSRV_MAX_BYTES" using c(3) obj_ok_le [OF assms(1)] order_trans by blast
  have len: "length (file_read (unat ?off) (unat (o_size m)) (contents x)) = unat n"
    using c(1) by (simp add: file_read_def)
  have eq: "handle_read m (Some x) =
      (if n = 0 then Some (no_reply\<lparr>r_err := Inr (to_int n)\<rparr>) else if o_null m then None
       else do { d \<leftarrow> read_va x ?off n; Some (no_reply\<lparr>r_err := Inr (to_int n), r_data := d\<rparr>) })"
    by (simp only: handle_read_def Let_def option.case n_def)
  show ?thesis
  proof (cases "n = 0")
    case True
    then have "file_read (unat ?off) (unat (o_size m)) (contents x) = []" using len by simp
    with True eq show ?thesis by (simp add: to_int_small [OF le] Let_def no_reply_def)
  next
    case False
    have "\<not> o_null m" using False assms(2) by (auto simp: msg_ok_def n_def)
    moreover have "unat (osize x) \<le> unat (cap x)"
      using assms(1) by (simp add: obj_ok_def word_le_nat_alt)
    then have "in_cap x ?off n" using c(2) False by (simp add: in_cap_def)
    moreover have "map (\<lambda>k. va x (?off + of_nat k)) [0..<unat n] =
        file_read (unat ?off) (unat (o_size m)) (contents x)"
      by (rule nth_equalityI) (use len c(2) False in \<open>auto simp: va_contents file_read_def\<close>)
    ultimately show ?thesis
      using False len by (simp add: eq read_va_def to_int_small [OF le] Let_def)
  qed
qed

lemma handle_write_spec:
  assumes "shm_inv s" and "obj_find s i = Some x" and "msg_ok m"
  obtains (none) r where "handle_write s m (Some x) = Some (s, r)"
      "r = (if i_size m = 0 then no_reply else fail EFBIG)"
      "unat (osize x) \<le> unat (io_offs m) \<or> i_size m = 0"
  | (some) d y where "i_data m = Some d" "oid_no y = i" "obj_ok y" "cap y = cap x"
      "exported y = exported x" "osize y = osize x"
      "contents y = file_write (unat (io_offs m)) d (contents x)"
      "handle_write s m (Some x) = Some (put_obj y s,
         no_reply\<lparr>r_err := Inr (int (min (length d) (unat (osize x) - unat (io_offs m))))\<rparr>)"
      "min (length d) (unat (osize x) - unat (io_offs m)) \<noteq> 0"
proof -
  let ?off = "io_offs m"
  define n where "n = (if (if ?off < osize x then osize x - ?off else 0) < i_size m
    then (if ?off < osize x then osize x - ?off else 0) else i_size m)"
  note c = io_count [of ?off "osize x" "i_size m", folded n_def]
  have ok: "obj_ok x" by (rule obj_find_ok [OF assms(1,2)])
  have le: "n \<le> SHMSRV_MAX_BYTES" using c(3) obj_ok_le [OF ok] order_trans by blast
  have eq: "handle_write s m (Some x) =
      (if n = 0 then Some (s, if i_size m = 0 then no_reply else fail EFBIG)
       else do { d \<leftarrow> i_data m; y \<leftarrow> write_va x ?off n d;
                 Some (put_obj y s, no_reply\<lparr>r_err := Inr (to_int n)\<rparr>) })"
    by (simp only: handle_write_def Let_def option.case n_def)
  show thesis
  proof (cases "n = 0")
    case True
    then have "unat (osize x) \<le> unat ?off \<or> i_size m = 0"
      using c(1) by (auto simp: min_def unat_eq_0 split: if_splits)
    with True none eq show thesis by simp
  next
    case False
    obtain d where d: "i_data m = Some d" "length d = unat (i_size m)"
      using False assms(3) by (auto simp: msg_ok_def n_def split: option.splits)
    let ?y = "x\<lparr>va := \<lambda>j. if ?off \<le> j \<and> unat j < unat ?off + unat n
      then d ! (unat j - unat ?off) else va x j\<rparr>"
    have oc: "unat (osize x) \<le> unat (cap x)" using ok by (simp add: obj_ok_def word_le_nat_alt)
    then have "in_cap x ?off n" using c(2) False by (simp add: in_cap_def)
    then have w: "write_va x ?off n d = Some ?y" using c(1) d by (simp add: write_va_def)
    have "obj_ok ?y"
      using ok c(2) [OF False] by (auto simp: obj_ok_def word_le_nat_alt)
    moreover have "contents ?y = file_write (unat ?off) d (contents x)"
    proof (rule nth_equalityI)
      fix k assume "k < length (contents ?y)"
      then have k: "k < unat (osize x)" by simp
      note u = unat_of_nat_below [OF k] of_nat_below_iff [OF k]
      have "contents ?y ! k = (if unat ?off \<le> k \<and> k < unat ?off + unat n
          then d ! (k - unat ?off) else contents x ! k)"
        using k by (simp add: contents_def u)
      moreover have "k < unat ?off + unat n \<longleftrightarrow> k < unat ?off + length d" if "unat ?off \<le> k"
        using k c(1) d(2) that by auto
      ultimately show "contents ?y ! k = file_write (unat ?off) d (contents x) ! k"
        using k by (simp only: nth_file_write contents_length) metis
    qed simp
    moreover have "min (length d) (unat (osize x) - unat ?off) \<noteq> 0"
      using False c(1) d(2) by (metis unat_eq_0)
    ultimately show thesis
      using False d w c(1) obj_find_id [OF assms(2)]
      by (intro some [of d ?y]) (simp_all add: eq to_int_small [OF le])
  qed
qed

subsection \<open>Server steps\<close>

text \<open>The windows the kernel holds after a sequence of calls, and the windows the objects claim.\<close>

fun window_step :: "(u64 \<rightharpoonup> u64) \<Rightarrow> kernel_call \<Rightarrow> u64 \<rightharpoonup> u64" where
  "window_step w (MemExport i n) = w(i \<mapsto> n)"
| "window_step w (MemUnexport i) = w(i := None)"
| "window_step w (MemExportFailed i n) = w"
| "window_step w (Munmap i n) = w"

definition windows :: "kernel_call list \<Rightarrow> u64 \<rightharpoonup> u64" where
  "windows ks = foldl window_step Map.empty ks"

definition window :: "shm_obj \<Rightarrow> u64 option" where
  "window x = (if exported x = 0 then None else Some (exported x))"

definition obj_windows :: "shm_obj list \<Rightarrow> u64 \<rightharpoonup> u64" where
  "obj_windows os i =
     (case List.find (\<lambda>x. obj_oid x = i) os of None \<Rightarrow> None | Some x \<Rightarrow> window x)"

definition moves_window :: "u32 \<Rightarrow> shm_obj \<Rightarrow> kernel_call list \<Rightarrow> shm_obj \<Rightarrow> bool" where
  "moves_window i x ks y \<longleftrightarrow> (\<forall>w. w (ucast i) = window x \<longrightarrow>
     foldl window_step w ks = w((ucast i :: u64) := window y))"

text \<open>What any message does to the server's state: nothing but the quit flag, an object replaced,
  an object destroyed, or an object created.\<close>

inductive obj_step :: "srv \<Rightarrow> srv \<Rightarrow> bool" where
  idle: "obj_step s (s\<lparr>quit := q\<rparr>)"
| update: "obj_find s i = Some x \<Longrightarrow> oid_no y = i \<Longrightarrow> obj_ok y \<Longrightarrow> cap y = cap x + c \<Longrightarrow>
    moves_window i x ks y \<Longrightarrow>
    obj_step s (put_obj y (s\<lparr>bytes := bytes s + c, calls := calls s @ ks\<rparr>))"
| destroy: "obj_find s i = Some x \<Longrightarrow> obj_step s (obj_destroy s x)"
| create: "obj_step s (s\<lparr>objs := new_obj (next_id s) # objs s, next_id := next_id s + 1,
    live := live s + 1, created := created s + 1\<rparr>)"

lemma obj_step_idle [simp, intro]: "obj_step s s"
  using obj_step.idle [of s "quit s"] by simp

lemma obj_step_put:
  assumes "obj_find s i = Some x" and "oid_no y = i" and "obj_ok y" and "cap y = cap x"
    and "exported y = exported x"
  shows "obj_step s (put_obj y s)"
proof -
  have "moves_window i x [] y" using assms(5) by (simp add: moves_window_def window_def fun_eq_iff)
  from obj_step.update [OF assms(1-3) _ this, of 0] assms(4) show ?thesis by simp
qed

lemma ucast_u64_u32 [simp]: "ucast (ucast x :: u64) = (x :: u32)"
  by (rule bit_word_eqI) (auto simp: bit_simps)

lemma obj_oid_eq: "obj_oid x = ucast i \<longleftrightarrow> oid_no x = i"
  unfolding obj_oid_def by (metis ucast_u64_u32)

lemma obj_export_window:
  assumes "oid_no ob = i" and "exported ob = exported x"
    and "obj_export e ob ex = (ob', ks, rc)" and "exported y = exported ob'"
  shows "moves_window i x ks y"
  using assms(1,2,4) assms(3) [symmetric] unfolding moves_window_def
  by (auto simp: obj_export_def window_def Let_def obj_oid_def fun_eq_iff
    split: if_splits option.splits)

lemma obj_truncate_step:
  assumes "shm_inv s" and "obj_find s i = Some x"
  shows "\<exists>s' r. obj_truncate e s x sz = Some (s', r) \<and> obj_step s s'"
  using assms
proof (cases rule: obj_truncate_ok [where e = e and sz = sz])
  case (failed y ks c er)
  from failed(8) obtain ob where "oid_no ob = i" "exported ob = exported x"
    "obj_export e ob (round_pages sz) = (ob\<lparr>exported := 0\<rparr>, ks, Some er)" by blast
  then have "moves_window i x ks y" by (rule obj_export_window) (simp add: failed(5))
  from obj_step.update [OF assms(2) failed(3,2,4) this] failed(1) show ?thesis by blast
next
  case (applied y ks c)
  from applied(8) obtain ob where "oid_no ob = i" "exported ob = exported x"
    "obj_export e ob (round_pages sz) = (ob\<lparr>exported := round_pages sz\<rparr>, ks, None)" by blast
  then have "moves_window i x ks y" by (rule obj_export_window) (simp add: applied(5))
  from obj_step.update [OF assms(2) applied(3,2,4) this] applied(1) show ?thesis by blast
qed auto

lemma obj_destroy_updated:
  "oid_no y = oid_no x \<Longrightarrow> exported y = exported x \<Longrightarrow> cap y = cap x \<Longrightarrow>
     obj_destroy (put_obj y s) y = obj_destroy s x"
proof -
  assume a: "oid_no y = oid_no x" "exported y = exported x" "cap y = cap x"
  have "obj_unlink (oid_no y) (obj_store y os) = obj_unlink (oid_no y) os" for os
    by (induction os) auto
  with a show ?thesis by (simp add: obj_destroy_def Let_def put_obj_def obj_oid_def)
qed

lemma obj_find_put:
  assumes "obj_find s i = Some x" and "oid_no y = i"
  shows "obj_find (put_obj y s) j = (if j = i then Some y else obj_find s j)"
  using find_obj_store [of y "objs s" j] assms by (simp add: obj_find_def)

lemma handle_close_step:
  assumes "shm_inv s" and "obj_find s i = Some x"
  shows "obj_step s (fst (handle_close s (Some x)))"
proof -
  let ?y = "if opens x > 0 then x\<lparr>opens := opens x - 1\<rparr> else x"
  have y: "oid_no ?y = i" "obj_ok ?y" "cap ?y = cap x" "exported ?y = exported x"
    using obj_find_id [OF assms(2)] obj_find_ok [OF assms] by auto
  have "obj_destroy (put_obj ?y s) ?y = obj_destroy s x"
    by (rule obj_destroy_updated) (use obj_find_id [OF assms(2)] y in auto)
  moreover have "obj_step s (put_obj ?y s)" by (rule obj_step_put [OF assms(2) y])
  ultimately show ?thesis
    using obj_step.destroy [OF assms(2)] by (simp add: handle_close_def Let_def)
qed

lemma handle_write_step:
  assumes "shm_inv s" and "obj_find s i = Some x" and "msg_ok m"
  shows "\<exists>s' r. handle_write s m (Some x) = Some (s', r) \<and> obj_step s s'"
  using assms
proof (cases rule: handle_write_spec)
  case (some d y)
  from obj_step_put [OF assms(2) some(2-5)] some(8) show ?thesis by blast
qed auto

lemma handle_devctl_step: "obj_step s (fst (handle_devctl e s m))"
  using obj_step.create [of s] obj_step.idle [of s True] by (simp add: handle_devctl_def Let_def)

text \<open>Every message is answered, with one such step.\<close>

lemma handle_step:
  assumes "shm_inv s" and "msg_ok m"
  shows "\<exists>s' r. handle e s m = Some (s', r) \<and> obj_step s s'"
proof -
  define ob where "ob = (if m_id m \<noteq> 0 then obj_find s (ucast (m_id m)) else None)"
  note h = handle_def [of e s m, folded ob_def]
  consider "ob = None" | x where "ob = Some x" "obj_find s (ucast (m_id m)) = Some x"
    by (cases ob) (auto simp: ob_def split: if_splits)
  then show ?thesis
  proof cases
    case 1
    with handle_devctl_step [of s e m] show ?thesis
      by (cases "m_type m") (simp_all add: h handle_open_def handle_close_def handle_read_def
        handle_write_def prod_eq_iff)
  next
    case (2 x)
    note f = 2(2)
    have "obj_step s (put_obj (x\<lparr>opens := opens x + 1\<rparr>) s)"
      by (rule obj_step_put [OF f]) (use obj_find_id [OF f] obj_find_ok [OF assms(1) f] in auto)
    with 2 handle_devctl_step [of s e m] obj_truncate_step [OF assms(1) f, of e "io_len m"]
      handle_close_step [OF assms(1) f] handle_write_step [OF assms(1) f assms(2)]
      handle_read_spec [OF obj_find_ok [OF assms(1) f] assms(2)]
    show ?thesis
      by (cases "m_type m") (auto simp: h handle_open_def Let_def prod_eq_iff)
  qed
qed

lemma obj_step_inv:
  assumes "obj_step s s'" and "shm_inv s"
  shows "shm_inv s'"
  using assms
proof cases
  case (idle q)
  with assms(2) show ?thesis by (simp add: shm_inv_def accounted_def)
next
  case (update i x y c ks)
  with put_obj_inv [OF assms(2) update(2-5)] show ?thesis by simp
next
  case (destroy i x)
  with obj_destroy_inv [OF assms(2)] obj_find_id show ?thesis by metis
next
  case create
  with assms(2) show ?thesis
    by (simp add: shm_inv_def accounted_def new_obj_def [of "next_id s"]) (simp add: obj_ok_def)
qed

text \<open>Numbers are handed out in order, so they stay distinct until the 32-bit counter wraps.\<close>

definition ids_inv :: "nat \<Rightarrow> srv \<Rightarrow> bool" where
  "ids_inv n s \<longleftrightarrow> next_id s = of_nat (Suc n) \<and> distinct (map oid_no (objs s)) \<and>
     (\<forall>i \<in> set (map oid_no (objs s)). unat i \<le> n)"

lemma obj_unlink_ids: "map oid_no (obj_unlink i os) = remove1 i (map oid_no os)"
  by (induction os) auto

lemma unat_Suc_u32: "Suc n < 2 ^ 32 \<Longrightarrow> unat (of_nat (Suc n) :: u32) = Suc n"
  by (simp only: unsigned_of_nat) (simp add: take_bit_nat_eq_self_iff)

lemma obj_step_ids:
  assumes "obj_step s s'" and "ids_inv n s" and "Suc n < 2 ^ 32"
  shows "ids_inv (if next_id s' = next_id s then n else Suc n) s'"
  using assms(1)
proof cases
  case create
  have "unat (next_id s) = Suc n"
    using assms(2) unat_Suc_u32 [OF assms(3)] by (simp only: ids_inv_def)
  with assms(2) create show ?thesis
    by (auto simp: ids_inv_def new_obj_def algebra_simps)
next
  case (destroy i x)
  with assms(2) show ?thesis
    by (auto simp: ids_inv_def obj_destroy_simps obj_unlink_ids simp del: set_map
      dest: notin_set_remove1 [rotated])
next
  case (update i x y c ks)
  with assms(2) show ?thesis by (simp add: ids_inv_def del: set_map)
next
  case (idle q)
  with assms(2) show ?thesis by (simp add: ids_inv_def)
qed

lemma find_oid: "List.find (\<lambda>x. obj_oid x = ucast i) os = List.find (\<lambda>x. oid_no x = i) os"
  by (simp add: obj_oid_eq)

lemma obj_windows_Cons:
  "obj_windows (x # os) = (obj_windows os)(obj_oid x := window x)"
  by (auto simp: obj_windows_def fun_eq_iff)

lemma obj_windows_store:
  assumes "oid_no y \<in> set (map oid_no os)"
  shows "obj_windows (obj_store y os) = (obj_windows os)(obj_oid y := window y)"
  using assms
proof (induction os)
  case (Cons p os)
  have "obj_oid p = obj_oid y \<longleftrightarrow> oid_no p = oid_no y" by (simp add: obj_oid_def [of y] obj_oid_eq)
  with Cons show ?case
    by (cases "oid_no p = oid_no y") (auto simp: obj_windows_Cons fun_eq_iff)
qed simp

lemma obj_windows_none:
  "i \<notin> set (map oid_no os) \<Longrightarrow> obj_windows os (ucast i) = None"
  unfolding obj_windows_def find_oid by (auto split: option.splits dest!: find_SomeD)

lemma obj_windows_unlink:
  assumes "distinct (map oid_no os)"
  shows "obj_windows (obj_unlink i os) = (obj_windows os)(ucast i := None)"
  using assms
proof (induction os)
  case Nil
  show ?case by (simp add: obj_windows_def fun_eq_iff)
next
  case (Cons p os)
  show ?case
  proof (cases "oid_no p = i")
    case True
    with Cons.prems obj_windows_none [of i os] show ?thesis
      by (auto simp: obj_windows_Cons obj_oid_def fun_eq_iff)
  next
    case False
    then have "obj_oid p \<noteq> ucast i" by (simp add: obj_oid_eq)
    with False Cons show ?thesis by (auto simp: obj_windows_Cons fun_eq_iff)
  qed
qed

lemma windows_append: "windows (ks @ ks') = foldl window_step (windows ks) ks'"
  by (simp add: windows_def)

lemma find_mem_ids: "obj_find s i = Some x \<Longrightarrow> i \<in> set (map oid_no (objs s))"
  unfolding obj_find_def by (auto dest!: find_SomeD)

lemma obj_step_windows:
  assumes "obj_step s s'" and "windows (calls s) = obj_windows (objs s)"
    and "distinct (map oid_no (objs s))" and "next_id s \<notin> set (map oid_no (objs s))"
  shows "windows (calls s') = obj_windows (objs s')"
  using assms(1)
proof cases
  case (update i x y c ks)
  have "windows (calls s) (ucast i) = window x"
    using update(2) unfolding assms(2) obj_windows_def find_oid by (simp add: obj_find_def)
  with update(6) have "windows (calls s @ ks) = (windows (calls s))(ucast i := window y)"
    by (simp add: moves_window_def windows_append)
  with update(1,3) assms(2) find_mem_ids [OF update(2)] show ?thesis
    by (simp add: obj_windows_store obj_oid_def)
next
  case (destroy i x)
  note [simp] = obj_windows_unlink [OF assms(3)] obj_destroy_simps windows_append
  have w: "windows (calls s) (obj_oid x) = window x"
    using destroy(2) obj_find_id [OF destroy(2)]
    unfolding assms(2) obj_windows_def obj_oid_def [of x] find_oid by (simp add: obj_find_def)
  have "windows (calls (obj_destroy s x)) = (windows (calls s))(obj_oid x := None)"
    using w by (auto simp: obj_destroy_def Let_def window_def fun_eq_iff split: if_splits)
  with destroy(1) assms(2) show ?thesis by (simp add: obj_oid_def)
next
  case create
  with assms(2) obj_windows_none [OF assms(4)] show ?thesis
    by (auto simp: obj_windows_Cons new_obj_def obj_oid_def window_def fun_eq_iff)
qed (use assms in simp)

subsection \<open>The server\<close>

text \<open>Code equations that compare offsets as words.\<close>

lemma in_cap_code [code]: "in_cap ob off n \<longleftrightarrow> off \<le> cap ob \<and> n \<le> cap ob - off"
  by (auto simp: in_cap_def word_le_nat_alt unat_sub_if')

lemma in_range_unat:
  fixes off i n :: u64
  shows "off \<le> i \<and> unat i < unat off + unat n \<longleftrightarrow> off \<le> i \<and> i - off < n"
  by (auto simp: word_le_nat_alt word_less_nat_alt unat_sub_if')

lemma zero_va_code [code]:
  "zero_va ob off n = (if in_cap ob off n
     then Some (ob\<lparr>va := \<lambda>i. if off \<le> i \<and> i - off < n then 0 else va ob i\<rparr>) else None)"
  by (simp add: zero_va_def in_range_unat)

lemma write_va_code [code]:
  "write_va ob off n d = (if in_cap ob off n \<and> unat n \<le> length d
     then Some (ob\<lparr>va := \<lambda>i. if off \<le> i \<and> i - off < n
                               then d ! (unat (i - off)) else va ob i\<rparr>)
     else None)"
  by (auto simp: write_va_def in_range_unat fun_eq_iff unat_sub intro!: arg_cong [where f = "\<lambda>f. ob\<lparr>va := f\<rparr>"])

lemma shm_inv_init [simp]: "shm_inv (srv_init port)"
  by (simp add: shm_inv_def accounted_def srv_init_def)

lemma handle_returns:
  assumes "shm_inv s" and "msg_ok m" and "handle e s m = Some (s', r)"
  shows "obj_step s s'"
  using handle_step [OF assms(1,2), of e] assms(3) by auto

lemma serve_ok:
  assumes "\<forall>(e, m) \<in> set ms. msg_ok m" and "shm_inv s"
  shows "\<exists>s' rs. serve s ms = Some (s', rs) \<and> shm_inv s'"
  using assms
proof (induction s ms rule: serve.induct)
  case (2 s e m ms)
  show ?case
  proof (cases "quit s")
    case False
    from 2(2,3) have "msg_ok m" by simp
    then obtain s1 r where h: "handle e s m = Some (s1, r)" "obj_step s s1"
      using handle_step 2(3) by blast
    with 2(1) [OF False h(1) refl] 2(2,3) obj_step_inv False show ?thesis by fastforce
  qed (use 2 in auto)
qed auto

text \<open>C26. The server answers every sequence of messages whose buffers are as long as they say,
  whatever the allocator, \<open>mmap\<close> and \<open>memExport\<close> answer: no handler reads or writes outside an
  object's memory or loops forever, and afterwards the counters agree with the table, capacities
  are powers of two between 1 MiB and 256 MiB, sizes and exported windows stay within them, and
  memory behind an object's size is zero.\<close>

theorem shm_serve_safe:
  assumes "\<forall>(e, m) \<in> set ms. msg_ok m"
  shows "\<exists>s rs. serve (srv_init port) ms = Some (s, rs) \<and> shm_inv s"
  using serve_ok [OF assms shm_inv_init] .

definition sample_env :: env where
  "sample_env = \<lparr>env_calloc = True, env_mmap = True, env_export = None, env_attr_size = 200,
     env_now = 0\<rparr>"

definition sample_msg :: "msg_type \<Rightarrow> u64 \<Rightarrow> msg" where
  "sample_msg t i = \<lparr>m_type = t, m_id = i, i_data = None, i_size = 0, io_len = 0, io_offs = 0,
     i_attr = atMode, i_raw = \<lparr>req_op = SHMSRV_OP_CREATE, req_proto = SHMSRV_PROTO\<rparr>,
     o_null = True, o_size = 0\<rparr>"

definition sample_session :: "(env \<times> msg) list" where
  "sample_session = map (\<lambda>m. (sample_env, m))
     [sample_msg mtDevCtl 0, sample_msg mtOpen 1, (sample_msg mtTruncate 1)\<lparr>io_len := 5000\<rparr>,
      (sample_msg mtWrite 1)\<lparr>i_data := Some [7, 8, 9], i_size := 3, io_offs := 4998\<rparr>,
      (sample_msg mtRead 1)\<lparr>o_null := False, o_size := 4, io_offs := 4997\<rparr>,
      sample_msg mtDevCtl 0]"

lemma sample_session_ok: "\<forall>(e, m) \<in> set sample_session. msg_ok m"
  by code_simp

theorem shm_serve_safe_witness:
  "\<exists>s rs. serve (srv_init 3) sample_session = Some (s, rs) \<and> shm_inv s \<and> length rs = 6 \<and>
     r_data (rs ! 4) = [0, 7, 8]"
proof -
  obtain s rs where "serve (srv_init 3) sample_session = Some (s, rs)" "shm_inv s"
    using shm_serve_safe [OF sample_session_ok] by blast
  moreover have "let rs = snd (the (serve (srv_init 3) sample_session))
       in length rs = 6 \<and> r_data (rs ! 4) = [0, 7, 8]"
    by code_simp
  ultimately show ?thesis by (simp add: Let_def)
qed

text \<open>The numbers handed out by the successful create requests among the messages.\<close>

definition created_id :: "msg \<Rightarrow> reply \<Rightarrow> u32 list" where
  "created_id m r =
     (if m_type m = mtDevCtl \<and> req_op (i_raw m) = SHMSRV_OP_CREATE \<and> r_err r = Inr 0
      then (case r_rsp r of None \<Rightarrow> [] | Some rsp \<Rightarrow> [rsp_id rsp]) else [])"

fun given_ids :: "(env \<times> msg) list \<Rightarrow> reply list \<Rightarrow> u32 list" where
  "given_ids ((e, m) # ms) (r # rs) = created_id m r @ given_ids ms rs"
| "given_ids _ _ = []"

lemma obj_truncate_next_id: "obj_truncate e s x sz = Some (s', rc) \<Longrightarrow> next_id s' = next_id s"
  by (auto simp: obj_truncate_def Let_def split: if_splits sum.splits prod.splits option.splits
    Option.bind_splits)

lemma handle_write_next_id: "handle_write s m x = Some (s', rc) \<Longrightarrow> next_id s' = next_id s"
  by (auto simp: handle_write_def Let_def split: if_splits prod.splits option.splits
    Option.bind_splits)

lemma handle_next_id:
  assumes "handle e s m = Some (s', r)"
  shows "created_id m r = [] \<and> next_id s' = next_id s \<or>
    created_id m r = [next_id s] \<and> next_id s' = next_id s + 1"
proof (cases "m_type m")
  case mtDevCtl
  with assms show ?thesis
    by (auto simp: handle_def handle_devctl_def created_id_def Let_def no_reply_def split: if_splits)
qed (use assms in \<open>auto simp: handle_def created_id_def Let_def handle_open_def handle_close_def
    obj_destroy_simps dest: obj_truncate_next_id handle_write_next_id
    split: option.splits if_splits Option.bind_splits prod.splits\<close>)

lemma serve_ids:
  assumes "serve s ms = Some (s', rs)" and "next_id s = of_nat n"
  shows "given_ids ms rs = map of_nat [n..<n + length (given_ids ms rs)]"
  using assms
proof (induction s ms arbitrary: n s' rs rule: serve.induct)
  case (2 s e m ms)
  show ?case
  proof (cases "quit s")
    case False
    with 2(2) obtain s1 r rs' where h: "handle e s m = Some (s1, r)"
        "serve s1 ms = Some (s', rs')" "rs = r # rs'"
      by (auto split: Option.bind_splits)
    note IH = 2(1) [OF False h(1) refl h(2)]
    show ?thesis
    proof (rule disjE [OF handle_next_id [OF h(1)]], goal_cases)
      case 1
      with IH [of n] 2(3) h(3) show ?thesis by simp
    next
      case 2
      with \<open>next_id s = of_nat n\<close> have "next_id s1 = of_nat (Suc n)" by simp
      define l where "l = length (given_ids ms rs')"
      have "given_ids ms rs' = map of_nat [Suc n..<Suc n + l]"
        unfolding l_def by (rule IH) fact
      with 2 h(3) \<open>next_id s = of_nat n\<close> show ?thesis
        by (simp add: upt_conv_Cons del: upt_Suc)
    qed
  qed (use 2 in auto)
qed auto

lemma unat_of_nat_u32: "n < 2 ^ 32 \<Longrightarrow> unat (of_nat n :: u32) = n"
  by (simp only: unsigned_of_nat) (simp add: take_bit_nat_eq_self_iff)

lemma distinct_u32_upt:
  assumes "n \<le> 2 ^ 32"
  shows "distinct (map of_nat [m..<n] :: u32 list)"
proof -
  have "inj_on (of_nat :: nat \<Rightarrow> u32) {m..<n}"
  proof (rule inj_on_inverseI)
    fix k assume "k \<in> {m..<n}"
    with assms have "k < 2 ^ 32" by simp
    then show "unat (of_nat k :: u32) = k" by (rule unat_of_nat_u32)
  qed
  then show ?thesis by (simp add: distinct_map)
qed

text \<open>C30. The server numbers its objects 1, 2, 3, and so on in the order of the create requests it
  grants, so a number is never given twice, nor is that of the root, as long as fewer than
  \<open>2\<^sup>3\<^sup>2\<close> objects are created.\<close>

theorem shm_ids_fresh:
  assumes "serve (srv_init port) ms = Some (s, rs)"
  shows "given_ids ms rs = map of_nat [1..<Suc (length (given_ids ms rs))] \<and>
    (length (given_ids ms rs) < 2 ^ 32 \<longrightarrow>
       distinct (given_ids ms rs) \<and> 0 \<notin> set (given_ids ms rs))"
proof -
  let ?g = "given_ids ms rs"
  have e: "?g = map of_nat [1..<Suc (length ?g)]"
    using serve_ids [OF assms, of 1] by (simp add: srv_init_def)
  moreover have "distinct ?g \<and> 0 \<notin> set ?g" if "length ?g < 2 ^ 32"
  proof -
    have "distinct (map of_nat [0..<Suc (length ?g)] :: u32 list)"
      using that by (intro distinct_u32_upt) simp
    then have "distinct (0 # (map of_nat [1..<Suc (length ?g)] :: u32 list))"
      by (simp add: upt_conv_Cons del: upt_Suc)
    then show ?thesis using e by (metis distinct.simps(2))
  qed
  ultimately show ?thesis by blast
qed

theorem shm_ids_fresh_witness:
  "\<exists>s rs. serve (srv_init 3) sample_session = Some (s, rs) \<and> given_ids sample_session rs = [1, 2] \<and>
     distinct (given_ids sample_session rs)"
proof -
  obtain s rs where s: "serve (srv_init 3) sample_session = Some (s, rs)"
    using serve_ok [OF sample_session_ok shm_inv_init] by blast
  have "given_ids sample_session (snd (the (serve (srv_init 3) sample_session))) = [1, 2]"
    by code_simp
  with s have g: "given_ids sample_session rs = [1, 2]" by simp
  then have "length (given_ids sample_session rs) < 2 ^ 32" by simp
  with shm_ids_fresh [OF s] s g show ?thesis by blast
qed

lemma serve_windows:
  assumes "serve s ms = Some (s', rs)" and "\<forall>(e, m) \<in> set ms. msg_ok m" and "shm_inv s"
    and "ids_inv n s" and "n + length ms < 2 ^ 32" and "windows (calls s) = obj_windows (objs s)"
  shows "windows (calls s') = obj_windows (objs s') \<and> distinct (map oid_no (objs s'))"
  using assms
proof (induction s ms arbitrary: n s' rs rule: serve.induct)
  case (2 s e m ms)
  show ?case
  proof (cases "quit s")
    case False
    with 2(2) obtain s1 r rs' where h: "handle e s m = Some (s1, r)" "serve s1 ms = Some (s', rs')"
      by (auto split: Option.bind_splits)
    have st: "obj_step s s1" using handle_returns [OF 2(4) _ h(1)] 2(3) by simp
    have n: "Suc n < 2 ^ 32" using 2(6) by simp
    have "next_id s \<notin> set (map oid_no (objs s))"
      using 2(5) unat_Suc_u32 [OF n] unfolding ids_inv_def by (metis not_less_eq_eq order_refl)
    from obj_step_windows [OF st 2(7) _ this] 2(5)
    have w: "windows (calls s1) = obj_windows (objs s1)" by (simp add: ids_inv_def)
    note i = obj_step_ids [OF st 2(5) n]
    show ?thesis
      by (rule 2(1) [OF False h(1) refl h(2) _ obj_step_inv [OF st 2(4)] i _ w])
        (use 2(3,6) in auto)
  qed (use 2 in \<open>auto simp: ids_inv_def\<close>)
qed (auto simp: ids_inv_def)

text \<open>C29. As long as fewer than \<open>2\<^sup>3\<^sup>2\<close> messages have arrived, the windows the kernel holds for the
  server's port are exactly the ones its objects claim: one for every object with an exported
  size, of that size, and none for objects destroyed, never sized, or cut to zero.\<close>

theorem shm_windows_exact:
  assumes "serve (srv_init port) ms = Some (s, rs)" and "\<forall>(e, m) \<in> set ms. msg_ok m"
    and "length ms < 2 ^ 32"
  shows "windows (calls s) = obj_windows (objs s)"
proof -
  have "ids_inv 0 (srv_init port)" by (simp add: ids_inv_def srv_init_def)
  moreover have "windows (calls (srv_init port)) = obj_windows (objs (srv_init port))"
    by (simp add: srv_init_def windows_def obj_windows_def fun_eq_iff)
  ultimately show ?thesis
    using serve_windows [OF assms(1,2) shm_inv_init] assms(3) by (metis add_0)
qed

theorem shm_windows_exact_witness:
  "\<exists>s rs. serve (srv_init 3) sample_session = Some (s, rs) \<and> windows (calls s) = obj_windows (objs s) \<and>
     windows (calls s) 1 = Some 8192 \<and> windows (calls s) 2 = None"
proof -
  obtain s rs where s: "serve (srv_init 3) sample_session = Some (s, rs)"
    using serve_ok [OF sample_session_ok shm_inv_init] by blast
  have "let w = windows (calls (fst (the (serve (srv_init 3) sample_session))))
    in w 1 = Some 8192 \<and> w 2 = None"
    by code_simp
  with s shm_windows_exact [OF s sample_session_ok] show ?thesis
    by (simp add: sample_session_def Let_def)
qed

text \<open>C27. Reads and writes of an object refine reads and writes of a byte sequence: a read delivers
  what the sequence holds at the offset, a write replaces exactly that part, never grows the
  object, touches no other object, and reports the number of bytes it stored, or a full file when
  there is no room for any.\<close>

theorem shm_io_refines:
  assumes "shm_inv s" and "msg_ok m" and "m_id m \<noteq> 0" and "obj_find s (ucast (m_id m)) = Some x"
  shows "(m_type m = mtRead \<longrightarrow> handle e s m =
      (let d = file_read (unat (io_offs m)) (unat (o_size m)) (contents x)
       in Some (s, no_reply\<lparr>r_err := Inr (int (length d)), r_data := d\<rparr>))) \<and>
    (m_type m = mtWrite \<longrightarrow> (\<exists>s' r y. handle e s m = Some (s', r) \<and>
      obj_find s' (ucast (m_id m)) = Some y \<and>
      (\<forall>j. j \<noteq> ucast (m_id m) \<longrightarrow> obj_find s' j = obj_find s j) \<and>
      (case i_data m of None \<Rightarrow> contents y = contents x
       | Some d \<Rightarrow> contents y = file_write (unat (io_offs m)) d (contents x) \<and>
           r_err r = (let n = min (length d) (unat (osize x) - unat (io_offs m))
                      in if n = 0 \<and> d \<noteq> [] then Inl EFBIG else Inr (int n)))))"
proof (intro conjI impI)
  assume "m_type m = mtRead"
  with handle_read_spec [OF obj_find_ok [OF assms(1,4)] assms(2)] assms(3,4)
  show "handle e s m =
      (let d = file_read (unat (io_offs m)) (unat (o_size m)) (contents x)
       in Some (s, no_reply\<lparr>r_err := Inr (int (length d)), r_data := d\<rparr>))"
    by (simp add: handle_def Let_def)
next
  assume t: "m_type m = mtWrite"
  let ?i = "ucast (m_id m) :: u32"
  let ?r = "\<lambda>r y. case i_data m of None \<Rightarrow> contents y = contents x
       | Some d \<Rightarrow> contents y = file_write (unat (io_offs m)) d (contents x) \<and>
           r_err r = (let n = min (length d) (unat (osize x) - unat (io_offs m))
                      in if n = 0 \<and> d \<noteq> [] then Inl EFBIG else Inr (int n))"
  have h: "handle e s m = handle_write s m (Some x)" using t assms(3,4) by (simp add: handle_def)
  show "\<exists>s' r y. handle e s m = Some (s', r) \<and> obj_find s' ?i = Some y \<and>
      (\<forall>j. j \<noteq> ?i \<longrightarrow> obj_find s' j = obj_find s j) \<and> ?r r y"
    using assms(1,4,2)
  proof (cases rule: handle_write_spec)
    case (none r)
    have "?r r x"
      using none(2,3) assms(2)
      by (auto simp: msg_ok_def no_reply_def file_write_def unat_eq_0 Let_def split: option.splits)
    with none(1) h assms(4) show ?thesis by auto
  next
    case (some d y)
    let ?r' = "no_reply\<lparr>r_err := Inr (int (min (length d) (unat (osize x) - unat (io_offs m))))\<rparr>"
    have "?r ?r' y" using some(1,7,9) by (auto simp: Let_def)
    with some(8) h obj_find_put [OF assms(4) some(2)] show ?thesis by auto
  qed
qed

definition sample_srv :: srv where
  "sample_srv = fst (the (serve (srv_init 3) sample_session))"

lemma sample_srv_inv: "shm_inv sample_srv"
  using serve_ok [OF sample_session_ok shm_inv_init [of 3]] by (auto simp: sample_srv_def)

lemma sample_srv_obj:
  obtains x where "obj_find sample_srv 1 = Some x" "osize x = 5000" "cap x = 2 ^ 20"
    "exported x = 8192"
proof -
  have "case obj_find sample_srv 1 of None \<Rightarrow> False
    | Some x \<Rightarrow> osize x = 5000 \<and> cap x = 2 ^ 20 \<and> exported x = 8192"
    by code_simp
  with that show thesis by (auto split: option.splits)
qed

theorem shm_io_refines_witness:
  "\<exists>x y s' r. obj_find sample_srv 1 = Some x \<and>
     handle sample_env sample_srv
       ((sample_msg mtWrite 1)\<lparr>i_data := Some [5, 6], i_size := 2, io_offs := 4999\<rparr>) = Some (s', r) \<and>
     obj_find s' 1 = Some y \<and> contents y = file_write 4999 [5, 6] (contents x) \<and> r_err r = Inr 1"
proof -
  let ?m = "(sample_msg mtWrite 1)\<lparr>i_data := Some [5, 6], i_size := 2, io_offs := 4999\<rparr>"
  obtain x where x: "obj_find sample_srv 1 = Some x" "osize x = 5000"
    by (rule sample_srv_obj)
  have "msg_ok ?m" by code_simp
  moreover have "m_id ?m = 1" "m_type ?m = mtWrite" "i_data ?m = Some [5, 6]" "io_offs ?m = 4999"
    by (simp_all add: sample_msg_def)
  ultimately show ?thesis
    using shm_io_refines [OF sample_srv_inv, of ?m x sample_env] x by (auto simp: Let_def)
qed

text \<open>C28. A size change that succeeds leaves exactly the bytes of the old contents that fit,
  followed by zeros, and exports the size in whole pages; it succeeds whenever the size is within
  the limit and the capacity, memory is granted and the export is. A size change that fails
  leaves the other objects alone; it either changes nothing, or (when only the export failed)
  withdraws the window and clears what a smaller size would have cut off.\<close>

theorem shm_truncate_refines:
  assumes "shm_inv s" and "obj_find s i = Some x"
  shows "\<exists>s' rc y. obj_truncate e s x sz = Some (s', rc) \<and> obj_find s' i = Some y \<and>
    (\<forall>j. j \<noteq> i \<longrightarrow> obj_find s' j = obj_find s j) \<and>
    (rc = Inr 0 \<longrightarrow> contents y = file_truncate (unat sz) (contents x) \<and> exported y = round_pages sz) \<and>
    (rc \<noteq> Inr 0 \<longrightarrow> y = x \<or> exported y = 0 \<and>
       contents y = file_truncate (length (contents x)) (take (unat sz) (contents x))) \<and>
    (sz \<le> SHMSRV_MAX_BYTES \<and> (cap x = 0 \<or> round_pages sz \<le> cap x) \<and> env_mmap e \<and>
       env_export e = None \<longrightarrow> rc = Inr 0)"
proof -
  have a: "obj_alloc e x sz (round_pages sz) \<noteq> Some (Inl er)"
    if "cap x = 0 \<or> round_pages sz \<le> cap x" "env_mmap e" "sz \<le> SHMSRV_MAX_BYTES" for er
    using that round_pages_bounds(3) [OF that(3)]
    by (auto simp: obj_alloc_def not_le [symmetric] split: Option.bind_splits)
  have ok: "rc = Inr 0" if "obj_truncate e s x sz = Some (s', rc)" "sz \<le> SHMSRV_MAX_BYTES"
      "cap x = 0 \<or> round_pages sz \<le> cap x" "env_mmap e" "env_export e = None" for s' rc
    using that a [OF that(3,4,2)]
    by (auto simp: obj_truncate_def obj_export_def Let_def
      split: if_splits Option.bind_splits sum.splits prod.splits option.splits)
  note put = obj_find_put [of "s\<lparr>bytes := b, calls := ks\<rparr>" i x for b ks]
  from assms show ?thesis
  proof (cases rule: obj_truncate_ok [where e = e and sz = sz])
    case (refused er)
    with assms(2) ok [OF refused] show ?thesis by auto
  next
    case (failed y ks c er)
    have "obj_find (s\<lparr>bytes := bytes s + c, calls := calls s @ ks\<rparr>) j = obj_find s j" for j
      by (simp add: obj_find_def)
    with failed assms(2) ok [OF failed(1)] put show ?thesis by auto
  next
    case (applied y ks c)
    have "obj_find (s\<lparr>bytes := bytes s + c, calls := calls s @ ks\<rparr>) j = obj_find s j" for j
      by (simp add: obj_find_def)
    with applied assms(2) put show ?thesis by auto
  qed
qed

theorem shm_truncate_refines_witness:
  "\<exists>x s' y. obj_find sample_srv 1 = Some x \<and>
     obj_truncate sample_env sample_srv x 6000 = Some (s', Inr 0) \<and> obj_find s' 1 = Some y \<and>
     contents y = file_truncate 6000 (contents x)"
proof -
  obtain x where x: "obj_find sample_srv 1 = Some x" "cap x = 2 ^ 20" by (rule sample_srv_obj)
  have "round_pages 6000 \<le> 2 ^ 20" "env_mmap sample_env" "env_export sample_env = None"
    by code_simp+
  with shm_truncate_refines [OF sample_srv_inv x(1), of sample_env 6000] x show ?thesis by auto
qed

text \<open>Names that differ by a multiple of \<open>2\<^sup>3\<^sup>2\<close> find the same object, under the longer number.\<close>

lemma shm_lookup_alias:
  "r_lookup (handle_lookup sample_srv ((sample_msg mtLookup 0)
     \<lparr>i_data := Some [52, 50, 57, 52, 57, 54, 55, 50, 57, 55], i_size := 10\<rparr>)) = Some (3, 4294967297)"
proof -
  have p: "srv_port sample_srv = 3" by code_simp
  have t: "strtoul [52, 50, 57, 52, 57, 54, 55, 50, 57, 55] = (4294967297, [])"
    by (simp add: strtoul_def decimal_def is_space_def is_digit_def Let_def)
  have u: "(4294967297 :: u32) = 1" by simp
  obtain x where "obj_find sample_srv 1 = Some x" by (rule sample_srv_obj)
  with p t show ?thesis
    by (simp add: handle_lookup_def sample_msg_def strnlen_def Let_def u)
qed

end
