(* ===== verification/Hid_Desc.thy ===== *)
theory Hid_Desc
  imports Bytes
begin

text \<open>
  The HID report-descriptor parser of the mouse driver, \<open>tty/usbmouse/hidmouse.c\<close> up to
  \<open>hidmouse_findInterface\<close>, and its data types in \<open>hidmouse.h\<close>. The fixed arrays of the parser
  are lists of their full length next to their counters, and a read or write outside an array
  or outside the descriptor is \<^term>\<open>None\<close>. An error carries the error code and the reason text.
\<close>

subsection \<open>Constants and types\<close>

definition HIDMOUSE_PKT_SIZE :: nat where "HIDMOUSE_PKT_SIZE = 4"
definition HIDMOUSE_MAX_BUTTONS :: nat where "HIDMOUSE_MAX_BUTTONS = 8"
definition HIDMOUSE_MAX_SPLIT :: nat where "HIDMOUSE_MAX_SPLIT = 17"

definition HID_PAGE_GENERIC_DESKTOP :: u32 where "HID_PAGE_GENERIC_DESKTOP = 0x01"
definition HID_PAGE_BUTTON :: u32 where "HID_PAGE_BUTTON = 0x09"
definition HID_PAGE_CONSUMER :: u32 where "HID_PAGE_CONSUMER = 0x0c"

definition HID_USAGE :: "u32 \<Rightarrow> u32 \<Rightarrow> u32" where
  "HID_USAGE page i = push_bit 16 page OR i"

definition HID_GD_X :: u32 where "HID_GD_X = HID_USAGE HID_PAGE_GENERIC_DESKTOP 0x30"
definition HID_GD_Y :: u32 where "HID_GD_Y = HID_USAGE HID_PAGE_GENERIC_DESKTOP 0x31"
definition HID_GD_WHEEL :: u32 where "HID_GD_WHEEL = HID_USAGE HID_PAGE_GENERIC_DESKTOP 0x38"
definition HID_CON_ACPAN :: u32 where "HID_CON_ACPAN = HID_USAGE HID_PAGE_CONSUMER 0x238"

definition HID_INPUT_CONSTANT :: u32 where "HID_INPUT_CONSTANT = 0x1"
definition HID_INPUT_VARIABLE :: u32 where "HID_INPUT_VARIABLE = 0x2"
definition HID_INPUT_RELATIVE :: u32 where "HID_INPUT_RELATIVE = 0x4"
definition HID_LONG_ITEM :: u8 where "HID_LONG_ITEM = 0xfe"

definition HID_MAX_USAGES :: nat where "HID_MAX_USAGES = 16"
definition HID_MAX_STACK :: nat where "HID_MAX_STACK = 4"
definition HID_MAX_DEPTH :: nat where "HID_MAX_DEPTH = 16"
definition HID_MAX_IDS :: nat where "HID_MAX_IDS = 16"
definition HID_MAX_REPORT_BITS :: u32 where "HID_MAX_REPORT_BITS = 8192"
definition HID_MAX_FIELD_BITS :: u32 where "HID_MAX_FIELD_BITS = 32"

lemmas hid_limits = HID_MAX_USAGES_def HID_MAX_STACK_def HID_MAX_DEPTH_def HID_MAX_IDS_def
  HIDMOUSE_MAX_BUTTONS_def

record hidmouse_field =
  f_off :: u16
  f_size :: u8
  f_id :: u8
  f_isSigned :: bool

record hidmouse_layout =
  useIds :: u8
  nbuttons :: u8
  maxReportLen :: u16
  l_button :: "hidmouse_field list"
  l_x :: hidmouse_field
  l_y :: hidmouse_field
  l_wheel :: hidmouse_field
  l_hwheel :: hidmouse_field

record hid_globals =
  usagePage :: u32
  logicalMin :: int
  reportSize :: u32
  reportCount :: u32
  reportId :: u32

record hid_parser =
  p_g :: hid_globals
  p_stack :: "hid_globals list"
  p_sp :: nat
  usages :: "u32 list"
  nusages :: nat
  usagesOverflow :: bool
  usageMin :: u32
  usageMax :: u32
  haveMin :: bool
  haveMax :: bool
  p_depth :: nat
  p_ids :: "(u8 \<times> u32) list"
  nids :: nat
  sawIdlessInput :: bool
  sawIdInput :: bool
  buttonsSeen :: u32
  absXY :: bool

text \<open>All of it zero, as \<open>memset\<close> leaves it.\<close>

definition no_field :: hidmouse_field where
  "no_field = \<lparr>f_off = 0, f_size = 0, f_id = 0, f_isSigned = False\<rparr>"

definition zero_layout :: hidmouse_layout where
  "zero_layout = \<lparr>useIds = 0, nbuttons = 0, maxReportLen = 0,
     l_button = replicate HIDMOUSE_MAX_BUTTONS no_field, l_x = no_field, l_y = no_field,
     l_wheel = no_field, l_hwheel = no_field\<rparr>"

definition zero_globals :: hid_globals where
  "zero_globals = \<lparr>usagePage = 0, logicalMin = 0, reportSize = 0, reportCount = 0, reportId = 0\<rparr>"

definition zero_parser :: hid_parser where
  "zero_parser = \<lparr>p_g = zero_globals, p_stack = replicate HID_MAX_STACK zero_globals, p_sp = 0,
     usages = replicate HID_MAX_USAGES 0, nusages = 0, usagesOverflow = False, usageMin = 0,
     usageMax = 0, haveMin = False, haveMax = False, p_depth = 0,
     p_ids = replicate HID_MAX_IDS (0, 0), nids = 0, sawIdlessInput = False, sawIdInput = False,
     buttonsSeen = 0, absXY = False\<rparr>"

type_synonym hid_error = "errno \<times> string"

subsection \<open>Item data\<close>

fun hid_itemLoop :: "u8 list \<Rightarrow> nat \<Rightarrow> u32 \<Rightarrow> u32 option" where
  "hid_itemLoop data 0 v = Some v"
| "hid_itemLoop data (Suc i) v =
     do { b \<leftarrow> buf_get data i; hid_itemLoop data i (push_bit 8 v OR ucast b) }"

definition hid_itemUnsigned :: "u8 list \<Rightarrow> nat \<Rightarrow> u32 option" where
  "hid_itemUnsigned data n = hid_itemLoop data n 0"

definition hid_itemSigned :: "u8 list \<Rightarrow> nat \<Rightarrow> int option" where
  "hid_itemSigned data n = do {
     v \<leftarrow> hid_itemUnsigned data n;
     Some (sint (if 0 < n \<and> n < 4 \<and> v AND push_bit (n * 8 - 1) 1 \<noteq> 0
                 then v OR NOT (push_bit (n * 8) 1 - 1) else v))
   }"

definition hid_extendedUsage :: "hid_parser \<Rightarrow> u32 \<Rightarrow> nat \<Rightarrow> u32" where
  "hid_extendedUsage p v n = (if n = 4 then v else HID_USAGE (usagePage (p_g p)) (v AND 0xffff))"

definition hid_clearLocals :: "hid_parser \<Rightarrow> hid_parser" where
  "hid_clearLocals p = p\<lparr>nusages := 0, usagesOverflow := False, haveMin := False, haveMax := False\<rparr>"

subsection \<open>Input items\<close>

text \<open>The pointer to the bit count of a Report ID is the index of its entry; no index stands for
  \<open>NULL\<close>, when the table is full.\<close>

fun hid_idFind :: "(u8 \<times> u32) list \<Rightarrow> nat \<Rightarrow> nat \<Rightarrow> u8 \<Rightarrow> nat option option" where
  "hid_idFind ids 0 i rid = Some None"
| "hid_idFind ids (Suc n) i rid = do {
     e \<leftarrow> buf_get ids i;
     if fst e = rid then Some (Some i) else hid_idFind ids n (Suc i) rid
   }"

definition hid_idBits :: "hid_parser \<Rightarrow> u8 \<Rightarrow> (hid_parser \<times> nat option) option" where
  "hid_idBits p rid = do {
     r \<leftarrow> hid_idFind (p_ids p) (nids p) 0 rid;
     case r of
       Some i \<Rightarrow> Some (p, Some i)
     | None \<Rightarrow>
         if HID_MAX_IDS \<le> nids p then Some (p, None)
         else do {
           ids \<leftarrow> buf_put (p_ids p) (nids p) [(rid, 0)];
           Some (p\<lparr>p_ids := ids, nids := nids p + 1\<rparr>, Some (nids p))
         }
   }"

definition hid_fieldUsage :: "hid_parser \<Rightarrow> u32 \<Rightarrow> u32 option" where
  "hid_fieldUsage p i =
     (if 0 < nusages p then
        if unat i < nusages p then buf_get (usages p) (unat i)
        else if usagesOverflow p then Some 0
        else buf_get (usages p) (nusages p - 1)
      else if haveMin p \<and> haveMax p \<and> usageMin p \<le> usageMax p \<and> i \<le> usageMax p - usageMin p
      then Some (usageMin p + i)
      else Some 0)"

definition hid_setField :: "hid_parser \<Rightarrow> u32 \<Rightarrow> u32 \<Rightarrow> hidmouse_field" where
  "hid_setField p off n = \<lparr>f_off = ucast off, f_size = ucast n, f_id = ucast (reportId (p_g p)),
     f_isSigned = (logicalMin (p_g p) < 0)\<rparr>"

text \<open>One field of an Input item.\<close>

definition hid_inputField ::
  "u32 \<Rightarrow> u32 \<Rightarrow> u32 \<Rightarrow> u32 \<Rightarrow> hid_parser \<Rightarrow> hidmouse_layout \<Rightarrow> (hid_parser \<times> hidmouse_layout) option"
where
  "hid_inputField flags n i off p l = do {
     usage \<leftarrow> hid_fieldUsage p i;
     let f = hid_setField p off n;
     if drop_bit 16 usage = HID_PAGE_BUTTON then do {
       let u = usage AND 0xffff;
       let p' = (if 1 \<le> u \<and> u \<le> 32
                 then p\<lparr>buttonsSeen := buttonsSeen p OR push_bit (unat (u - 1)) 1\<rparr> else p);
       if 1 \<le> u \<and> u \<le> 8 then do {
         b \<leftarrow> buf_get (l_button l) (unat (u - 1));
         if f_size b = 0 then do {
           bs \<leftarrow> buf_put (l_button l) (unat (u - 1)) [f];
           Some (p', l\<lparr>l_button := bs\<rparr>)
         } else Some (p', l)
       } else Some (p', l)
     }
     else if usage = HID_GD_X \<or> usage = HID_GD_Y then
       if flags AND HID_INPUT_RELATIVE = 0 then Some (p\<lparr>absXY := True\<rparr>, l)
       else if 2 \<le> n then
         if usage = HID_GD_X then Some (p, if f_size (l_x l) = 0 then l\<lparr>l_x := f\<rparr> else l)
         else Some (p, if f_size (l_y l) = 0 then l\<lparr>l_y := f\<rparr> else l)
       else Some (p, l)
     else if usage = HID_GD_WHEEL \<and> flags AND HID_INPUT_RELATIVE \<noteq> 0 \<and> 2 \<le> n \<and> f_size (l_wheel l) = 0
     then Some (p, l\<lparr>l_wheel := f\<rparr>)
     else if usage = HID_CON_ACPAN \<and> flags AND HID_INPUT_RELATIVE \<noteq> 0 \<and> 2 \<le> n \<and> f_size (l_hwheel l) = 0
     then Some (p, l\<lparr>l_hwheel := f\<rparr>)
     else Some (p, l)
   }"

fun hid_inputLoop ::
  "u32 \<Rightarrow> u32 \<Rightarrow> nat \<Rightarrow> u32 \<Rightarrow> u32 \<Rightarrow> hid_parser \<Rightarrow> hidmouse_layout \<Rightarrow> (hid_parser \<times> hidmouse_layout) option"
where
  "hid_inputLoop flags n 0 i off p l = Some (p, l)"
| "hid_inputLoop flags n (Suc k) i off p l = do {
     (p', l') \<leftarrow> hid_inputField flags n i off p l;
     hid_inputLoop flags n k (i + 1) (off + n) p' l'
   }"

definition hid_input ::
  "hid_parser \<Rightarrow> hidmouse_layout \<Rightarrow> u32 \<Rightarrow> (hid_error + hid_parser \<times> hidmouse_layout) option"
where
  "hid_input p l flags = do {
     let n = reportSize (p_g p);
     let cnt = reportCount (p_g p);
     let p = (if reportId (p_g p) = 0 then p\<lparr>sawIdlessInput := True\<rparr> else p\<lparr>sawIdInput := True\<rparr>);
     if sawIdlessInput p \<and> sawIdInput p then Some (Inl (EINVAL, ''mixed report ids''))
     else do {
       (p, r) \<leftarrow> hid_idBits p (ucast (reportId (p_g p)));
       case r of
         None \<Rightarrow> Some (Inl (EINVAL, ''too many report ids''))
       | Some j \<Rightarrow> do {
           (rid, bits) \<leftarrow> buf_get (p_ids p) j;
           if HID_MAX_REPORT_BITS < n \<or> HID_MAX_REPORT_BITS < cnt \<or>
              HID_MAX_REPORT_BITS - bits < n * cnt
           then Some (Inl (EINVAL, ''report too long''))
           else do {
             ids \<leftarrow> buf_put (p_ids p) j [(rid, bits + n * cnt)];
             let p = p\<lparr>p_ids := ids\<rparr>;
             if flags AND HID_INPUT_CONSTANT \<noteq> 0 \<or> flags AND HID_INPUT_VARIABLE = 0 \<or> n = 0 \<or>
                HID_MAX_FIELD_BITS < n
             then Some (Inr (p, l))
             else do {
               r \<leftarrow> hid_inputLoop flags n (unat cnt) 0 bits p l;
               Some (Inr r)
             }
           }
         }
     }
   }"

subsection \<open>Items\<close>

definition hid_main ::
  "hid_parser \<Rightarrow> hidmouse_layout \<Rightarrow> u8 \<Rightarrow> u32 \<Rightarrow> (hid_error + hid_parser \<times> hidmouse_layout) option"
where
  "hid_main p l tag v = do {
     r \<leftarrow> (if tag = 0x8 then hid_input p l v
          else if tag = 0x9 \<or> tag = 0xb then Some (Inr (p, l))
          else if tag = 0xa then
            if HID_MAX_DEPTH \<le> p_depth p then Some (Inl (EINVAL, ''collections too deep''))
            else Some (Inr (p\<lparr>p_depth := p_depth p + 1\<rparr>, l))
          else if tag = 0xc then
            if p_depth p = 0 then Some (Inl (EINVAL, ''unbalanced collection''))
            else Some (Inr (p\<lparr>p_depth := p_depth p - 1\<rparr>, l))
          else Some (Inl (EINVAL, ''bad main item'')));
     case r of
       Inl e \<Rightarrow> Some (Inl e)
     | Inr (p', l') \<Rightarrow> Some (Inr (hid_clearLocals p', l'))
   }"

definition hid_global :: "hid_parser \<Rightarrow> u8 \<Rightarrow> u8 list \<Rightarrow> nat \<Rightarrow> (hid_error + hid_parser) option" where
  "hid_global p tag data n = do {
     v \<leftarrow> hid_itemUnsigned data n;
     let g = p_g p;
     if tag = 0x0 then Some (Inr (p\<lparr>p_g := g\<lparr>usagePage := v AND 0xffff\<rparr>\<rparr>))
     else if tag = 0x1 then do {
       m \<leftarrow> hid_itemSigned data n;
       Some (Inr (p\<lparr>p_g := g\<lparr>logicalMin := m\<rparr>\<rparr>))
     }
     else if tag = 0x7 then Some (Inr (p\<lparr>p_g := g\<lparr>reportSize := v\<rparr>\<rparr>))
     else if tag = 0x9 then Some (Inr (p\<lparr>p_g := g\<lparr>reportCount := v\<rparr>\<rparr>))
     else if tag = 0x8 then
       if v = 0 \<or> 0xff < v then Some (Inl (EINVAL, ''bad report id''))
       else Some (Inr (p\<lparr>p_g := g\<lparr>reportId := v\<rparr>\<rparr>))
     else if tag = 0xa then
       if HID_MAX_STACK \<le> p_sp p then Some (Inl (EINVAL, ''push overflow''))
       else do {
         st \<leftarrow> buf_put (p_stack p) (p_sp p) [g];
         Some (Inr (p\<lparr>p_stack := st, p_sp := p_sp p + 1\<rparr>))
       }
     else if tag = 0xb then
       if p_sp p = 0 then Some (Inl (EINVAL, ''pop underflow''))
       else do {
         g' \<leftarrow> buf_get (p_stack p) (p_sp p - 1);
         Some (Inr (p\<lparr>p_g := g', p_sp := p_sp p - 1\<rparr>))
       }
     else Some (Inr p)
   }"

definition hid_local :: "hid_parser \<Rightarrow> u8 \<Rightarrow> u32 \<Rightarrow> nat \<Rightarrow> hid_parser option" where
  "hid_local p tag v n =
     (if tag = 0x0 then
        if nusages p < HID_MAX_USAGES then do {
          us \<leftarrow> buf_put (usages p) (nusages p) [hid_extendedUsage p v n];
          Some (p\<lparr>usages := us, nusages := nusages p + 1\<rparr>)
        } else Some (p\<lparr>usagesOverflow := True\<rparr>)
      else if tag = 0x1 then Some (p\<lparr>usageMin := hid_extendedUsage p v n, haveMin := True\<rparr>)
      else if tag = 0x2 then Some (p\<lparr>usageMax := hid_extendedUsage p v n, haveMax := True\<rparr>)
      else Some p)"

definition dataSize :: "nat list" where "dataSize = [0, 1, 2, 4]"

text \<open>One round of the descriptor walk, with the position of the next item.\<close>

definition hid_item ::
  "u8 list \<Rightarrow> nat \<Rightarrow> hid_parser \<Rightarrow> hidmouse_layout \<Rightarrow>
     (hid_error + nat \<times> hid_parser \<times> hidmouse_layout) option"
where
  "hid_item desc pos p l = do {
     let len = length desc;
     prefix \<leftarrow> buf_get desc pos;
     if prefix = HID_LONG_ITEM then
       if len - pos < 3 then Some (Inl (EINVAL, ''truncated long item''))
       else do {
         n \<leftarrow> buf_get desc (pos + 1);
         if len - pos - 3 < unat n then Some (Inl (EINVAL, ''truncated long item''))
         else Some (Inr (pos + 3 + unat n, p, l))
       }
     else do {
       n \<leftarrow> buf_get dataSize (unat (prefix AND 0x3));
       let type = drop_bit 2 prefix AND 0x3;
       let tag = drop_bit 4 prefix;
       let data = drop (pos + 1) desc;
       if len - pos - 1 < n then Some (Inl (EINVAL, ''truncated item''))
       else do {
         r \<leftarrow> (if type = 0 then do { v \<leftarrow> hid_itemUnsigned data n; hid_main p l tag v }
              else if type = 1 then do {
                r \<leftarrow> hid_global p tag data n;
                case r of Inl e \<Rightarrow> Some (Inl e) | Inr p' \<Rightarrow> Some (Inr (p', l))
              }
              else if type = 2 then do {
                v \<leftarrow> hid_itemUnsigned data n;
                p' \<leftarrow> hid_local p tag v n;
                Some (Inr (p', l))
              }
              else Some (Inl (EINVAL, ''reserved item'')));
         case r of
           Inl e \<Rightarrow> Some (Inl e)
         | Inr (p', l') \<Rightarrow> Some (Inr (pos + 1 + n, p', l'))
       }
     }
   }"

lemma hid_item_advances:
  "hid_item desc pos p l = Some (Inr (pos', p', l')) \<Longrightarrow> pos < pos'"
  by (auto simp: hid_item_def Let_def split: if_splits Option.bind_splits sum.splits)

function hid_items ::
  "u8 list \<Rightarrow> nat \<Rightarrow> hid_parser \<Rightarrow> hidmouse_layout \<Rightarrow> (hid_error + hid_parser \<times> hidmouse_layout) option"
where
  "hid_items desc pos p l =
     (if pos < length desc then
        case hid_item desc pos p l of
          None \<Rightarrow> None
        | Some (Inl e) \<Rightarrow> Some (Inl e)
        | Some (Inr (pos', p', l')) \<Rightarrow> hid_items desc pos' p' l'
      else Some (Inr (p, l)))"
  by pat_completeness auto

termination hid_items
  by (relation "measure (\<lambda>(desc, pos, p, l). length desc - pos)") (auto dest!: hid_item_advances)

declare hid_items.simps [simp del]

fun max_bits :: "(u8 \<times> u32) list \<Rightarrow> nat \<Rightarrow> nat \<Rightarrow> u32 \<Rightarrow> u32 option" where
  "max_bits ids 0 i m = Some m"
| "max_bits ids (Suc n) i m = do {
     e \<leftarrow> buf_get ids i;
     max_bits ids n (Suc i) (if m < snd e then snd e else m)
   }"

fun count_buttons :: "u32 \<Rightarrow> nat \<Rightarrow> nat \<Rightarrow> u8 \<Rightarrow> u8" where
  "count_buttons seen 0 i n = n"
| "count_buttons seen (Suc k) i n =
     count_buttons seen k (Suc i) (if seen AND push_bit i 1 \<noteq> 0 then n + 1 else n)"

definition hid_finish :: "hid_parser \<Rightarrow> hidmouse_layout \<Rightarrow> (hid_error + hidmouse_layout) option" where
  "hid_finish p l =
     (if p_depth p \<noteq> 0 then Some (Inl (EINVAL, ''unbalanced collection''))
      else if f_size (l_x l) = 0 \<or> f_size (l_y l) = 0
      then Some (Inl (ENOENT, if absXY p then ''absolute X/Y'' else ''no relative X/Y''))
      else do {
        m \<leftarrow> max_bits (p_ids p) (nids p) 0 0;
        let u = (if sawIdlessInput p then 0 else 1);
        Some (Inr (l\<lparr>useIds := u, maxReportLen := ucast ((m + 7) div 8 + ucast u),
          nbuttons := count_buttons (buttonsSeen p) 32 0 (nbuttons l)\<rparr>))
      })"

definition hidmouse_parse :: "u8 list \<Rightarrow> (hid_error + hidmouse_layout) option" where
  "hidmouse_parse desc =
     (if desc = [] then Some (Inl (EINVAL, ''empty descriptor''))
      else do {
        r \<leftarrow> hid_items desc 0 zero_parser zero_layout;
        case r of
          Inl e \<Rightarrow> Some (Inl e)
        | Inr (p, l) \<Rightarrow> hid_finish p l
      })"

subsection \<open>Configuration descriptors\<close>

function find_report :: "u8 list \<Rightarrow> nat \<Rightarrow> nat \<Rightarrow> nat \<Rightarrow> nat \<Rightarrow> nat \<Rightarrow> nat option" where
  "find_report conf pos dlen n i old =
     (if i < n \<and> 6 + 3 * i + 3 \<le> dlen then do {
        t \<leftarrow> buf_get conf (pos + 6 + 3 * i);
        if t = 0x22 then do {
          lo \<leftarrow> buf_get conf (pos + 7 + 3 * i);
          hi \<leftarrow> buf_get conf (pos + 8 + 3 * i);
          Some (unat (join16 hi lo))
        } else find_report conf pos dlen n (Suc i) old
      } else Some old)"
  by pat_completeness auto

termination find_report
  by (relation "measure (\<lambda>(conf, pos, dlen, n, i, old). n - i)") auto

declare find_report.simps [simp del]

text \<open>One descriptor of a configuration: whether the interface is the wanted one, the length of its
  report descriptor and the packet size of its interrupt endpoint.\<close>

definition find_desc ::
  "u8 list \<Rightarrow> nat \<Rightarrow> nat \<Rightarrow> u32 \<Rightarrow> bool \<times> nat \<times> nat \<Rightarrow> (bool \<times> nat \<times> nat) option"
where
  "find_desc conf pos dlen iface st = (case st of (inIface, rlen, maxp) \<Rightarrow> do {
     t \<leftarrow> buf_get conf (pos + 1);
     if t = 0x04 then
       if 9 \<le> dlen then do {
         a \<leftarrow> buf_get conf (pos + 2);
         b \<leftarrow> buf_get conf (pos + 3);
         Some (ucast a = iface \<and> b = 0, rlen, maxp)
       } else Some (False, rlen, maxp)
     else if t = 0x21 then
       if inIface \<and> 6 \<le> dlen then do {
         n \<leftarrow> buf_get conf (pos + 5);
         rlen' \<leftarrow> find_report conf pos dlen (unat n) 0 rlen;
         Some (inIface, rlen', maxp)
       } else Some st
     else if t = 0x05 then
       if inIface \<and> 7 \<le> dlen \<and> maxp = 0 then do {
         a \<leftarrow> buf_get conf (pos + 2);
         b \<leftarrow> buf_get conf (pos + 3);
         if a AND 0x80 \<noteq> 0 \<and> b AND 0x3 = 0x3 then do {
           lo \<leftarrow> buf_get conf (pos + 4);
           hi \<leftarrow> buf_get conf (pos + 5);
           Some (inIface, rlen, unat (join16 hi lo AND 0x7ff))
         } else Some st
       } else Some st
     else Some st
   })"

function find_loop :: "u8 list \<Rightarrow> nat \<Rightarrow> u32 \<Rightarrow> bool \<times> nat \<times> nat \<Rightarrow> (bool \<times> nat \<times> nat) option" where
  "find_loop conf pos iface st =
     (if pos + 2 \<le> length conf then
        case buf_get conf pos of
          None \<Rightarrow> None
        | Some d \<Rightarrow>
            if 2 \<le> unat d \<and> unat d \<le> length conf - pos then
              case find_desc conf pos (unat d) iface st of
                None \<Rightarrow> None
              | Some st' \<Rightarrow> find_loop conf (pos + unat d) iface st'
            else Some st
      else Some st)"
  by pat_completeness auto

termination find_loop
  by (relation "measure (\<lambda>(conf, pos, iface, st). length conf - pos)") auto

declare find_loop.simps [simp del]

definition hidmouse_findInterface :: "u8 list \<Rightarrow> u32 \<Rightarrow> (errno option \<times> nat \<times> nat) option" where
  "hidmouse_findInterface conf iface = do {
     (_, rlen, maxp) \<leftarrow> find_loop conf 0 iface (False, 0, 0);
     Some (if rlen \<noteq> 0 \<and> maxp \<noteq> 0 then None else Some ENOENT, rlen, maxp)
   }"

subsection \<open>Parser invariant\<close>

definition l_fields :: "hidmouse_layout \<Rightarrow> hidmouse_field list" where
  "l_fields l = l_button l @ [l_x l, l_y l, l_wheel l, l_hwheel l]"

text \<open>A field lies within the bits its report has so far.\<close>

definition field_ok :: "hid_parser \<Rightarrow> hidmouse_field \<Rightarrow> bool" where
  "field_ok p f \<longleftrightarrow> f_size f = 0 \<or>
     unat (f_size f) \<le> 32 \<and> (f_id f = 0 \<longleftrightarrow> sawIdlessInput p) \<and>
     (sawIdlessInput p \<or> sawIdInput p) \<and>
     (\<exists>k < nids p. fst (p_ids p ! k) = f_id f \<and>
        unat (f_off f) + unat (f_size f) \<le> unat (snd (p_ids p ! k)))"

definition globals_ok :: "hid_globals \<Rightarrow> bool" where
  "globals_ok g \<longleftrightarrow> unat (reportId g) < 256"

definition parser_ok :: "hid_parser \<Rightarrow> bool" where
  "parser_ok p \<longleftrightarrow>
     length (p_stack p) = HID_MAX_STACK \<and> p_sp p \<le> HID_MAX_STACK \<and>
     globals_ok (p_g p) \<and> (\<forall>g \<in> set (p_stack p). globals_ok g) \<and>
     length (usages p) = HID_MAX_USAGES \<and> nusages p \<le> HID_MAX_USAGES \<and>
     p_depth p \<le> HID_MAX_DEPTH \<and>
     length (p_ids p) = HID_MAX_IDS \<and> nids p \<le> HID_MAX_IDS \<and>
     (\<forall>k < nids p. unat (snd (p_ids p ! k)) \<le> 8192) \<and>
     \<not> (sawIdlessInput p \<and> sawIdInput p)"

definition pl_ok :: "hid_parser \<Rightarrow> hidmouse_layout \<Rightarrow> bool" where
  "pl_ok p l \<longleftrightarrow> parser_ok p \<and> length (l_button l) = HIDMOUSE_MAX_BUTTONS \<and>
     (\<forall>f \<in> set (l_fields l). field_ok p f) \<and> (f_size (l_x l) = 0 \<or> 2 \<le> f_size (l_x l)) \<and>
     (f_size (l_y l) = 0 \<or> 2 \<le> f_size (l_y l)) \<and> nbuttons l = 0"

lemma field_ok_none [simp]: "field_ok p no_field"
  by (simp add: field_ok_def no_field_def)

lemma pl_ok_zero: "pl_ok zero_parser zero_layout"
  by (auto simp: pl_ok_def parser_ok_def globals_ok_def zero_parser_def zero_layout_def
    zero_globals_def l_fields_def hid_limits) (simp_all add: no_field_def)

text \<open>Fields stay in place when the counts of the reports only grow.\<close>

definition grows :: "hid_parser \<Rightarrow> hid_parser \<Rightarrow> bool" where
  "grows p p' \<longleftrightarrow> sawIdlessInput p' = sawIdlessInput p \<and> sawIdInput p' = sawIdInput p \<and> nids p \<le> nids p' \<and>
     (\<forall>k < nids p. fst (p_ids p' ! k) = fst (p_ids p ! k) \<and>
        unat (snd (p_ids p ! k)) \<le> unat (snd (p_ids p' ! k)))"

lemma field_ok_grows:
  assumes "grows p p'" and "field_ok p f"
  shows "field_ok p' f"
proof (cases "f_size f = 0")
  case False
  with assms(2) obtain k where k: "k < nids p" "fst (p_ids p ! k) = f_id f"
      "unat (f_off f) + unat (f_size f) \<le> unat (snd (p_ids p ! k))"
    by (auto simp: field_ok_def)
  with assms(1) have "k < nids p'" "fst (p_ids p' ! k) = f_id f"
      "unat (f_off f) + unat (f_size f) \<le> unat (snd (p_ids p' ! k))"
    by (auto simp: grows_def intro: order_trans)
  with assms False show ?thesis by (auto simp: field_ok_def grows_def)
qed (simp add: field_ok_def)

lemma pl_ok_grows:
  assumes "pl_ok p l" and "grows p p'" and "parser_ok p'"
  shows "pl_ok p' l"
  using assms field_ok_grows by (auto simp: pl_ok_def)

lemma grows_refl:
  "sawIdlessInput p' = sawIdlessInput p \<Longrightarrow> sawIdInput p' = sawIdInput p \<Longrightarrow> nids p' = nids p \<Longrightarrow>
   p_ids p' = p_ids p \<Longrightarrow> grows p p'"
  by (simp add: grows_def)

lemma buf_get_Some: "i < length buf \<Longrightarrow> buf_get buf i = Some (buf ! i)"
  by (simp add: buf_get_def)

lemma buf_put_one: "i < length buf \<Longrightarrow> buf_put buf i [x] = Some (buf[i := x])"
  by (simp add: buf_put_def upd_conv_take_nth_drop)

lemma hid_itemLoop_Some: "n \<le> length data \<Longrightarrow> \<exists>v'. hid_itemLoop data n v = Some v'"
  by (induction n arbitrary: v) (auto simp: buf_get_Some)

lemma hid_itemUnsigned_Some: "n \<le> length data \<Longrightarrow> \<exists>v. hid_itemUnsigned data n = Some v"
  by (simp add: hid_itemUnsigned_def hid_itemLoop_Some)

lemma hid_idFind_Some:
  assumes "i + n \<le> length ids"
  shows "\<exists>r. hid_idFind ids n i rid = Some r \<and>
    (\<forall>j. r = Some j \<longrightarrow> j < i + n \<and> fst (ids ! j) = rid)"
  using assms
proof (induction n arbitrary: i)
  case (Suc n)
  then obtain r where "hid_idFind ids n (Suc i) rid = Some r"
      "\<forall>j. r = Some j \<longrightarrow> j < Suc i + n \<and> fst (ids ! j) = rid"
    using Suc.IH [of "Suc i"] by auto
  with Suc.prems show ?case by (auto simp: buf_get_Some)
qed simp

lemma hid_idBits_ok:
  assumes "pl_ok p l"
  obtains p' r where "hid_idBits p rid = Some (p', r)" "pl_ok p' l" "grows p p'"
    "p_g p' = p_g p" "sawIdlessInput p' = sawIdlessInput p" "sawIdInput p' = sawIdInput p"
    "\<And>j. r = Some j \<Longrightarrow> j < nids p' \<and> fst (p_ids p' ! j) = rid"
proof -
  note ok = assms [unfolded pl_ok_def parser_ok_def]
  obtain r where r: "hid_idFind (p_ids p) (nids p) 0 rid = Some r"
      "\<And>j. r = Some j \<Longrightarrow> j < nids p \<and> fst (p_ids p ! j) = rid"
    using hid_idFind_Some [of 0 "nids p" "p_ids p" rid] ok by auto
  show thesis
  proof (cases r)
    case (Some j)
    with r assms show thesis by (intro that [of p r]) (auto simp: hid_idBits_def grows_refl)
  next
    case None
    show thesis
    proof (cases "HID_MAX_IDS \<le> nids p")
      case True
      with r None assms show thesis by (intro that [of p None]) (auto simp: hid_idBits_def grows_refl)
    next
      case False
      let ?p = "p\<lparr>p_ids := (p_ids p)[nids p := (rid, 0)], nids := nids p + 1\<rparr>"
      have n: "nids p < length (p_ids p)" using ok False by simp
      have "grows p ?p" using n by (auto simp: grows_def nth_list_update)
      moreover have "parser_ok ?p"
        using ok False n by (auto simp: parser_ok_def nth_list_update)
      ultimately show thesis
        using r None False n assms
        by (intro that [of ?p "Some (nids p)"])
          (auto simp: hid_idBits_def buf_put_one intro: pl_ok_grows)
    qed
  qed
qed

lemma hid_fieldUsage_Some:
  assumes "parser_ok p"
  shows "\<exists>u. hid_fieldUsage p i = Some u"
  using assms by (auto simp: hid_fieldUsage_def parser_ok_def buf_get_def hid_limits)

text \<open>Where a new field lies, relative to the entry of its report.\<close>

lemma hid_setField_ok:
  assumes "parser_ok p" and "k < nids p" and "fst (p_ids p ! k) = ucast (reportId (p_g p))"
    and "(reportId (p_g p) = 0 \<longleftrightarrow> sawIdlessInput p) \<and> (sawIdlessInput p \<or> sawIdInput p)"
    and "unat off + unat n \<le> unat (snd (p_ids p ! k))" and "unat n \<le> 32"
  shows "field_ok p (hid_setField p off n)" and "f_size (hid_setField p off n) = ucast n"
    and "unat (ucast n :: u8) = unat n"
proof -
  have "unat off < 2 ^ 16" using assms(1,2,5) by (fastforce simp: parser_ok_def)
  then have o: "unat (ucast off :: u16) = unat off"
    by (simp add: unsigned_ucast_eq take_bit_nat_eq_self_iff)
  show n: "unat (ucast n :: u8) = unat n"
    using assms(6) by (simp add: unsigned_ucast_eq take_bit_nat_eq_self_iff)
  have r: "unat (ucast (reportId (p_g p)) :: u8) = unat (reportId (p_g p))"
    using assms(1) by (simp add: parser_ok_def globals_ok_def unsigned_ucast_eq take_bit_nat_eq_self_iff)
  have "(ucast (reportId (p_g p)) :: u8) = 0 \<longleftrightarrow> reportId (p_g p) = 0"
    using r by (metis unat_eq_0)
  with o n assms(2-6) show "field_ok p (hid_setField p off n)"
    unfolding field_ok_def hid_setField_def by auto
  show "f_size (hid_setField p off n) = ucast n" by (simp add: hid_setField_def)
qed

text \<open>The situation in which the fields of an Input item are visited: the report's entry is \<open>k\<close>.\<close>

definition in_item :: "nat \<Rightarrow> u32 \<Rightarrow> hid_parser \<Rightarrow> bool" where
  "in_item k n p \<longleftrightarrow> k < nids p \<and> fst (p_ids p ! k) = ucast (reportId (p_g p)) \<and>
     ((reportId (p_g p) = 0 \<longleftrightarrow> sawIdlessInput p) \<and> (sawIdlessInput p \<or> sawIdInput p)) \<and> 0 < unat n \<and> unat n \<le> 32"

lemma parser_ok_seen [simp]:
  "parser_ok (p\<lparr>buttonsSeen := b\<rparr>) = parser_ok p" "parser_ok (p\<lparr>absXY := c\<rparr>) = parser_ok p"
  by (simp_all add: parser_ok_def)

lemma field_ok_seen [simp]:
  "field_ok (p\<lparr>buttonsSeen := b\<rparr>) = field_ok p" "field_ok (p\<lparr>absXY := c\<rparr>) = field_ok p"
  by (simp_all add: field_ok_def fun_eq_iff)

lemma pl_ok_seen [simp]:
  "pl_ok (p\<lparr>buttonsSeen := b\<rparr>) l = pl_ok p l" "pl_ok (p\<lparr>absXY := c\<rparr>) l = pl_ok p l"
  by (simp_all add: pl_ok_def)

lemma pl_ok_set:
  assumes "pl_ok p l" and "field_ok p f"
  shows "i < 8 \<Longrightarrow> pl_ok p (l\<lparr>l_button := (l_button l)[i := f]\<rparr>)"
    and "2 \<le> f_size f \<Longrightarrow> pl_ok p (l\<lparr>l_x := f\<rparr>)" and "2 \<le> f_size f \<Longrightarrow> pl_ok p (l\<lparr>l_y := f\<rparr>)"
    and "pl_ok p (l\<lparr>l_wheel := f\<rparr>)" and "pl_ok p (l\<lparr>l_hwheel := f\<rparr>)"
  using assms set_update_subset_insert [of "l_button l" i f] by (auto simp: pl_ok_def l_fields_def)

lemma hid_inputField_ok:
  assumes ok: "pl_ok p l" and it: "in_item k n p"
    and off: "unat off + unat n \<le> unat (snd (p_ids p ! k))"
  shows "\<exists>p' l'. hid_inputField flags n i off p l = Some (p', l') \<and> pl_ok p' l' \<and>
    in_item k n p' \<and> p_ids p' = p_ids p"
proof -
  let ?f = "hid_setField p off n"
  have p: "parser_ok p" and len: "length (l_button l) = 8"
    using ok by (simp_all add: pl_ok_def hid_limits)
  note f = hid_setField_ok [OF p, of k off n]
  have fo: "field_ok p ?f" and fs: "2 \<le> n \<Longrightarrow> 2 \<le> f_size ?f"
    using f it off by (simp_all add: in_item_def word_le_nat_alt)
  have seen: "in_item k n (p\<lparr>buttonsSeen := b\<rparr>)" "in_item k n (p\<lparr>absXY := c\<rparr>)" for b c
    using it by (simp_all add: in_item_def)
  obtain u where u: "hid_fieldUsage p i = Some u" using hid_fieldUsage_Some [OF p] by blast
  have idx: "unat ((u AND 0xffff) - 1) < 8" if "1 \<le> u AND 0xffff" "u AND 0xffff \<le> 8"
    using that by (simp add: word_le_nat_alt unat_sub)
  show ?thesis
  proof (cases "drop_bit 16 u = HID_PAGE_BUTTON")
    case True
    note sets = pl_ok_set(1) [OF ok fo]
    from True show ?thesis
      by (simp add: hid_inputField_def Let_def u)
        (auto simp: buf_get_Some buf_put_one len idx ok it seen intro: sets idx)
  next
    case False
    note sets = pl_ok_set(2-) [OF ok fo]
    from False show ?thesis
      by (simp add: hid_inputField_def Let_def u) (auto simp: ok it seen intro: sets fs)
  qed
qed

lemma hid_inputLoop_ok:
  assumes "pl_ok p l" and "in_item k n p"
    and "unat off + c * unat n \<le> unat (snd (p_ids p ! k))"
  shows "\<exists>p' l'. hid_inputLoop flags n c i off p l = Some (p', l') \<and> pl_ok p' l'"
  using assms
proof (induction c arbitrary: i off p l)
  case (Suc c)
  have "unat off + unat n \<le> unat (snd (p_ids p ! k))" using Suc.prems(3) by simp
  from hid_inputField_ok [OF Suc.prems(1,2) this] obtain p' l' where
    s: "hid_inputField flags n i off p l = Some (p', l')" "pl_ok p' l'" "in_item k n p'"
      "p_ids p' = p_ids p"
    by blast
  have "unat (snd (p_ids p ! k)) \<le> 8192"
    using Suc.prems(1,2) by (simp add: pl_ok_def parser_ok_def in_item_def)
  then have "unat (off + n) = unat off + unat n"
    using Suc.prems(3) by (subst unat_plus_if') auto
  with Suc.IH [OF s(2,3), of "off + n" "i + 1"] Suc.prems(3) s show ?case
    by (simp add: algebra_simps)
qed simp

lemma mark_input_ok:
  assumes "pl_ok p l"
    and "p' = (if reportId (p_g p) = 0 then p\<lparr>sawIdlessInput := True\<rparr> else p\<lparr>sawIdInput := True\<rparr>)"
    and "\<not> (sawIdlessInput p' \<and> sawIdInput p')"
  shows "pl_ok p' l" and "(reportId (p_g p') = 0 \<longleftrightarrow> sawIdlessInput p') \<and> (sawIdlessInput p' \<or> sawIdInput p')"
proof -
  have "parser_ok p'" using assms by (auto simp: pl_ok_def parser_ok_def split: if_splits)
  moreover have "field_ok p' f" if "field_ok p f" for f
    using that assms(2,3) by (auto simp: field_ok_def split: if_splits)
  ultimately show "pl_ok p' l" using assms(1) by (simp add: pl_ok_def)
  show "(reportId (p_g p') = 0 \<longleftrightarrow> sawIdlessInput p') \<and> (sawIdlessInput p' \<or> sawIdInput p')"
    using assms(2,3) by (auto split: if_splits)
qed

text \<open>The product of a size and a count within the limit is exact.\<close>

lemma report_bits:
  fixes n c b :: u32
  assumes "\<not> HID_MAX_REPORT_BITS < n" and "\<not> HID_MAX_REPORT_BITS < c"
    and "\<not> HID_MAX_REPORT_BITS - b < n * c" and "unat b \<le> 8192"
  shows "unat (n * c) = unat n * unat c" and "unat (b + n * c) = unat b + unat n * unat c"
    and "unat b + unat n * unat c \<le> 8192"
proof -
  have "unat n \<le> 8192" "unat c \<le> 8192"
    using assms(1,2) by (simp_all add: HID_MAX_REPORT_BITS_def word_less_nat_alt)
  then have "unat n * unat c \<le> 8192 * 8192" by (rule mult_le_mono)
  then show e: "unat (n * c) = unat n * unat c" by (simp add: unat_mult_lem [symmetric])
  have "b \<le> 8192" using assms(4) by (simp add: word_le_nat_alt)
  then have "unat (8192 - b) = 8192 - unat b" by (simp add: unat_sub)
  then have "unat n * unat c \<le> 8192 - unat b"
    using assms(3) e by (simp add: HID_MAX_REPORT_BITS_def word_less_nat_alt)
  then show s: "unat b + unat n * unat c \<le> 8192" using assms(4) by simp
  then show "unat (b + n * c) = unat b + unat n * unat c"
    using e by (subst unat_plus_if') auto
qed

text \<open>The fields of an Input item that fits, once its bits are added to those of its report.\<close>

lemma hid_report_ok:
  assumes ok: "pl_ok p l" and j: "j < nids p" "fst (p_ids p ! j) = ucast (reportId (p_g p))"
    and ids: "(reportId (p_g p) = 0 \<longleftrightarrow> sawIdlessInput p) \<and> (sawIdlessInput p \<or> sawIdInput p)"
    and fits: "\<not> (HID_MAX_REPORT_BITS < n \<or> HID_MAX_REPORT_BITS < c \<or>
      HID_MAX_REPORT_BITS - b < n * c)" and b: "b = snd (p_ids p ! j)"
    and p': "p' = p\<lparr>p_ids := (p_ids p)[j := (fst (p_ids p ! j), b + n * c)]\<rparr>"
  shows "pl_ok p' l"
    and "n \<noteq> 0 \<Longrightarrow> \<not> HID_MAX_FIELD_BITS < n \<Longrightarrow>
      \<exists>p'' l''. hid_inputLoop flags n (unat c) 0 b p' l = Some (p'', l'') \<and> pl_ok p'' l''"
proof -
  note ok' = ok [unfolded pl_ok_def parser_ok_def]
  have jl: "j < length (p_ids p)" and "unat b \<le> 8192" using j ok' b by simp_all
  note rb = report_bits [of n c b, OF _ _ _ this(2)]
  have gr: "grows p p'" using jl rb fits b by (auto simp: grows_def p' nth_list_update)
  have "parser_ok p'" using ok' rb fits jl by (auto simp: parser_ok_def p' nth_list_update)
  then show k: "pl_ok p' l" using pl_ok_grows [OF ok gr] by blast
  assume n: "n \<noteq> 0" "\<not> HID_MAX_FIELD_BITS < n"
  have "in_item j n p'"
    using j ids n jl by (simp add: in_item_def p' HID_MAX_FIELD_BITS_def word_less_nat_alt unat_gt_0)
  moreover have "unat b + unat c * unat n \<le> unat (snd (p_ids p' ! j))"
    using rb fits jl by (simp add: p' mult.commute)
  ultimately show "\<exists>p'' l''. hid_inputLoop flags n (unat c) 0 b p' l = Some (p'', l'') \<and> pl_ok p'' l''"
    using hid_inputLoop_ok [OF k] by blast
qed

lemma hid_input_ok:
  assumes "pl_ok p l"
  shows "\<exists>r. hid_input p l flags = Some r \<and> (\<forall>p' l'. r = Inr (p', l') \<longrightarrow> pl_ok p' l')"
proof -
  let ?n = "reportSize (p_g p)" let ?c = "reportCount (p_g p)"
  define p1 where "p1 = (if reportId (p_g p) = 0 then p\<lparr>sawIdlessInput := True\<rparr>
    else p\<lparr>sawIdInput := True\<rparr>)"
  show ?thesis
  proof (cases "sawIdlessInput p1 \<and> sawIdInput p1")
    case False
    note m = mark_input_ok [OF assms p1_def False]
    obtain p2 r where p2: "hid_idBits p1 (ucast (reportId (p_g p1))) = Some (p2, r)" "pl_ok p2 l"
        "p_g p2 = p_g p1" "sawIdlessInput p2 = sawIdlessInput p1" "sawIdInput p2 = sawIdInput p1"
        "\<And>j. r = Some j \<Longrightarrow> j < nids p2 \<and> fst (p_ids p2 ! j) = ucast (reportId (p_g p1))"
      by (rule hid_idBits_ok [OF m(1)]) blast
    have len: "length (p_ids p2) = HID_MAX_IDS" "nids p2 \<le> HID_MAX_IDS"
      using p2(2) by (simp_all add: pl_ok_def parser_ok_def)
    show ?thesis
    proof (cases r)
      case None
      with False p2(1) show ?thesis by (auto simp: hid_input_def Let_def simp flip: p1_def)
    next
      case (Some j)
      then have j: "j < nids p2" "fst (p_ids p2 ! j) = ucast (reportId (p_g p2))"
        using p2(3,6) by auto
      then have jl: "j < length (p_ids p2)" using len by simp
      let ?b = "snd (p_ids p2 ! j)"
      let ?long = "HID_MAX_REPORT_BITS < ?n \<or> HID_MAX_REPORT_BITS < ?c \<or>
        HID_MAX_REPORT_BITS - ?b < ?n * ?c"
      define p3 where "p3 = p2\<lparr>p_ids := (p_ids p2)[j := (fst (p_ids p2 ! j), ?b + ?n * ?c)]\<rparr>"
      have eq: "hid_input p l flags =
          (if ?long then Some (Inl (EINVAL, ''report too long''))
           else if flags AND HID_INPUT_CONSTANT \<noteq> 0 \<or> flags AND HID_INPUT_VARIABLE = 0 \<or> ?n = 0 \<or>
             HID_MAX_FIELD_BITS < ?n
           then Some (Inr (p3, l))
           else do { r \<leftarrow> hid_inputLoop flags ?n (unat ?c) 0 ?b p3 l; Some (Inr r) })"
        using False p2(1) Some jl
        by (auto simp: hid_input_def Let_def buf_get_Some buf_put_one case_prod_beta
          simp flip: p1_def p3_def)
      have "(reportId (p_g p2) = 0 \<longleftrightarrow> sawIdlessInput p2) \<and> (sawIdlessInput p2 \<or> sawIdInput p2)"
        using m(2) p2(3-5) by simp
      note rep = hid_report_ok [OF p2(2) j this _ refl p3_def]
      show ?thesis
        by (cases ?long) (use eq rep(1) rep(2) [where flags = flags] in \<open>auto\<close>)
    qed
  qed (simp add: hid_input_def Let_def flip: p1_def)
qed

lemma hid_main_ok:
  assumes "pl_ok p l"
  shows "\<exists>r. hid_main p l tag v = Some r \<and> (\<forall>p' l'. r = Inr (p', l') \<longrightarrow> pl_ok p' l')"
proof -
  have clear: "pl_ok (hid_clearLocals q) m" if "pl_ok q m" for q m
    using that by (auto simp: pl_ok_def parser_ok_def field_ok_def hid_clearLocals_def)
  have depth: "pl_ok (p\<lparr>p_depth := d\<rparr>) l" if "d \<le> HID_MAX_DEPTH" for d
    using assms that by (auto simp: pl_ok_def parser_ok_def field_ok_def)
  obtain r where "hid_input p l v = Some r" "\<forall>p' l'. r = Inr (p', l') \<longrightarrow> pl_ok p' l'"
    using hid_input_ok [OF assms] by blast
  moreover have "p_depth p \<le> HID_MAX_DEPTH" using assms by (simp add: pl_ok_def parser_ok_def)
  ultimately show ?thesis
    using clear depth assms by (auto simp: hid_main_def split: sum.splits)
qed

lemma hid_global_ok:
  assumes "pl_ok p l" and "n \<le> length data"
  shows "\<exists>r. hid_global p tag data n = Some r \<and> (\<forall>p'. r = Inr p' \<longrightarrow> pl_ok p' l)"
proof -
  obtain v where v: "hid_itemUnsigned data n = Some v"
    using hid_itemUnsigned_Some [OF assms(2)] by blast
  then obtain m where m: "hid_itemSigned data n = Some m" by (simp add: hid_itemSigned_def)
  have set_g: "pl_ok (p\<lparr>p_g := g\<rparr>) l" if "globals_ok g" for g
    using assms(1) that by (auto simp: pl_ok_def parser_ok_def field_ok_def)
  have push: "pl_ok (p\<lparr>p_stack := (p_stack p)[p_sp p := p_g p], p_sp := Suc (p_sp p)\<rparr>) l"
    if "p_sp p < HID_MAX_STACK"
    using assms(1) that set_update_subset_insert [of "p_stack p" "p_sp p" "p_g p"]
    by (auto simp: pl_ok_def parser_ok_def field_ok_def)
  have pop: "pl_ok (p\<lparr>p_g := p_stack p ! (p_sp p - Suc 0), p_sp := p_sp p - Suc 0\<rparr>) l" if "0 < p_sp p"
    using assms(1) that by (auto simp: pl_ok_def parser_ok_def field_ok_def)
  have len: "length (p_stack p) = HID_MAX_STACK" "p_sp p \<le> HID_MAX_STACK" "globals_ok (p_g p)"
    using assms(1) by (simp_all add: pl_ok_def parser_ok_def)
  have rid: "pl_ok (p\<lparr>p_g := (p_g p)\<lparr>reportId := v\<rparr>\<rparr>) l" if "\<not> 0xff < v"
    using that by (intro set_g) (simp add: globals_ok_def word_less_nat_alt)
  show ?thesis
    using len assms(1) push pop
    by (simp add: hid_global_def v m Let_def buf_get_Some buf_put_one set_g rid globals_ok_def)
qed

lemma hid_local_ok:
  assumes "pl_ok p l"
  shows "\<exists>p'. hid_local p tag v n = Some p' \<and> pl_ok p' l"
  using assms
  by (auto simp: hid_local_def buf_put_one pl_ok_def parser_ok_def field_ok_def)

lemma hid_item_ok:
  assumes "pl_ok p l" and "pos < length desc"
  shows "\<exists>r. hid_item desc pos p l = Some r \<and>
    (\<forall>pos' p' l'. r = Inr (pos', p', l') \<longrightarrow> pl_ok p' l')"
proof -
  let ?prefix = "desc ! pos"
  let ?n = "dataSize ! unat (?prefix AND 0x3)"
  have "unat (?prefix AND 0x3) < 4"
    using unat_mask_less [of ?prefix 2] by (simp add: mask_eq_exp_minus_1)
  then have n: "buf_get dataSize (unat (?prefix AND 0x3)) = Some ?n"
    by (intro buf_get_Some) (simp add: dataSize_def)
  show ?thesis
  proof (cases "?prefix = HID_LONG_ITEM")
    case True
    with assms show ?thesis by (auto simp: hid_item_def buf_get_def Let_def)
  next
    case False
    show ?thesis
    proof (cases "length desc - pos - 1 < ?n")
      case True
      with False n assms show ?thesis by (simp add: hid_item_def buf_get_Some [OF assms(2)] Let_def)
    next
      case fits: False
      let ?data = "drop (pos + 1) desc"
      have len: "?n \<le> length ?data" using fits by simp
      obtain v where v: "hid_itemUnsigned ?data ?n = Some v"
        using hid_itemUnsigned_Some [OF len] by blast
      obtain rm where rm: "hid_main p l (drop_bit 4 ?prefix) v = Some rm"
          "\<forall>p' l'. rm = Inr (p', l') \<longrightarrow> pl_ok p' l'"
        using hid_main_ok [OF assms(1)] by blast
      obtain rg where rg: "hid_global p (drop_bit 4 ?prefix) ?data ?n = Some rg"
          "\<forall>p'. rg = Inr p' \<longrightarrow> pl_ok p' l"
        using hid_global_ok [OF assms(1) len] by blast
      obtain rl where rl: "hid_local p (drop_bit 4 ?prefix) v ?n = Some rl" "pl_ok rl l"
        using hid_local_ok [OF assms(1)] by blast
      from False fits n rm rg rl v show ?thesis
        by (auto simp: hid_item_def buf_get_Some [OF assms(2)] Let_def split: sum.splits)
    qed
  qed
qed

lemma hid_items_ok:
  assumes "pl_ok p l"
  shows "\<exists>r. hid_items desc pos p l = Some r \<and> (\<forall>p' l'. r = Inr (p', l') \<longrightarrow> pl_ok p' l')"
  using assms
proof (induction desc pos p l rule: hid_items.induct)
  case (1 desc pos p l)
  show ?case
  proof (cases "pos < length desc")
    case True
    obtain r where r: "hid_item desc pos p l = Some r"
        "\<forall>pos' p' l'. r = Inr (pos', p', l') \<longrightarrow> pl_ok p' l'"
      using hid_item_ok [OF 1(2) True] by blast
    show ?thesis
    proof (cases r)
      case (Inr t)
      with r 1(1) [OF True r(1) Inr] True show ?thesis
        by (cases t) (auto simp: hid_items.simps [of desc pos])
    qed (use r True in \<open>simp add: hid_items.simps [of desc pos]\<close>)
  qed (use 1(2) in \<open>simp add: hid_items.simps [of desc pos]\<close>)
qed

lemma max_bits_ok:
  assumes "i + n \<le> length ids" and "unat m \<le> 8192"
    and "\<forall>k < i + n. unat (snd (ids ! k)) \<le> 8192" and "\<forall>k < i. snd (ids ! k) \<le> m"
  shows "\<exists>m'. max_bits ids n i m = Some m' \<and> unat m' \<le> 8192 \<and> (\<forall>k < i + n. snd (ids ! k) \<le> m')"
  using assms
proof (induction n arbitrary: i m)
  case (Suc n)
  let ?m = "if m < snd (ids ! i) then snd (ids ! i) else m"
  have "\<forall>k < Suc i. snd (ids ! k) \<le> ?m"
    using Suc.prems(4) by (auto simp: less_Suc_eq not_less intro: order_trans)
  with Suc.IH [of "Suc i" ?m] Suc.prems show ?case by (simp add: buf_get_Some)
qed simp

subsection \<open>Layouts\<close>

text \<open>A layout the driver can use: fields of at most 32 bits that end within the longest report,
  Report IDs exactly when the device uses them, and a horizontal and a vertical axis.\<close>

definition layout_ok :: "hidmouse_layout \<Rightarrow> bool" where
  "layout_ok l \<longleftrightarrow> length (l_button l) = HIDMOUSE_MAX_BUTTONS \<and> unat (useIds l) \<le> 1 \<and>
     unat (maxReportLen l) \<le> 1025 \<and> 2 \<le> f_size (l_x l) \<and> 2 \<le> f_size (l_y l) \<and>
     (\<forall>f \<in> set (l_fields l). f_size f \<noteq> 0 \<longrightarrow> f_size f \<le> 32 \<and> (f_id f = 0 \<longleftrightarrow> useIds l = 0) \<and>
        unat (f_off f) + unat (f_size f) \<le> 8 * (unat (maxReportLen l) - unat (useIds l)))"

lemma report_len:
  fixes m u :: u32
  assumes "unat m \<le> 8192" and "unat u \<le> 1"
  shows "unat (ucast ((m + 7) div 8 + u) :: u16) = (unat m + 7) div 8 + unat u"
proof -
  have "unat (m + 7) = unat m + 7" using assms(1) by (subst unat_plus_if') auto
  then have d: "unat ((m + 7) div 8) = (unat m + 7) div 8" by (simp add: unat_div_distrib)
  have le: "(unat m + 7) div 8 \<le> 1024" using assms(1) by simp
  with d have "unat ((m + 7) div 8 + u) = (unat m + 7) div 8 + unat u"
    using assms(2) by (subst unat_plus_if') auto
  with le assms(2) show ?thesis
    by (simp add: unsigned_ucast_eq take_bit_nat_eq_self_iff)
qed

lemma hid_finish_ok:
  assumes "pl_ok p l"
  shows "\<exists>r. hid_finish p l = Some r \<and> (\<forall>l'. r = Inr l' \<longrightarrow> layout_ok l')"
proof (cases "p_depth p \<noteq> 0 \<or> f_size (l_x l) = 0 \<or> f_size (l_y l) = 0")
  case False
  note ok = assms [unfolded pl_ok_def parser_ok_def]
  obtain m where m: "max_bits (p_ids p) (nids p) 0 0 = Some m" "unat m \<le> 8192"
      "\<forall>k < nids p. snd (p_ids p ! k) \<le> m"
    using max_bits_ok [of 0 "nids p" "p_ids p" 0] ok by auto
  define u :: u8 where "u = (if sawIdlessInput p then 0 else 1)"
  let ?l = "l\<lparr>useIds := u, maxReportLen := ucast ((m + 7) div 8 + ucast u),
    nbuttons := count_buttons (buttonsSeen p) 32 0 (nbuttons l)\<rparr>"
  have eq: "hid_finish p l = Some (Inr ?l)" using False m(1) by (simp add: hid_finish_def u_def)
  have u: "unat u \<le> 1" "unat (ucast u :: u32) = unat u" by (simp_all add: u_def)
  have len: "unat (maxReportLen ?l) = (unat m + 7) div 8 + unat u"
    using report_len [OF m(2), of "ucast u"] u by simp
  have "unat (f_off f) + unat (f_size f) \<le> 8 * (unat (maxReportLen ?l) - unat u)"
    and "f_size f \<le> 32" and "f_id f = 0 \<longleftrightarrow> u = 0"
    if inl: "f \<in> set (l_fields l)" and nz: "f_size f \<noteq> 0" for f
  proof -
    from inl ok have f: "field_ok p f" by auto
    then obtain k where "k < nids p" "unat (f_off f) + unat (f_size f) \<le> unat (snd (p_ids p ! k))"
      using nz by (auto simp: field_ok_def)
    moreover have "unat (snd (p_ids p ! k)) \<le> unat m"
      using m(3) \<open>k < nids p\<close> by (simp add: word_le_nat_alt)
    moreover have "unat m \<le> 8 * ((unat m + 7) div 8)" by presburger
    ultimately show "unat (f_off f) + unat (f_size f) \<le> 8 * (unat (maxReportLen ?l) - unat u)"
      using len by simp
    show "f_size f \<le> 32" "f_id f = 0 \<longleftrightarrow> u = 0"
      using f nz by (auto simp: field_ok_def u_def word_le_nat_alt)
  qed
  moreover have "unat (maxReportLen ?l) \<le> 1025" using len m(2) u(1) by simp
  moreover have "l_fields ?l = l_fields l" by (simp add: l_fields_def)
  ultimately have "layout_ok ?l" using ok False u(1) by (simp add: layout_ok_def)
  with eq show ?thesis by simp
qed (auto simp: hid_finish_def)

lemma hidmouse_parse_ok:
  "\<exists>r. hidmouse_parse desc = Some r \<and> (case r of Inl e \<Rightarrow> True | Inr l \<Rightarrow> layout_ok l)"
proof (cases "desc = []")
  case False
  obtain r where r: "hid_items desc 0 zero_parser zero_layout = Some r"
      "\<forall>p' l'. r = Inr (p', l') \<longrightarrow> pl_ok p' l'"
    using hid_items_ok [OF pl_ok_zero] by blast
  show ?thesis
  proof (cases r)
    case (Inr t)
    then obtain p l where t: "r = Inr (p, l)" by (cases t) auto
    with r(2) hid_finish_ok [of p l] obtain r' where
      "hid_finish p l = Some r'" "\<forall>l'. r' = Inr l' \<longrightarrow> layout_ok l'" by auto
    with False r(1) t show ?thesis by (auto simp: hidmouse_parse_def split: sum.splits)
  qed (use False r(1) in \<open>simp add: hidmouse_parse_def\<close>)
qed (simp add: hidmouse_parse_def)

lemma hid_parse_layout: "hidmouse_parse desc = Some (Inr l) \<Longrightarrow> layout_ok l"
  using hidmouse_parse_ok [of desc] by simp

text \<open>C31. The descriptor parser is safe on any input: it always returns, reads no byte outside the
  descriptor and no array element outside the parser's arrays, and a layout it accepts has two
  axes, fields of at most 32 bits that lie within the longest report it announces, and Report IDs
  in all fields or in none.\<close>

theorem hid_parse_safe:
  "\<exists>r. hidmouse_parse desc = Some r \<and> (case r of Inl e \<Rightarrow> True | Inr l \<Rightarrow> layout_ok l)"
  by (rule hidmouse_parse_ok)

text \<open>The walk over a configuration descriptor.\<close>

lemma find_report_ok:
  assumes "pos + dlen \<le> length conf" and "old < 65536"
  shows "\<exists>r. find_report conf pos dlen n i old = Some r \<and> r < 65536"
  using assms
proof (induction conf pos dlen n i old rule: find_report.induct)
  case (1 conf pos dlen n i old)
  show ?case
  proof (cases "i < n \<and> 6 + 3 * i + 3 \<le> dlen")
    case True
    have "pos + 6 + 3 * i < length conf" "pos + 7 + 3 * i < length conf" "pos + 8 + 3 * i < length conf"
      using True "1.prems"(1) by simp_all
    note g = this [THEN buf_get_Some]
    have "unat (w :: u16) < 65536" for w using unsigned_less [of w, where 'a = nat] by simp
    with True g "1.IH" [OF True g(1)] "1.prems" show ?thesis
      by (subst find_report.simps) auto
  qed (subst find_report.simps, use "1.prems" in auto)
qed

lemma find_desc_ok:
  assumes "pos + dlen \<le> length conf" and "2 \<le> dlen" and "r < 65536" and "m \<le> 0x7ff"
  shows "\<exists>b r' m'. find_desc conf pos dlen iface (inI, r, m) = Some (b, r', m') \<and> r' < 65536 \<and> m' \<le> 0x7ff"
proof -
  have g: "buf_get conf (pos + k) = Some (conf ! (pos + k))" if "k < dlen" for k
    using that assms(1) by (intro buf_get_Some) simp
  have le: "unat (w AND 0x7ff :: u16) \<le> 0x7ff" for w
    using unat_mask_less [of w 11] by (simp add: mask_eq_exp_minus_1)
  obtain r' where "find_report conf pos dlen (unat (conf ! (pos + 5))) 0 r = Some r'" "r' < 65536"
    using find_report_ok [OF assms(1,3)] by blast
  moreover note gs = g [of 1, simplified] g [of 2, simplified] g [of 3] g [of 4] g [of 5]
  ultimately show ?thesis using assms(2-4) le by (auto simp: find_desc_def gs)
qed

lemma find_loop_ok:
  assumes "r < 65536" and "m \<le> 0x7ff"
  shows "\<exists>b r' m'. find_loop conf pos iface (inI, r, m) = Some (b, r', m') \<and> r' < 65536 \<and> m' \<le> 0x7ff"
  using assms
proof (induction conf pos iface "(inI, r, m)" arbitrary: inI r m rule: find_loop.induct)
  case (1 conf pos iface)
  show ?case
  proof (cases "pos + 2 \<le> length conf")
    case True
    let ?d = "conf ! pos"
    have g: "buf_get conf pos = Some ?d" using True by (intro buf_get_Some) simp
    show ?thesis
    proof (cases "2 \<le> unat ?d \<and> unat ?d \<le> length conf - pos")
      case d: True
      obtain b r' m' where f: "find_desc conf pos (unat ?d) iface (inI, r, m) = Some (b, r', m')"
          "r' < 65536" "m' \<le> 0x7ff"
        using find_desc_ok [OF _ _ 1(2,3), of pos "unat ?d" conf iface inI] d True by fastforce
      with 1(1) [OF True g d f(1)] True g d show ?thesis
        by (simp add: find_loop.simps [of conf pos])
    qed (subst find_loop.simps, use True g 1(2,3) in auto)
  qed (subst find_loop.simps, use 1(2,3) in auto)
qed

text \<open>C34. The walk over a configuration descriptor returns on any input and reads no byte outside it;
  it succeeds exactly when it found a report descriptor length and a packet size, and these are in
  range.\<close>

theorem hid_find_safe:
  "\<exists>e r m. hidmouse_findInterface conf iface = Some (e, r, m) \<and> r < 65536 \<and> m \<le> 0x7ff \<and>
     (e = None \<longleftrightarrow> r \<noteq> 0 \<and> m \<noteq> 0)"
  using find_loop_ok [of 0 0 conf 0 iface False] by (auto simp: hidmouse_findInterface_def)

text \<open>The report descriptor of the HID specification's example mouse (HID 1.11, appendix E.10) and
  the layout the parser finds in it.\<close>

definition boot_mouse :: "u8 list" where
  "boot_mouse = [0x05, 0x01, 0x09, 0x02, 0xa1, 0x01, 0x09, 0x01, 0xa1, 0x00, 0x05, 0x09, 0x19, 0x01,
     0x29, 0x03, 0x15, 0x00, 0x25, 0x01, 0x95, 0x03, 0x75, 0x01, 0x81, 0x02, 0x95, 0x01, 0x75, 0x05,
     0x81, 0x01, 0x05, 0x01, 0x09, 0x30, 0x09, 0x31, 0x15, 0x81, 0x25, 0x7f, 0x75, 0x08, 0x95, 0x02,
     0x81, 0x06, 0xc0, 0xc0]"

definition boot_layout :: hidmouse_layout where
  "boot_layout = (let f = \<lambda>off n sg. \<lparr>f_off = off, f_size = n, f_id = 0, f_isSigned = sg\<rparr>
     in \<lparr>useIds = 0, nbuttons = 3, maxReportLen = 3,
          l_button = [f 0 1 False, f 1 1 False, f 2 1 False] @ replicate 5 no_field,
          l_x = f 8 8 True, l_y = f 16 8 True, l_wheel = no_field, l_hwheel = no_field\<rparr>)"

lemma parse_boot_mouse: "hidmouse_parse boot_mouse = Some (Inr boot_layout)"
  by code_simp

end
