(* ===== verification/Hid_Mouse.thy ===== *)
theory Hid_Mouse
  imports Hid_Desc
begin

text \<open>
  From input reports to mouse packets, \<open>tty/usbmouse/hidmouse.c\<close> from \<open>hid_extract\<close> on: bit-field
  extraction, the latched buttons, the split of large motions over several packets, and the text
  the driver logs for a layout. A read outside the report is \<^term>\<open>None\<close>.
\<close>

subsection \<open>Fields\<close>

fun extract_loop :: "u8 list \<Rightarrow> nat \<Rightarrow> nat \<Rightarrow> u64 \<Rightarrow> u64 option" where
  "extract_loop data first 0 v = Some v"
| "extract_loop data first (Suc i) v =
     (if first < Suc i
      then do { b \<leftarrow> buf_get data i; extract_loop data first i (push_bit 8 v OR ucast b) }
      else Some v)"

text \<open>\<open>(int32_t)x\<close>.\<close>

definition to_s32 :: "int \<Rightarrow> int" where
  "to_s32 x = sint (word_of_int x :: u32)"

definition hid_extract :: "hidmouse_field \<Rightarrow> u8 list \<Rightarrow> int option" where
  "hid_extract f data = do {
     let first = unat (ucast (f_off f) div 8 :: u32);
     let lst = unat ((ucast (f_off f) + ucast (f_size f) - 1) div 8 :: u32);
     v \<leftarrow> extract_loop data first (lst + 1) 0;
     let v = drop_bit (unat (f_off f mod 8)) v;
     let v = v AND (push_bit (unat (f_size f)) 1 - 1);
     if f_isSigned f \<and> v AND push_bit (unat (f_size f) - 1) 1 \<noteq> 0
     then Some (to_s32 (uint v - 2 ^ unat (f_size f)))
     else Some (to_s32 (uint v))
   }"

definition hid_fieldIn :: "hidmouse_field \<Rightarrow> u8 \<Rightarrow> nat \<Rightarrow> bool" where
  "hid_fieldIn f rid plen \<longleftrightarrow> f_size f \<noteq> 0 \<and> f_id f = rid \<and> unat (f_off f) + unat (f_size f) \<le> plen * 8"

definition hid_clamp :: "int \<Rightarrow> int \<Rightarrow> int" where
  "hid_clamp v lim = (if lim < v then lim else if v < - lim then - lim else v)"

subsection \<open>Reports\<close>

fun button_loop :: "hidmouse_layout \<Rightarrow> u8 \<Rightarrow> u8 list \<Rightarrow> nat \<Rightarrow> nat \<Rightarrow> u8 \<Rightarrow> bool \<Rightarrow> (u8 \<times> bool) option" where
  "button_loop l rid payload 0 i b found = Some (b, found)"
| "button_loop l rid payload (Suc n) i b found = do {
     f \<leftarrow> buf_get (l_button l) i;
     if hid_fieldIn f rid (length payload) then do {
       v \<leftarrow> hid_extract f payload;
       button_loop l rid payload n (Suc i)
         (if v \<noteq> 0 then b OR push_bit i 1 else b AND NOT (push_bit i 1)) True
     } else button_loop l rid payload n (Suc i) b found
   }"

definition hid_axis :: "hidmouse_field \<Rightarrow> u8 \<Rightarrow> u8 list \<Rightarrow> (bool \<times> int) option" where
  "hid_axis f rid payload =
     (if hid_fieldIn f rid (length payload)
      then do { v \<leftarrow> hid_extract f payload; Some (True, v) } else Some (False, 0))"

function emit_packets :: "u8 \<Rightarrow> int \<Rightarrow> int \<Rightarrow> int \<Rightarrow> nat \<Rightarrow> nat \<Rightarrow> u8 list \<Rightarrow> u8 list" where
  "emit_packets b dx dy wheel outsz n out =
     (if outsz - n < HIDMOUSE_PKT_SIZE then out
      else let sx = hid_clamp dx 127;
               sy = hid_clamp dy 127;
               out' = out @ [b, word_of_int sx, word_of_int sy, word_of_int (if n = 0 then wheel else 0)];
               n' = n + HIDMOUSE_PKT_SIZE
           in if (dx - sx \<noteq> 0 \<or> dy - sy \<noteq> 0) \<and> n' < HIDMOUSE_MAX_SPLIT * HIDMOUSE_PKT_SIZE
              then emit_packets b (dx - sx) (dy - sy) wheel outsz n' out'
              else out')"
  by pat_completeness auto

termination emit_packets
  by (relation "measure (\<lambda>(b, dx, dy, wheel, outsz, n, out). HIDMOUSE_MAX_SPLIT * HIDMOUSE_PKT_SIZE - n)")
    (auto simp: HIDMOUSE_PKT_SIZE_def)

declare emit_packets.simps [simp del]

definition hidmouse_translate ::
  "hidmouse_layout \<Rightarrow> u8 \<Rightarrow> u8 list \<Rightarrow> nat \<Rightarrow> (u8 \<times> u8 list) option"
where
  "hidmouse_translate l buttons report outsz =
     (if useIds l \<noteq> 0 \<and> report = [] then Some (buttons, [])
      else do {
        rid \<leftarrow> (if useIds l \<noteq> 0 then buf_get report 0 else Some 0);
        let payload = (if useIds l \<noteq> 0 then drop 1 report else report);
        (b, found) \<leftarrow> button_loop l rid payload HIDMOUSE_MAX_BUTTONS 0 buttons False;
        (fx, dx) \<leftarrow> hid_axis (l_x l) rid payload;
        (fy, dy) \<leftarrow> hid_axis (l_y l) rid payload;
        (fw, w) \<leftarrow> hid_axis (l_wheel l) rid payload;
        let wheel = (if fw then hid_clamp w 127 else 0);
        if \<not> (found \<or> fx \<or> fy \<or> fw) then Some (b, [])
        else Some (b, emit_packets b dx dy wheel outsz 0 [])
      })"

subsection \<open>Text\<close>

text \<open>\<open>%u\<close>, and \<open>snprintf\<close> into a buffer of \<open>n\<close> bytes, without the terminator.\<close>

fun show_u :: "nat \<Rightarrow> string" where
  "show_u n = (if n < 10 then [char_of (48 + n)] else show_u (n div 10) @ [char_of (48 + n mod 10)])"

declare show_u.simps [simp del]

definition snprintf :: "nat \<Rightarrow> string \<Rightarrow> string" where
  "snprintf n str = take (n - 1) str"

definition hid_describeField :: "nat \<Rightarrow> string \<Rightarrow> hidmouse_field \<Rightarrow> bool \<Rightarrow> string" where
  "hid_describeField n name f ids = snprintf n
     (if f_size f = 0 then '' '' @ name @ ''=none''
      else if ids then '' '' @ name @ ''='' @ show_u (unat (f_size f)) @ ''@'' @ show_u (unat (f_off f))
        @ ''#'' @ show_u (unat (f_id f))
      else '' '' @ name @ ''='' @ show_u (unat (f_size f)) @ ''@'' @ show_u (unat (f_off f)))"

definition describe_add :: "nat \<Rightarrow> bool \<Rightarrow> string \<times> hidmouse_field \<Rightarrow> string \<Rightarrow> string" where
  "describe_add n ids nf buf =
     buf @ snprintf (n - length buf) (hid_describeField 32 (fst nf) (snd nf) ids)"

definition hidmouse_describe :: "hidmouse_layout \<Rightarrow> nat \<Rightarrow> string option" where
  "hidmouse_describe l n =
     (if n = 0 then None
      else Some (fold (describe_add n (useIds l \<noteq> 0))
        [(''x'', l_x l), (''y'', l_y l), (''wheel'', l_wheel l), (''hwheel'', l_hwheel l)]
        (snprintf n
          ((if useIds l \<noteq> 0 then ''id='' @ show_u (unat (f_id (l_x l))) else ''id=none'')
           @ '' buttons='' @ show_u (unat (nbuttons l)) @ '' len='' @ show_u (unat (maxReportLen l))))))"

subsection \<open>Extraction reads the field's bits\<close>

text \<open>The specification (HID 1.11, 8.4): a report is a little-endian stream of bits, and a field is the
  number its bits form, in two's complement when it is signed.\<close>

definition stream_bit :: "u8 list \<Rightarrow> nat \<Rightarrow> bool" where
  "stream_bit data k = bit (data ! (k div 8)) (k mod 8)"

definition field_value :: "hidmouse_field \<Rightarrow> u8 list \<Rightarrow> int" where
  "field_value f data =
     (let n = unat (f_size f);
          v = horner_sum of_bool 2 (map (\<lambda>k. stream_bit data (unat (f_off f) + k)) [0..<n])
      in if f_isSigned f \<and> stream_bit data (unat (f_off f) + n - 1) then v - 2 ^ n else v)"

lemma extract_loop_bits:
  assumes "first + c \<le> length data"
  shows "\<exists>w. extract_loop data first (first + c) v = Some w \<and>
    (\<forall>n < 64. bit w n \<longleftrightarrow> (if n < 8 * c then bit (data ! (first + n div 8)) (n mod 8) else bit v (n - 8 * c)))"
  using assms
proof (induction c arbitrary: v)
  case 0
  have "extract_loop data first first v = Some v" by (cases first) auto
  then show ?case by simp
next
  case (Suc c)
  let ?v = "push_bit 8 v OR ucast (data ! (first + c))"
  obtain w where w: "extract_loop data first (first + c) ?v = Some w"
    "\<And>n. n < 64 \<Longrightarrow> bit w n \<longleftrightarrow>
      (if n < 8 * c then bit (data ! (first + n div 8)) (n mod 8) else bit ?v (n - 8 * c))"
    using Suc.IH [of ?v] Suc.prems by auto
  have "bit w n \<longleftrightarrow> (if n < 8 * Suc c then bit (data ! (first + n div 8)) (n mod 8)
      else bit v (n - 8 * Suc c))" if "n < 64" for n
  proof (cases "n < 8 * c")
    case False
    then obtain m where m: "n = 8 * c + m" using le_Suc_ex not_less by blast
    then have "bit w n \<longleftrightarrow> bit ?v m" using w(2) [OF that] by simp
    also have "\<dots> \<longleftrightarrow> (if m < 8 then bit (data ! (first + c)) m else bit v (m - 8))"
      using that m by (auto simp: bit_simps dest: bit_imp_le_length)
    finally show ?thesis using m by (auto simp: div_add1_eq)
  qed (use w(2) that in simp)
  with w(1) Suc.prems show ?case by (auto simp: buf_get_Some)
qed

lemma fields_unat:
  fixes f :: hidmouse_field
  assumes "f_size f \<noteq> 0"
  shows "unat (ucast (f_off f) div 8 :: u32) = unat (f_off f) div 8"
    and "unat ((ucast (f_off f) + ucast (f_size f) - 1) div 8 :: u32) =
      (unat (f_off f) + unat (f_size f) - 1) div 8"
    and "unat (f_off f mod 8) = unat (f_off f) mod 8"
proof -
  have o: "unat (ucast (f_off f) :: u32) = unat (f_off f)" "unat (f_off f) < 65536"
    and s: "unat (ucast (f_size f) :: u32) = unat (f_size f)" "unat (f_size f) < 256"
    using unsigned_less [of "f_off f", where 'a = nat] unsigned_less [of "f_size f", where 'a = nat]
    by (simp_all add: unsigned_ucast_eq take_bit_nat_eq_self_iff)
  show "unat (ucast (f_off f) div 8 :: u32) = unat (f_off f) div 8"
    using o by (simp add: unat_div_distrib)
  have sum: "unat (ucast (f_off f) + ucast (f_size f) :: u32) = unat (f_off f) + unat (f_size f)"
    using o s by (subst unat_plus_if') simp
  moreover have "0 < unat (f_size f)" using assms by (simp add: unat_gt_0)
  ultimately have "unat (ucast (f_off f) + ucast (f_size f) - 1 :: u32) =
      unat (f_off f) + unat (f_size f) - 1"
    by (subst unat_sub) (simp_all add: word_le_nat_alt)
  then show "unat ((ucast (f_off f) + ucast (f_size f) - 1) div 8 :: u32) =
      (unat (f_off f) + unat (f_size f) - 1) div 8"
    by (simp add: unat_div_distrib)
  show "unat (f_off f mod 8) = unat (f_off f) mod 8" by (simp add: unat_mod_distrib)
qed

lemma field_span:
  fixes off n k :: nat
  assumes "k < n"
  shows "off mod 8 + k < 8 * ((off + n - 1) div 8 + 1 - off div 8)"
proof -
  define q r where "q = off div 8" and "r = off mod 8"
  have off: "off = q * 8 + r" by (simp add: q_def r_def)
  have "(off + n - 1) div 8 = (r + n - 1 + q * 8) div 8" using assms off by (simp add: algebra_simps)
  also have "\<dots> = q + (r + n - 1) div 8" by (subst div_mult_self1) simp_all
  finally have "(off + n - 1) div 8 + 1 - q = (r + n - 1) div 8 + 1" by simp
  moreover have "r + n - 1 < 8 * ((r + n - 1) div 8 + 1)" by simp
  moreover have "r + k \<le> r + n - 1" using assms by simp
  ultimately show ?thesis unfolding q_def [symmetric] r_def [symmetric] by linarith
qed

lemma hid_extract_value:
  assumes "hid_fieldIn f rid (length data)" and "f_size f \<le> 32"
  shows "hid_extract f data = Some (to_s32 (field_value f data))"
proof -
  let ?o = "unat (f_off f)" let ?n = "unat (f_size f)"
  let ?first = "?o div 8" let ?lst = "(?o + ?n - 1) div 8"
  have n: "0 < ?n" "?n \<le> 32" and fit: "?o + ?n \<le> length data * 8"
    using assms by (auto simp: hid_fieldIn_def unat_gt_0 word_le_nat_alt)
  note u = fields_unat [of f]
  define c where "c = ?lst + 1 - ?first"
  have c: "?first + c = ?lst + 1" unfolding c_def using n by (simp add: div_le_mono le_SucI)
  have "?lst + 1 \<le> length data" using fit n by simp
  then obtain w where w: "extract_loop data ?first (?lst + 1) 0 = Some w"
    "\<And>k. k < 64 \<Longrightarrow> bit w k \<longleftrightarrow> k < 8 * c \<and> bit (data ! (?first + k div 8)) (k mod 8)"
    using extract_loop_bits [of ?first c data 0] unfolding c by auto
  define v where "v = drop_bit (?o mod 8) w AND (push_bit ?n 1 - 1)"
  have vm: "v = drop_bit (?o mod 8) w AND mask ?n"
    by (simp add: v_def mask_eq_exp_minus_1)
  have vb: "bit v k \<longleftrightarrow> k < ?n \<and> stream_bit data (?o + k)" for k
  proof (cases "k < ?n")
    case True
    have lt: "?o mod 8 + k < 8 * c" using field_span [OF True] by (simp add: c_def)
    have "?o mod 8 < 8" by simp
    then have lt64: "?o mod 8 + k < 64" using True n by linarith
    have "?first + (?o mod 8 + k) div 8 = (?o + k) div 8"
      by (metis div_mult_mod_eq div_mult_self3 add.assoc mult.commute zero_neq_numeral)
    moreover have "(?o mod 8 + k) mod 8 = (?o + k) mod 8" by (rule mod_add_left_eq)
    ultimately show ?thesis
      using w(2) [OF lt64] lt lt64 True by (simp add: vm bit_simps stream_bit_def)
  next
    case False
    then show ?thesis by (simp add: vm bit_simps)
  qed
  have uv: "uint v = horner_sum of_bool 2 (map (\<lambda>k. stream_bit data (?o + k)) [0..<?n])"
    by (rule bit_eqI) (use n in \<open>auto simp: bit_uint_iff bit_horner_sum_bit_iff vb\<close>)
  have sb: "v AND push_bit (?n - 1) 1 \<noteq> 0 \<longleftrightarrow> stream_bit data (?o + ?n - 1)"
    using vb [of "?n - 1"] n by (simp add: and_exp_eq_0_iff_not_bit)
  have nz: "f_size f \<noteq> 0" using n by auto
  have "hid_extract f data = (if f_isSigned f \<and> v AND push_bit (?n - 1) 1 \<noteq> 0
      then Some (to_s32 (uint v - 2 ^ ?n)) else Some (to_s32 (uint v)))"
    by (simp only: hid_extract_def Let_def u [OF nz] w(1) Option.bind.simps v_def)
  then show ?thesis
    by (cases "f_isSigned f \<and> stream_bit data (?o + ?n - 1)")
      (simp_all only: sb uv field_value_def Let_def if_True if_False simp_thms)
qed

text \<open>C33. A field the driver extracts is the number formed by exactly the report bits the layout
  assigns to it, sign-extended when the field is signed, and reading it never leaves the report;
  the value of a 32-bit unsigned field is taken modulo \<open>2\<^sup>3\<^sup>2\<close> into the signed range.\<close>

theorem hid_extract_spec:
  assumes "hid_fieldIn f rid (length data)" and "f_size f \<le> 32"
  shows "hid_extract f data = Some (to_s32 (field_value f data))"
  by (rule hid_extract_value [OF assms])

theorem hid_extract_spec_witness:
  "hid_extract \<lparr>f_off = 4, f_size = 12, f_id = 0, f_isSigned = True\<rparr> [0xf3, 0xfe] = Some (- 17)"
proof -
  let ?f = "\<lparr>f_off = 4, f_size = 12, f_id = 0, f_isSigned = True\<rparr>"
  have "hid_fieldIn ?f 0 (length [0xf3, 0xfe :: u8])" "f_size ?f \<le> 32" by code_simp+
  then have "hid_extract ?f [0xf3, 0xfe] = Some (to_s32 (field_value ?f [0xf3, 0xfe]))"
    by (rule hid_extract_spec)
  moreover have "to_s32 (field_value ?f [0xf3, 0xfe]) = - 17" by code_simp
  ultimately show ?thesis by simp
qed

subsection \<open>Motion\<close>

fun packets :: "u8 list \<Rightarrow> (u8 \<times> u8 \<times> u8 \<times> u8) list" where
  "packets (a # b # c # d # out) = (a, b, c, d) # packets out"
| "packets _ = []"

lemma packets_snoc:
  assumes "length out mod 4 = 0"
  shows "packets (out @ [a, b, c, d]) = packets out @ [(a, b, c, d)]"
  using assms by (induction out rule: packets.induct) auto

text \<open>What a sequence of packets reports: the buttons of each, the sums of the motions, and the wheel.\<close>

definition moved_x :: "u8 list \<Rightarrow> int" where
  "moved_x out = sum_list (map (\<lambda>(b, x, y, w). sint x) (packets out))"

definition moved_y :: "u8 list \<Rightarrow> int" where
  "moved_y out = sum_list (map (\<lambda>(b, x, y, w). sint y) (packets out))"

definition wheels :: "u8 list \<Rightarrow> int list" where
  "wheels out = map (\<lambda>(b, x, y, w). sint w) (packets out)"

definition held :: "u8 list \<Rightarrow> u8 list" where
  "held out = map (\<lambda>(b, x, y, w). b) (packets out)"

lemma sint_clamp:
  assumes "\<bar>v\<bar> \<le> 127"
  shows "sint (word_of_int v :: u8) = v"
proof -
  have "- (2 ^ 7) \<le> v" "v < 2 ^ 7" using assms by auto
  then have "signed_take_bit 7 v = v" by (intro signed_take_bit_int_eq_self)
  then show ?thesis by (simp add: sint_sbintrunc')
qed

lemma hid_clamp_bound: "0 \<le> lim \<Longrightarrow> \<bar>hid_clamp v lim\<bar> \<le> lim"
  by (auto simp: hid_clamp_def)

lemma clamp_split:
  "hid_clamp v 127 + hid_clamp (v - hid_clamp v 127) (127 * int m) = hid_clamp v (127 * int (Suc m))"
  by (auto simp: hid_clamp_def)

lemma emit_packets_spec:
  assumes "length out = 4 * j" and "j < 17" and "68 \<le> outsz" and "\<bar>w\<bar> \<le> 127"
  shows "\<exists>k. length (emit_packets b dx dy w outsz (4 * j) out) = 4 * k \<and> j < k \<and> k \<le> 17 \<and>
    moved_x (emit_packets b dx dy w outsz (4 * j) out) = moved_x out + hid_clamp dx (127 * int (17 - j)) \<and>
    moved_y (emit_packets b dx dy w outsz (4 * j) out) = moved_y out + hid_clamp dy (127 * int (17 - j)) \<and>
    held (emit_packets b dx dy w outsz (4 * j) out) = held out @ replicate (k - j) b \<and>
    wheels (emit_packets b dx dy w outsz (4 * j) out) =
      wheels out @ (if j = 0 then w # replicate (k - 1) 0 else replicate (k - j) 0)"
  using assms(1,2)
proof (induction "17 - j" arbitrary: j dx dy out)
  case (Suc d)
  let ?sx = "hid_clamp dx 127" let ?sy = "hid_clamp dy 127"
  let ?w = "if j = 0 then w else 0"
  let ?out = "out @ [b, word_of_int ?sx, word_of_int ?sy, word_of_int ?w]"
  have len: "length ?out = 4 * Suc j" and out4: "length out mod 4 = 0" using Suc.prems by simp_all
  have s: "sint (word_of_int ?sx :: u8) = ?sx" "sint (word_of_int ?sy :: u8) = ?sy"
      "sint (word_of_int ?w :: u8) = ?w"
    using hid_clamp_bound [of 127] assms(4) by (simp_all add: sint_clamp)
  have one: "moved_x ?out = moved_x out + ?sx" "moved_y ?out = moved_y out + ?sy"
      "held ?out = held out @ [b]" "wheels ?out = wheels out @ [?w]"
    by (simp_all add: moved_x_def moved_y_def held_def wheels_def packets_snoc [OF out4] s)
  have d: "17 - j = Suc d" using Suc.hyps(2) by simp
  note split = clamp_split [of dx d] clamp_split [of dy d]
  have room: "(outsz - 4 * j < HIDMOUSE_PKT_SIZE) = False" and n4: "4 * j + HIDMOUSE_PKT_SIZE = 4 * Suc j"
    and more: "4 * Suc j < HIDMOUSE_MAX_SPLIT * HIDMOUSE_PKT_SIZE \<longleftrightarrow> Suc j < 17"
    and j0: "4 * j = 0 \<longleftrightarrow> j = 0"
    using assms(3) Suc.prems(2) by (auto simp: HIDMOUSE_PKT_SIZE_def HIDMOUSE_MAX_SPLIT_def)
  show ?case
  proof (cases "(dx - ?sx \<noteq> 0 \<or> dy - ?sy \<noteq> 0) \<and> Suc j < 17")
    case True
    have e: "emit_packets b dx dy w outsz (4 * j) out =
        emit_packets b (dx - ?sx) (dy - ?sy) w outsz (4 * Suc j) ?out"
      using True by (subst emit_packets.simps) (simp only: Let_def room n4 more j0 if_True if_False simp_thms)
    have "d = 17 - Suc j" using d by simp
    from Suc.hyps(1) [OF this len, of "dx - ?sx" "dy - ?sy"] True
    obtain k where k: "length (emit_packets b dx dy w outsz (4 * j) out) = 4 * k" "Suc j < k" "k \<le> 17"
        "moved_x (emit_packets b dx dy w outsz (4 * j) out) =
          moved_x ?out + hid_clamp (dx - ?sx) (127 * int (17 - Suc j))"
        "moved_y (emit_packets b dx dy w outsz (4 * j) out) =
          moved_y ?out + hid_clamp (dy - ?sy) (127 * int (17 - Suc j))"
        "held (emit_packets b dx dy w outsz (4 * j) out) = held ?out @ replicate (k - Suc j) b"
        "wheels (emit_packets b dx dy w outsz (4 * j) out) = wheels ?out @ replicate (k - Suc j) 0"
      unfolding e by auto
    have "k - j = Suc (k - Suc j)" using k(2) by simp
    then have r: "replicate (k - j) b = b # replicate (k - Suc j) b"
        "replicate (k - j) (0 :: int) = 0 # replicate (k - Suc j) 0"
      by simp_all
    show ?thesis
      using k one split d \<open>d = 17 - Suc j\<close> r
      by (intro exI [of _ k]) (auto simp: algebra_simps)
  next
    case False
    have e: "emit_packets b dx dy w outsz (4 * j) out = ?out"
      using False by (subst emit_packets.simps) (simp only: Let_def room n4 more j0 if_True if_False simp_thms)
    have "hid_clamp (dx - ?sx) (127 * int d) = 0" "hid_clamp (dy - ?sy) (127 * int d) = 0"
      using False d by (auto simp: hid_clamp_def)
    with split one len d show ?thesis
      unfolding e by (intro exI [of _ "Suc j"]) (use Suc.prems(2) in auto)
  qed
qed simp

subsection \<open>Translation\<close>

definition in_report :: "hidmouse_layout \<Rightarrow> u8 list \<Rightarrow> hidmouse_field \<Rightarrow> bool" where
  "in_report l report f \<longleftrightarrow>
     (if useIds l \<noteq> 0 then report \<noteq> [] \<and> hid_fieldIn f (hd report) (length report - 1)
      else hid_fieldIn f 0 (length report))"

definition report_value :: "hidmouse_layout \<Rightarrow> u8 list \<Rightarrow> hidmouse_field \<Rightarrow> int" where
  "report_value l report f =
     (if in_report l report f
      then to_s32 (field_value f (if useIds l \<noteq> 0 then tl report else report)) else 0)"

lemma button_loop_spec:
  assumes "\<forall>f \<in> set (l_button l). f_size f \<le> 32" and "i + n \<le> length (l_button l)"
    and "length (l_button l) = 8"
  shows "\<exists>b' fnd. button_loop l rid payload n i b found = Some (b', fnd) \<and>
    (fnd \<longleftrightarrow> found \<or> (\<exists>k \<in> {i..<i + n}. hid_fieldIn (l_button l ! k) rid (length payload))) \<and>
    (\<forall>k < 8. bit b' k \<longleftrightarrow>
       (if i \<le> k \<and> k < i + n \<and> hid_fieldIn (l_button l ! k) rid (length payload)
        then to_s32 (field_value (l_button l ! k) payload) \<noteq> 0 else bit b k))"
  using assms(2)
proof (induction n arbitrary: i b found)
  case (Suc n)
  let ?f = "l_button l ! i"
  have i: "i < 8" and g: "buf_get (l_button l) i = Some ?f"
    using Suc.prems assms(3) by (simp_all add: buf_get_Some)
  show ?case
  proof (cases "hid_fieldIn ?f rid (length payload)")
    case True
    have "f_size ?f \<le> 32" using assms(1,3) i by simp
    with True have v: "hid_extract ?f payload = Some (to_s32 (field_value ?f payload))"
      by (rule hid_extract_value)
    let ?b = "if to_s32 (field_value ?f payload) \<noteq> 0 then b OR push_bit i 1 else b AND NOT (push_bit i 1)"
    have bi: "bit ?b k \<longleftrightarrow> (if k = i then to_s32 (field_value ?f payload) \<noteq> 0 else bit b k)" if "k < 8" for k
      using that by (auto simp: bit_simps)
    have "i \<in> {i..<i + Suc n}" by simp
    with True Suc.IH [of "Suc i" ?b True] Suc.prems g v bi show ?thesis
      by (auto simp: Suc_le_eq dest: le_neq_implies_less)
  next
    case False
    have "(\<exists>k \<in> {i..<i + Suc n}. hid_fieldIn (l_button l ! k) rid (length payload)) \<longleftrightarrow>
      (\<exists>k \<in> {Suc i..<Suc i + n}. hid_fieldIn (l_button l ! k) rid (length payload))"
    proof -
      have "{i..<i + Suc n} = insert i {Suc i..<Suc i + n}" by auto
      with False show ?thesis by simp
    qed
    with False Suc.IH [of "Suc i" b found] Suc.prems g show ?thesis
      by (auto simp: Suc_le_eq dest: le_neq_implies_less)
  qed
qed auto

lemma hid_axis_spec:
  "f_size f \<le> 32 \<Longrightarrow> hid_axis f rid payload = Some (hid_fieldIn f rid (length payload),
     if hid_fieldIn f rid (length payload) then to_s32 (field_value f payload) else 0)"
  by (simp add: hid_axis_def hid_extract_value)

lemma layout_field_size: "layout_ok l \<Longrightarrow> f \<in> set (l_fields l) \<Longrightarrow> f_size f \<le> 32"
  by (cases "f_size f = 0") (auto simp: layout_ok_def)

text \<open>What a translation does, as one equation: the packets of the report's values, sent when the
  report carries any mouse field.\<close>

lemma hid_translate_eq:
  fixes report :: "u8 list"
  assumes "layout_ok l"
  defines "val \<equiv> report_value l report"
  defines "any \<equiv> \<exists>f \<in> set (l_button l @ [l_x l, l_y l, l_wheel l]). in_report l report f"
  shows "\<exists>b'. hidmouse_translate l b report outsz = Some (b',
      if any then emit_packets b' (val (l_x l)) (val (l_y l)) (hid_clamp (val (l_wheel l)) 127) outsz 0 []
      else []) \<and>
    (\<forall>k < 8. bit b' k \<longleftrightarrow> (if in_report l report (l_button l ! k) then val (l_button l ! k) \<noteq> 0 else bit b k))"
proof (cases "useIds l \<noteq> 0 \<and> report = []")
  case True
  then show ?thesis by (auto simp: hidmouse_translate_def in_report_def any_def)
next
  case False
  define rid where "rid = (if useIds l \<noteq> 0 then hd report else 0)"
  define payload where "payload = (if useIds l \<noteq> 0 then tl report else report)"
  let ?in = "\<lambda>f. hid_fieldIn f rid (length payload)"
  have inr: "in_report l report f \<longleftrightarrow> ?in f" for f
    using False by (auto simp: in_report_def rid_def payload_def)
  then have v: "val f = (if ?in f then to_s32 (field_value f payload) else 0)" for f
    by (simp add: val_def report_value_def payload_def)
  have sz: "f_size f \<le> 32" if "f \<in> set (l_fields l)" for f
    using layout_field_size [OF assms(1) that] .
  have len: "length (l_button l) = 8" using assms(1) by (simp add: layout_ok_def hid_limits)
  obtain b' fnd where bl: "button_loop l rid payload 8 0 b False = Some (b', fnd)"
      "fnd \<longleftrightarrow> (\<exists>k \<in> {0..<8}. ?in (l_button l ! k))"
      "\<forall>k < 8. bit b' k \<longleftrightarrow> (if ?in (l_button l ! k) then val (l_button l ! k) \<noteq> 0 else bit b k)"
    using button_loop_spec [of l 0 8 rid payload b False] sz len by (auto simp: l_fields_def v)
  have fnd: "fnd \<longleftrightarrow> (\<exists>f \<in> set (l_button l). ?in f)"
    unfolding bl(2) by (metis atLeastLessThan_iff in_set_conv_nth len zero_le)
  have ax: "hid_axis f rid payload = Some (?in f, val f)" if "f \<in> set (l_fields l)" for f
    using hid_axis_spec [OF sz [OF that]] by (simp add: v)
  have rid: "(if useIds l \<noteq> 0 then buf_get report 0 else Some 0) = Some rid"
    using False by (auto simp: rid_def buf_get_def hd_conv_nth)
  have w: "(if ?in (l_wheel l) then hid_clamp (val (l_wheel l)) 127 else 0) = hid_clamp (val (l_wheel l)) 127"
    by (simp add: v hid_clamp_def)
  have any: "any \<longleftrightarrow> fnd \<or> ?in (l_x l) \<or> ?in (l_y l) \<or> ?in (l_wheel l)"
    by (auto simp: any_def inr fnd)
  have pl: "(if useIds l \<noteq> 0 then drop 1 report else report) = payload"
    by (simp add: payload_def drop_Suc)
  have "hidmouse_translate l b report outsz = Some (b',
      if any then emit_packets b' (val (l_x l)) (val (l_y l)) (hid_clamp (val (l_wheel l)) 127) outsz 0 []
      else [])"
    unfolding hidmouse_translate_def Let_def rid pl HIDMOUSE_MAX_BUTTONS_def
    using False bl(1) w any by (auto simp: ax l_fields_def)
  with bl(3) inr show ?thesis by auto
qed



end
