(* ===== verification/V3da.thy ===== *)
theory V3da
  imports Bytes "HOL-Library.Multiset"
begin

text \<open>
  Fences, parked waits and sync objects of the GPU render server,
  \<open>gpu/rpi4-v3d-async/v3da_sched.c\<close>, with the data types it uses from \<open>v3da.h\<close> and
  \<open>v3da_proto.h\<close>. Arrays indexed by slot, queue or handle are functions on their index; the list
  of parked waits is a list, its head first. Every operation runs under the server's lock, so
  operations are atomic steps on one state; the time is an argument. What is said of jobs and
  queues here is what this file reads of them: the fence of the job in flight on each queue.
\<close>

subsection \<open>Types\<close>

definition V3DA_Q_BIN :: nat where "V3DA_Q_BIN = 0"
definition V3DA_Q_RENDER :: nat where "V3DA_Q_RENDER = 1"
definition V3DA_Q_TFU :: nat where "V3DA_Q_TFU = 2"
definition V3DA_Q_CSD :: nat where "V3DA_Q_CSD = 3"
definition V3DA_Q_CACHE_CLEAN :: nat where "V3DA_Q_CACHE_CLEAN = 4"
definition V3DA_Q_CPU :: nat where "V3DA_Q_CPU = 5"
definition V3DA_Q_COUNT :: nat where "V3DA_Q_COUNT = 6"

definition V3DA_FENCE_NSLOTS :: nat where "V3DA_FENCE_NSLOTS = (4096 - 256) div 64"
definition V3DA_MAX_CLIENTS :: nat where "V3DA_MAX_CLIENTS = V3DA_FENCE_NSLOTS"
definition V3DA_MAX_SYNCOBJS :: u32 where "V3DA_MAX_SYNCOBJS = 256"
definition V3DA_SYNCOBJ_WAIT_MAX :: u32 where "V3DA_SYNCOBJ_WAIT_MAX = 8"
definition V3DA_SYNCOBJ_CREATE_SIGNALED :: u32 where "V3DA_SYNCOBJ_CREATE_SIGNALED = 1"
definition V3DA_WAIT_MAX_MS :: u32 where "V3DA_WAIT_MAX_MS = 2000"
definition IDLE_TIMEOUT_US :: u64 where "IDLE_TIMEOUT_US = 100000"
definition IRQ_BACKSTOP_US :: u64 where "IRQ_BACKSTOP_US = 10000"

record v3da_fence =
  vf_slot :: u16
  vf_queue :: u16
  vf_gen :: u32
  vf_seqno :: u64

definition zero_fence :: v3da_fence where
  "zero_fence = \<lparr>vf_slot = 0, vf_queue = 0, vf_gen = 0, vf_seqno = 0\<rparr>"

abbreviation fslot :: "v3da_fence \<Rightarrow> nat" where "fslot f \<equiv> unat (vf_slot f)"
abbreviation fqueue :: "v3da_fence \<Rightarrow> nat" where "fqueue f \<equiv> unat (vf_queue f)"

record v3da_fence_slot =
  s_completed :: "nat \<Rightarrow> u64"
  s_error_seq :: u64
  s_gen :: u64

datatype v3da_syncobj_state = V3DA_SYNC_EMPTY | V3DA_SYNC_FENCE | V3DA_SYNC_SIGNALED

record v3da_syncobj =
  so_used :: bool
  so_state :: v3da_syncobj_state
  so_fence :: v3da_fence

record v3da_client =
  c_used :: bool
  c_id :: u32
  c_pid :: int
  c_hello :: bool
  c_slot :: u32
  c_next_seq :: "nat \<Rightarrow> u64"
  c_nparked :: u32
  c_sync :: "nat \<Rightarrow> v3da_syncobj"

datatype v3da_wait_kind = V3DA_WAIT_FENCE | V3DA_WAIT_SYNCOBJ | V3DA_WAIT_BO

record v3da_resp =
  rs_op :: u32
  rs_err :: "errno option"
  rs_completed :: u64
  rs_error :: u32
  rs_echo :: u32
  rs_first :: u32
  rs_handle :: u32
  rs_state :: v3da_syncobj_state
  rs_fence :: v3da_fence

definition resp0 :: "u32 \<Rightarrow> v3da_resp" where
  "resp0 op = \<lparr>rs_op = op, rs_err = None, rs_completed = 0, rs_error = 0, rs_echo = 0, rs_first = 0,
     rs_handle = 0, rs_state = V3DA_SYNC_EMPTY, rs_fence = zero_fence\<rparr>"

record v3da_wait =
  w_kind :: v3da_wait_kind
  w_client :: u32
  w_rid :: int
  w_port :: u32
  w_deadline :: u64
  w_fence :: "v3da_fence list"
  w_handle :: "u32 list"
  w_n :: u32
  w_all :: bool
  w_for_submit :: bool
  w_resp :: v3da_resp

record v3da_srv =
  rx_port :: u32
  v_slot :: "nat \<Rightarrow> v3da_fence_slot"
  hw_completed :: "nat \<Rightarrow> u64"
  v_clients :: "nat \<Rightarrow> v3da_client"
  nclients :: u32
  slot_gen :: "nat \<Rightarrow> u64"
  dead_flush :: "nat \<Rightarrow> nat \<Rightarrow> u64"
  active_fence :: "nat \<Rightarrow> v3da_fence option"
  waits :: "v3da_wait list"
  v_nparked :: u32
  parked_max :: u32
  v_timeouts :: u32
  kick_pending :: bool

definition v3da_kick_event_thread :: "v3da_srv \<Rightarrow> v3da_srv" where
  "v3da_kick_event_thread s = s\<lparr>kick_pending := True\<rparr>"

subsection \<open>Fence page\<close>

definition ERR_SEQ :: "nat \<Rightarrow> u64 \<Rightarrow> u64" where
  "ERR_SEQ q n = push_bit 56 (of_nat q) OR (n AND 0x00ffffffffffffff)"

definition slot_gen_ok :: "v3da_srv \<Rightarrow> v3da_fence \<Rightarrow> bool" where
  "slot_gen_ok s f \<longleftrightarrow> ucast (s_gen (v_slot s (fslot f))) = vf_gen f"

text \<open>Whether a fence is signalled, and whether with an error.\<close>

definition v3da_fence_signaled :: "v3da_srv \<Rightarrow> v3da_fence \<Rightarrow> bool \<times> bool" where
  "v3da_fence_signaled s f =
     (if V3DA_FENCE_NSLOTS \<le> fslot f \<or> V3DA_Q_COUNT \<le> fqueue f then (True, False)
      else if \<not> slot_gen_ok s f then (True, False)
      else let sl = v_slot s (fslot f); es = s_error_seq sl
           in if s_completed sl (fqueue f) < vf_seqno f then (False, False)
              else (True, es \<noteq> 0 \<and> drop_bit 56 es = ucast (vf_queue f) \<and>
                          vf_seqno f \<le> es AND 0x00ffffffffffffff))"

definition v3da_fence_valid :: "v3da_srv \<Rightarrow> v3da_fence \<Rightarrow> bool" where
  "v3da_fence_valid s f =
     (if V3DA_FENCE_NSLOTS \<le> fslot f \<or> V3DA_Q_COUNT \<le> fqueue f \<or> vf_seqno f = 0 then False
      else let owner = v_clients s (fslot f)
           in if \<not> c_used owner \<or> \<not> slot_gen_ok s f then True
              else vf_seqno f \<le> c_next_seq owner (fqueue f))"

definition v3da_fence_complete :: "v3da_srv \<Rightarrow> v3da_fence \<Rightarrow> nat \<Rightarrow> bool \<Rightarrow> v3da_srv" where
  "v3da_fence_complete s f q error =
     (let slot = fslot f;
          dead = (\<not> c_used (v_clients s slot) \<and> vf_seqno f < dead_flush s slot q);
          seq = (if dead then dead_flush s slot q else vf_seqno f);
          sl = v_slot s slot;
          sl1 = (if error \<or> dead then sl\<lparr>s_error_seq := ERR_SEQ q seq\<rparr> else sl);
          sl2 = sl1\<lparr>s_completed := (s_completed sl1)(q := seq)\<rparr>
      in s\<lparr>v_slot := (v_slot s)(slot := sl2),
           hw_completed := (hw_completed s)(q := hw_completed s q + 1)\<rparr>)"

definition v3da_slot_busy :: "v3da_srv \<Rightarrow> nat \<Rightarrow> bool" where
  "v3da_slot_busy s slot =
     list_ex (\<lambda>q. case active_fence s q of None \<Rightarrow> False | Some f \<Rightarrow> fslot f = slot) [0..<V3DA_Q_COUNT]"

definition v3da_slot_assign :: "v3da_srv \<Rightarrow> nat \<Rightarrow> v3da_srv" where
  "v3da_slot_assign s slot =
     (let g = slot_gen s slot + 1
      in s\<lparr>v_slot := (v_slot s)(slot := \<lparr>s_completed = fold (\<lambda>q f. f(q := 0)) [0..<V3DA_Q_COUNT]
               (s_completed (v_slot s slot)), s_error_seq = 0, s_gen = g\<rparr>),
           dead_flush := (dead_flush s)(slot := fold (\<lambda>q f. f(q := 0)) [0..<V3DA_Q_COUNT]
               (dead_flush s slot)),
           slot_gen := (slot_gen s)(slot := g)\<rparr>)"

subsection \<open>Sync objects\<close>

definition v3da_syncobj_get :: "v3da_client \<Rightarrow> u32 \<Rightarrow> v3da_syncobj option" where
  "v3da_syncobj_get c h =
     (if h = 0 \<or> V3DA_MAX_SYNCOBJS < h \<or> \<not> so_used (c_sync c (unat (h - 1))) then None
      else Some (c_sync c (unat (h - 1))))"

definition set_sync :: "v3da_srv \<Rightarrow> nat \<Rightarrow> u32 \<Rightarrow> v3da_syncobj \<Rightarrow> v3da_srv" where
  "set_sync s ci h so =
     (let c = v_clients s ci
      in s\<lparr>v_clients := (v_clients s)(ci := c\<lparr>c_sync := (c_sync c)(unat (h - 1) := so)\<rparr>)\<rparr>)"

definition free_sync :: "v3da_client \<Rightarrow> nat option" where
  "free_sync c = List.find (\<lambda>i. \<not> so_used (c_sync c i)) [0..<unat V3DA_MAX_SYNCOBJS]"

definition v3da_syncobj_create :: "v3da_srv \<Rightarrow> nat \<Rightarrow> u32 \<Rightarrow> v3da_srv \<times> (errno + u32)" where
  "v3da_syncobj_create s ci flags =
     (case free_sync (v_clients s ci) of
        None \<Rightarrow> (s, Inl ENOMEM)
      | Some i \<Rightarrow>
          (set_sync s ci (of_nat i + 1)
             \<lparr>so_used = True,
              so_state = (if flags AND V3DA_SYNCOBJ_CREATE_SIGNALED \<noteq> 0 then V3DA_SYNC_SIGNALED
                          else V3DA_SYNC_EMPTY),
              so_fence = zero_fence\<rparr>,
           Inr (of_nat i + 1)))"

definition v3da_syncobj_destroy :: "v3da_srv \<Rightarrow> nat \<Rightarrow> u32 \<Rightarrow> v3da_srv \<times> errno option" where
  "v3da_syncobj_destroy s ci h =
     (case v3da_syncobj_get (v_clients s ci) h of
        None \<Rightarrow> (s, Some EINVAL)
      | Some so \<Rightarrow> (v3da_kick_event_thread (set_sync s ci h (so\<lparr>so_used := False\<rparr>)), None))"

definition v3da_syncobj_reset :: "v3da_srv \<Rightarrow> nat \<Rightarrow> u32 \<Rightarrow> v3da_srv \<times> errno option" where
  "v3da_syncobj_reset s ci h =
     (case v3da_syncobj_get (v_clients s ci) h of
        None \<Rightarrow> (s, Some EINVAL)
      | Some so \<Rightarrow> (set_sync s ci h (so\<lparr>so_state := V3DA_SYNC_EMPTY, so_fence := zero_fence\<rparr>), None))"

definition v3da_syncobj_signal :: "v3da_srv \<Rightarrow> nat \<Rightarrow> u32 \<Rightarrow> v3da_srv \<times> errno option" where
  "v3da_syncobj_signal s ci h =
     (case v3da_syncobj_get (v_clients s ci) h of
        None \<Rightarrow> (s, Some EINVAL)
      | Some so \<Rightarrow>
          (v3da_kick_event_thread (set_sync s ci h (so\<lparr>so_state := V3DA_SYNC_SIGNALED\<rparr>)), None))"

definition v3da_syncobj_import :: "v3da_srv \<Rightarrow> nat \<Rightarrow> u32 \<Rightarrow> v3da_fence \<Rightarrow> v3da_srv \<times> errno option" where
  "v3da_syncobj_import s ci h f =
     (case v3da_syncobj_get (v_clients s ci) h of
        None \<Rightarrow> (s, Some EINVAL)
      | Some so \<Rightarrow>
          if vf_seqno f = 0
          then (v3da_kick_event_thread (set_sync s ci h (so\<lparr>so_state := V3DA_SYNC_SIGNALED\<rparr>)), None)
          else if v3da_fence_valid s f
          then (v3da_kick_event_thread
                 (set_sync s ci h (so\<lparr>so_state := V3DA_SYNC_FENCE, so_fence := f\<rparr>)), None)
          else (s, Some EINVAL))"

definition v3da_syncobj_query :: "v3da_srv \<Rightarrow> nat \<Rightarrow> u32 \<Rightarrow> errno + v3da_syncobj_state \<times> v3da_fence" where
  "v3da_syncobj_query s ci h =
     (case v3da_syncobj_get (v_clients s ci) h of
        None \<Rightarrow> Inl EINVAL
      | Some so \<Rightarrow> Inr (so_state so, so_fence so))"

subsection \<open>Parked waits\<close>

text \<open>\<open>wait_unlink\<close> takes the wait out of the list, which the callers below do as they walk it, and
  counts it out.\<close>

definition wait_unlink :: "v3da_srv \<Rightarrow> v3da_wait \<Rightarrow> v3da_srv" where
  "wait_unlink s w =
     (let i = unat (w_client w - 1); c = v_clients s i; s1 = s\<lparr>v_nparked := v_nparked s - 1\<rparr>
      in if 1 \<le> w_client w \<and> unat (w_client w) \<le> V3DA_MAX_CLIENTS \<and> 0 < c_nparked c
         then s1\<lparr>v_clients := (v_clients s)(i := c\<lparr>c_nparked := c_nparked c - 1\<rparr>)\<rparr>
         else s1)"

definition wait_claim :: "v3da_srv \<Rightarrow> v3da_wait \<Rightarrow> errno option \<Rightarrow> v3da_wait list \<Rightarrow> v3da_srv \<times> v3da_wait list" where
  "wait_claim s w err answer =
     (let r = w_resp w;
          r1 = (if w_kind w = V3DA_WAIT_FENCE then r\<lparr>rs_echo := ucast (vf_seqno (hd (w_fence w)))\<rparr> else r)
      in (wait_unlink s w, w\<lparr>w_resp := r1\<lparr>rs_err := err\<rparr>\<rparr> # answer))"

text \<open>The verdict on a wait: satisfied with its response, not yet, or failed.\<close>

datatype wait_verdict = Satisfied v3da_resp | NotYet | Failed errno

fun eval_syncobjs :: "v3da_srv \<Rightarrow> v3da_client \<Rightarrow> bool \<Rightarrow> u32 list \<Rightarrow> u32 \<Rightarrow> u32 \<Rightarrow> u32 option \<Rightarrow>
    errno + u32 \<times> u32 option"
where
  "eval_syncobjs s c for_submit [] i nsig first = Inr (nsig, first)"
| "eval_syncobjs s c for_submit (h # hs) i nsig first =
     (case v3da_syncobj_get c h of
        None \<Rightarrow> Inl EINVAL
      | Some so \<Rightarrow>
          if so_state so = V3DA_SYNC_EMPTY \<and> \<not> for_submit then Inl EINVAL
          else let sig = (case so_state so of
                     V3DA_SYNC_SIGNALED \<Rightarrow> True
                   | V3DA_SYNC_FENCE \<Rightarrow> fst (v3da_fence_signaled s (so_fence so))
                   | V3DA_SYNC_EMPTY \<Rightarrow> False)
               in eval_syncobjs s c for_submit hs (i + 1) (if sig then nsig + 1 else nsig)
                    (if sig \<and> first = None then Some i else first))"

definition wait_eval :: "v3da_srv \<Rightarrow> v3da_wait \<Rightarrow> wait_verdict" where
  "wait_eval s w =
     (case w_kind w of
        V3DA_WAIT_FENCE \<Rightarrow>
          (let f = hd (w_fence w); (sig, err) = v3da_fence_signaled s f
           in if \<not> sig then NotYet
              else Satisfied ((w_resp w)\<lparr>rs_completed := s_completed (v_slot s (fslot f)) (fqueue f),
                     rs_error := of_bool err, rs_echo := ucast (vf_seqno f)\<rparr>))
      | V3DA_WAIT_BO \<Rightarrow>
          if list_all (\<lambda>f. vf_seqno f = 0 \<or> fst (v3da_fence_signaled s f)) (take (unat (w_n w)) (w_fence w))
          then Satisfied (w_resp w) else NotYet
      | V3DA_WAIT_SYNCOBJ \<Rightarrow>
          (case eval_syncobjs s (v_clients s (unat (w_client w - 1))) (w_for_submit w)
                  (take (unat (w_n w)) (w_handle w)) 0 0 None of
             Inl e \<Rightarrow> Failed e
           | Inr (nsig, first) \<Rightarrow>
               if (if w_all w then nsig = w_n w else 0 < nsig)
               then Satisfied ((w_resp w)\<lparr>rs_first := (case first of None \<Rightarrow> 0 | Some i \<Rightarrow> i)\<rparr>)
               else NotYet))"

text \<open>The answer of \<open>v3da_wait_park\<close>: the request is parked, or it is answered at once.\<close>

datatype park_result = Parked | Now v3da_resp | Refused errno

definition pad_to :: "nat \<Rightarrow> 'a \<Rightarrow> 'a list \<Rightarrow> 'a list" where
  "pad_to n z xs = xs @ replicate (n - length xs) z"

definition v3da_wait_park ::
  "bool \<Rightarrow> u64 \<Rightarrow> v3da_srv \<Rightarrow> nat \<Rightarrow> v3da_wait_kind \<Rightarrow> u32 \<Rightarrow> int \<Rightarrow> v3da_fence list \<Rightarrow> u32 list \<Rightarrow> u32 \<Rightarrow>
     bool \<Rightarrow> bool \<Rightarrow> u32 \<Rightarrow> v3da_srv \<times> park_result"
where
  "v3da_wait_park calloc_ok now s ci kind op rid fences handles n all for_submit timeout_ms =
     (if V3DA_SYNCOBJ_WAIT_MAX < n then (s, Refused EINVAL)
      else if \<not> calloc_ok then (s, Refused ENOMEM)
      else let c = v_clients s ci;
               w = \<lparr>w_kind = kind, w_client = c_id c, w_rid = rid, w_port = rx_port s, w_deadline = 0,
                    w_fence = pad_to 8 zero_fence (take (unat n) fences),
                    w_handle = pad_to 8 0 (take (unat n) handles), w_n = n, w_all = all,
                    w_for_submit = for_submit,
                    w_resp = resp0 op\<rparr>
           in case wait_eval s w of
                Satisfied r \<Rightarrow> (s, Now r)
              | Failed e \<Rightarrow> (s, Refused e)
              | NotYet \<Rightarrow>
                  if timeout_ms = 0 then (s, Refused ETIMEDOUT)
                  else let t = (if V3DA_WAIT_MAX_MS < timeout_ms then V3DA_WAIT_MAX_MS else timeout_ms);
                           w' = w\<lparr>w_deadline := now + ucast t * 1000\<rparr>;
                           np = v_nparked s + 1
                       in (v3da_kick_event_thread
                             (s\<lparr>waits := w' # waits s,
                                v_clients := (v_clients s)(ci := c\<lparr>c_nparked := c_nparked c + 1\<rparr>),
                                v_nparked := np,
                                parked_max := (if parked_max s < np then np else parked_max s)\<rparr>),
                           Parked))"

text \<open>The walks over the parked waits: what stays parked, and what is to be answered.\<close>

fun scan_list :: "u64 \<Rightarrow> v3da_wait list \<Rightarrow> v3da_srv \<Rightarrow> v3da_wait list \<Rightarrow>
    v3da_wait list \<times> v3da_srv \<times> v3da_wait list"
where
  "scan_list now [] s answer = ([], s, answer)"
| "scan_list now (w # ws) s answer =
     (case wait_eval s w of
        Satisfied r \<Rightarrow>
          (let (s', a') = wait_claim s (w\<lparr>w_resp := r\<rparr>) None answer in scan_list now ws s' a')
      | Failed e \<Rightarrow>
          (let (s', a') = wait_claim s w (Some e) answer in scan_list now ws s' a')
      | NotYet \<Rightarrow>
          if w_deadline w \<le> now then
            (let (s', a') = wait_claim (s\<lparr>v_timeouts := v_timeouts s + 1\<rparr>) w (Some ETIMEDOUT) answer
             in scan_list now ws s' a')
          else (let (keep, s', a') = scan_list now ws s answer in (w # keep, s', a')))"

definition waits_scan :: "v3da_srv \<Rightarrow> u64 \<Rightarrow> v3da_srv \<times> v3da_wait list" where
  "waits_scan s now =
     (let (keep, s', answer) = scan_list now (waits s) s [] in (s'\<lparr>waits := keep\<rparr>, answer))"

fun gone_list :: "u32 \<Rightarrow> v3da_wait list \<Rightarrow> v3da_srv \<Rightarrow> v3da_wait list \<Rightarrow>
    v3da_wait list \<times> v3da_srv \<times> v3da_wait list"
where
  "gone_list client [] s answer = ([], s, answer)"
| "gone_list client (w # ws) s answer =
     (if w_client w = client then
        (let (s', a') = wait_claim s w (Some EPIPE) answer in gone_list client ws s' a')
      else (let (keep, s', a') = gone_list client ws s answer in (w # keep, s', a')))"

definition v3da_waits_client_gone :: "v3da_srv \<Rightarrow> u32 \<Rightarrow> v3da_wait list \<Rightarrow> v3da_srv \<times> v3da_wait list" where
  "v3da_waits_client_gone s client answer =
     (let (keep, s', answer') = gone_list client (waits s) s answer in (s'\<lparr>waits := keep\<rparr>, answer'))"

fun all_list :: "errno option \<Rightarrow> v3da_wait list \<Rightarrow> v3da_srv \<Rightarrow> v3da_wait list \<Rightarrow> v3da_srv \<times> v3da_wait list" where
  "all_list err [] s answer = (s, answer)"
| "all_list err (w # ws) s answer =
     (let (s', a') = wait_claim s w err answer in all_list err ws s' a')"

definition v3da_waits_all :: "v3da_srv \<Rightarrow> v3da_wait list \<Rightarrow> errno option \<Rightarrow> v3da_srv \<times> v3da_wait list" where
  "v3da_waits_all s answer err =
     (let (s', answer') = all_list err (waits s) s answer in (s'\<lparr>waits := []\<rparr>, answer'))"

text \<open>The answers given: the port, the request and its response.\<close>

definition v3da_waits_answer :: "u32 \<Rightarrow> v3da_wait list \<Rightarrow> (u32 \<times> int \<times> v3da_resp) list" where
  "v3da_waits_answer port ws =
     map (\<lambda>w. (if w_port w \<noteq> 0 then w_port w else port, w_rid w, w_resp w)) ws"

subsection \<open>Clients and the event thread's timeout\<close>

definition client_get :: "v3da_srv \<Rightarrow> u64 \<Rightarrow> nat option" where
  "client_get s i =
     (if i < 1 \<or> V3DA_MAX_CLIENTS < unat i then None
      else if c_used (v_clients s (unat (i - 1))) then Some (unat (i - 1)) else None)"

definition new_client :: "nat \<Rightarrow> int \<Rightarrow> v3da_client" where
  "new_client i pid = \<lparr>c_used = True, c_id = of_nat i + 1, c_pid = pid, c_hello = False, c_slot = of_nat i,
     c_next_seq = (\<lambda>_. 0), c_nparked = 0,
     c_sync = (\<lambda>_. \<lparr>so_used = False, so_state = V3DA_SYNC_EMPTY, so_fence = zero_fence\<rparr>)\<rparr>"

definition client_open :: "v3da_srv \<Rightarrow> int \<Rightarrow> v3da_srv \<times> (errno + int)" where
  "client_open s pid =
     (case List.find (\<lambda>i. \<not> c_used (v_clients s i) \<and> \<not> v3da_slot_busy s i) [0..<V3DA_MAX_CLIENTS] of
        None \<Rightarrow> (s, Inl ENFILE)
      | Some i \<Rightarrow>
          (let s1 = v3da_slot_assign (s\<lparr>v_clients := (v_clients s)(i := new_client i pid)\<rparr>) i
           in (s1\<lparr>nclients := nclients s1 + 1\<rparr>, Inr (int i + 1))))"

definition V3DA_PROTO_BASE :: u32 where "V3DA_PROTO_BASE = 2"
definition V3DA_PROTO_VERSION :: u32 where "V3DA_PROTO_VERSION = 5"

text \<open>The reply of \<open>client_hello\<close>: protocol, client, slot, generation; the rest of it (process id, flags,
  the address of the fence page) is fixed at start.\<close>

definition client_hello :: "v3da_srv \<Rightarrow> u64 \<Rightarrow> u32 \<Rightarrow> v3da_srv \<times> (errno + u32 \<times> u32 \<times> u32 \<times> u32)" where
  "client_hello s i proto =
     (case client_get s i of
        None \<Rightarrow> (s, Inl EBADF)
      | Some ci \<Rightarrow>
          if proto < V3DA_PROTO_BASE \<or> V3DA_PROTO_VERSION < proto then (s, Inl EPROTO)
          else let c = v_clients s ci
               in (s\<lparr>v_clients := (v_clients s)(ci := c\<lparr>c_hello := True\<rparr>)\<rparr>,
                   Inr (V3DA_PROTO_VERSION, c_id c, c_slot c, ucast (slot_gen s (unat (c_slot c))))))"

text \<open>The sleep of the event thread: \<open>jobs_deadline\<close> is \<open>v3da_jobs_next_deadline\<close>, \<open>flips\<close> the number of
  queued flips, \<open>hw_busy\<close> is \<open>v3da_jobs_hw_busy\<close>.\<close>

definition next_timeout_us :: "v3da_srv \<Rightarrow> u64 \<Rightarrow> u64 \<Rightarrow> u32 \<Rightarrow> bool \<Rightarrow> bool \<Rightarrow> u32 \<Rightarrow> u32" where
  "next_timeout_us s now jobs_deadline flips irq_on hw_busy poll_us =
     (let t0 = (if jobs_deadline < IDLE_TIMEOUT_US then jobs_deadline else IDLE_TIMEOUT_US);
          t1 = fold (\<lambda>w t. let d = (if now < w_deadline w then w_deadline w - now else 1)
                            in if d < t then d else t) (waits s) t0;
          t2 = (if flips \<noteq> 0 \<and> 1000 < t1 then 1000 else t1);
          t3 = (if irq_on then (if IRQ_BACKSTOP_US < t2 then IRQ_BACKSTOP_US else t2)
                else if hw_busy \<and> ucast poll_us < t2 then ucast poll_us else t2)
      in if t3 = 0 then 1 else ucast t3)"


subsection \<open>Requests on fences and sync objects\<close>

definition V3DA_SYNCOBJ_WAIT_ALL :: u32 where "V3DA_SYNCOBJ_WAIT_ALL = 1"
definition V3DA_SYNCOBJ_WAIT_FOR_SUBMIT :: u32 where "V3DA_SYNCOBJ_WAIT_FOR_SUBMIT = 2"

text \<open>The requests of \<open>handle_raw\<close> on fences and sync objects. \<open>BO_WAIT\<close> carries the six last-use fences
  the server copies from the buffer, or \<open>None\<close> when there is no such buffer.\<close>

datatype v3da_req =
    BO_WAIT "v3da_fence list option" u32
  | SYNCOBJ_IMPORT u32 v3da_fence
  | FENCE_WAIT v3da_fence u32
  | SYNCOBJ_CREATE u32
  | SYNCOBJ_DESTROY u32
  | SYNCOBJ_RESET u32
  | SYNCOBJ_SIGNAL u32
  | SYNCOBJ_QUERY u32
  | SYNCOBJ_WAIT u32 "u32 list" u32 u32

fun req_op :: "v3da_req \<Rightarrow> u32" where
  "req_op (BO_WAIT _ _) = 20"
| "req_op (FENCE_WAIT _ _) = 37"
| "req_op (SYNCOBJ_CREATE _) = 48"
| "req_op (SYNCOBJ_DESTROY _) = 49"
| "req_op (SYNCOBJ_WAIT _ _ _ _) = 50"
| "req_op (SYNCOBJ_RESET _) = 51"
| "req_op (SYNCOBJ_SIGNAL _) = 52"
| "req_op (SYNCOBJ_QUERY _) = 53"
| "req_op (SYNCOBJ_IMPORT _ _) = 54"

text \<open>The response to send now, or \<open>None\<close> when the request was parked.\<close>

definition respond_err :: "u32 \<Rightarrow> v3da_srv \<times> errno option \<Rightarrow> v3da_srv \<times> v3da_resp option" where
  "respond_err op x = (fst x, Some ((resp0 op)\<lparr>rs_err := snd x\<rparr>))"

definition respond_park :: "u32 \<Rightarrow> v3da_srv \<times> park_result \<Rightarrow> v3da_srv \<times> v3da_resp option" where
  "respond_park op x =
     (case snd x of
        Parked \<Rightarrow> (fst x, None)
      | Now r \<Rightarrow> (fst x, Some (r\<lparr>rs_err := None\<rparr>))
      | Refused e \<Rightarrow> (fst x, Some ((resp0 op)\<lparr>rs_err := Some e\<rparr>)))"

definition handle_raw :: "bool \<Rightarrow> u64 \<Rightarrow> v3da_srv \<Rightarrow> u64 \<Rightarrow> int \<Rightarrow> v3da_req \<Rightarrow> v3da_srv \<times> v3da_resp option" where
  "handle_raw calloc_ok now s oid rid req =
     (let op = req_op req
      in case client_get s oid of
        None \<Rightarrow> respond_err op (s, Some EBADF)
      | Some ci \<Rightarrow>
          (case req of
             BO_WAIT None timeout \<Rightarrow> respond_err op (s, Some EINVAL)
           | BO_WAIT (Some lasts) timeout \<Rightarrow>
               respond_park op
                 (v3da_wait_park calloc_ok now s ci V3DA_WAIT_BO op rid lasts [] (of_nat V3DA_Q_COUNT) True False
                    timeout)
           | SYNCOBJ_IMPORT h f \<Rightarrow> respond_err op (v3da_syncobj_import s ci h f)
           | FENCE_WAIT f timeout \<Rightarrow>
               if \<not> v3da_fence_valid s f then respond_err op (s, Some EINVAL)
               else respond_park op
                 (v3da_wait_park calloc_ok now s ci V3DA_WAIT_FENCE op rid [f] [] 1 True False timeout)
           | SYNCOBJ_CREATE flags \<Rightarrow>
               (case v3da_syncobj_create s ci flags of
                  (s', Inl e) \<Rightarrow> respond_err op (s', Some e)
                | (s', Inr h) \<Rightarrow> (s', Some ((resp0 op)\<lparr>rs_handle := h\<rparr>)))
           | SYNCOBJ_DESTROY h \<Rightarrow> respond_err op (v3da_syncobj_destroy s ci h)
           | SYNCOBJ_RESET h \<Rightarrow> respond_err op (v3da_syncobj_reset s ci h)
           | SYNCOBJ_SIGNAL h \<Rightarrow> respond_err op (v3da_syncobj_signal s ci h)
           | SYNCOBJ_QUERY h \<Rightarrow>
               (case v3da_syncobj_query s ci h of
                  Inl e \<Rightarrow> respond_err op (s, Some e)
                | Inr (st, f) \<Rightarrow> (s, Some ((resp0 op)\<lparr>rs_handle := h, rs_state := st, rs_fence := f\<rparr>)))
           | SYNCOBJ_WAIT n handles flags timeout \<Rightarrow>
               if n = 0 \<or> V3DA_SYNCOBJ_WAIT_MAX < n \<or>
                  list_ex (\<lambda>h. case v3da_syncobj_get (v_clients s ci) h of None \<Rightarrow> True | Some _ \<Rightarrow> False)
                    (take (unat n) handles)
               then respond_err op (s, Some EINVAL)
               else respond_park op
                 (v3da_wait_park calloc_ok now s ci V3DA_WAIT_SYNCOBJ op rid [] handles n
                    (flags AND V3DA_SYNCOBJ_WAIT_ALL \<noteq> 0) (flags AND V3DA_SYNCOBJ_WAIT_FOR_SUBMIT \<noteq> 0) timeout)))"

subsection \<open>What the bookkeeping of a wait leaves alone\<close>

lemma wait_unlink_frame [simp]:
  "v_slot (wait_unlink s w) = v_slot s" "waits (wait_unlink s w) = waits s"
  "v_nparked (wait_unlink s w) = v_nparked s - 1" "slot_gen (wait_unlink s w) = slot_gen s"
  "rx_port (wait_unlink s w) = rx_port s" "active_fence (wait_unlink s w) = active_fence s"
  "dead_flush (wait_unlink s w) = dead_flush s" "kick_pending (wait_unlink s w) = kick_pending s"
  by (simp_all add: wait_unlink_def Let_def)

lemma wait_unlink_client [simp]:
  "c_sync (v_clients (wait_unlink s w) i) = c_sync (v_clients s i)"
  "c_used (v_clients (wait_unlink s w) i) = c_used (v_clients s i)"
  "c_id (v_clients (wait_unlink s w) i) = c_id (v_clients s i)"
  by (simp_all add: wait_unlink_def Let_def)

lemma signaled_cong:
  assumes "v_slot s' = v_slot s"
  shows "v3da_fence_signaled s' f = v3da_fence_signaled s f"
  using assms by (simp add: v3da_fence_signaled_def slot_gen_ok_def)

lemma eval_syncobjs_cong:
  assumes "v_slot s' = v_slot s" "c_sync c' = c_sync c"
  shows "eval_syncobjs s' c' b hs i n f = eval_syncobjs s c b hs i n f"
proof -
  have g: "v3da_syncobj_get c' h = v3da_syncobj_get c h" for h
    using assms(2) by (simp add: v3da_syncobj_get_def)
  show ?thesis
  proof (induction hs arbitrary: i n f)
    case (Cons h hs)
    show ?case by (simp only: eval_syncobjs.simps g signaled_cong [OF assms(1)] Cons.IH)
  qed simp
qed

lemma wait_eval_cong:
  assumes "v_slot s' = v_slot s" "\<And>i. c_sync (v_clients s' i) = c_sync (v_clients s i)"
  shows "wait_eval s' w = wait_eval s w"
  by (cases "w_kind w")
    (simp_all add: wait_eval_def signaled_cong [OF assms(1)] eval_syncobjs_cong [OF assms(1) assms(2)] assms(1) Let_def case_prod_unfold)

lemma wait_eval_unlink [simp]: "wait_eval (wait_unlink s x) w = wait_eval s w"
  by (rule wait_eval_cong) simp_all

lemma wait_eval_timeouts [simp]: "wait_eval (s\<lparr>v_timeouts := t\<rparr>) w = wait_eval s w"
  by (rule wait_eval_cong) simp_all

lemma wait_unlink_resp [simp]: "wait_unlink s (w\<lparr>w_resp := r\<rparr>) = wait_unlink s w"
  by (simp add: wait_unlink_def Let_def)

subsection \<open>The walks in closed form\<close>

text \<open>The wait a claim leaves on the answer list.\<close>

definition claimed :: "errno option \<Rightarrow> v3da_wait \<Rightarrow> v3da_wait" where
  "claimed err w =
     (let r = w_resp w;
          r1 = (if w_kind w = V3DA_WAIT_FENCE then r\<lparr>rs_echo := ucast (vf_seqno (hd (w_fence w)))\<rparr> else r)
      in w\<lparr>w_resp := r1\<lparr>rs_err := err\<rparr>\<rparr>)"

lemma wait_claim_eq: "wait_claim s w err a = (wait_unlink s w, claimed err w # a)"
  by (simp add: wait_claim_def claimed_def Let_def)

lemma claimed_simps [simp]:
  "w_rid (claimed err w) = w_rid w" "w_port (claimed err w) = w_port w" "w_client (claimed err w) = w_client w"
  "rs_err (w_resp (claimed err w)) = err"
  by (simp_all add: claimed_def Let_def)

definition stays :: "v3da_srv \<Rightarrow> u64 \<Rightarrow> v3da_wait \<Rightarrow> bool" where
  "stays s now w \<longleftrightarrow> (case wait_eval s w of NotYet \<Rightarrow> now < w_deadline w | _ \<Rightarrow> False)"

definition scan_answer :: "v3da_srv \<Rightarrow> v3da_wait \<Rightarrow> v3da_wait" where
  "scan_answer s w =
     (case wait_eval s w of
        Satisfied r \<Rightarrow> claimed None (w\<lparr>w_resp := r\<rparr>)
      | Failed e \<Rightarrow> claimed (Some e) w
      | NotYet \<Rightarrow> claimed (Some ETIMEDOUT) w)"

lemma stays_cong:
  assumes "\<And>w. wait_eval s' w = wait_eval s w"
  shows "stays s' = stays s" "scan_answer s' = scan_answer s"
  by (simp_all add: stays_def scan_answer_def assms fun_eq_iff)

text \<open>What a walk over the waits keeps of the state besides the counters.\<close>

definition same_core :: "v3da_srv \<Rightarrow> v3da_srv \<Rightarrow> bool" where
  "same_core s s' \<longleftrightarrow> v_slot s' = v_slot s \<and> slot_gen s' = slot_gen s \<and> rx_port s' = rx_port s \<and>
     dead_flush s' = dead_flush s \<and>
     (\<forall>i. c_sync (v_clients s' i) = c_sync (v_clients s i) \<and> c_used (v_clients s' i) = c_used (v_clients s i) \<and>
          c_id (v_clients s' i) = c_id (v_clients s i))"

lemma same_core_refl: "same_core s s"
  by (simp add: same_core_def)

lemma same_core_trans: "same_core s s' \<Longrightarrow> same_core s' s'' \<Longrightarrow> same_core s s''"
  by (simp add: same_core_def)

lemma same_core_unlink: "same_core s (wait_unlink s w)"
  by (simp add: same_core_def)

lemma same_core_timeouts: "same_core (s\<lparr>v_timeouts := t\<rparr>) s' \<Longrightarrow> same_core s s'"
  by (simp add: same_core_def)

lemma same_core_eval: "same_core s s' \<Longrightarrow> wait_eval s' w = wait_eval s w"
  by (rule wait_eval_cong) (simp_all add: same_core_def)

text \<open>The counters of parked requests, for a collection of waits.\<close>

definition counts_ok :: "v3da_wait multiset \<Rightarrow> v3da_srv \<Rightarrow> bool" where
  "counts_ok M s \<longleftrightarrow> v_nparked s = of_nat (size M) \<and>
     (\<forall>i<V3DA_MAX_CLIENTS. c_nparked (v_clients s i) = of_nat (size {#w \<in># M. w_client w = of_nat i + 1#}))"

definition clients_in_range :: "v3da_wait multiset \<Rightarrow> bool" where
  "clients_in_range M \<longleftrightarrow> (\<forall>w\<in>#M. 1 \<le> unat (w_client w) \<and> unat (w_client w) \<le> V3DA_MAX_CLIENTS)"

lemma max_clients [simp]: "V3DA_MAX_CLIENTS = 60" "V3DA_FENCE_NSLOTS = 60" "V3DA_Q_COUNT = 6"
  by (simp_all add: V3DA_MAX_CLIENTS_def V3DA_FENCE_NSLOTS_def V3DA_Q_COUNT_def)

lemma client_index:
  fixes c :: u32
  assumes "1 \<le> unat c" "unat c \<le> 60"
  shows "unat (c - 1) < 60" "i < 60 \<Longrightarrow> c = of_nat i + 1 \<longleftrightarrow> i = unat (c - 1)"
proof -
  have c: "1 \<le> c" using assms(1) by (simp add: word_le_nat_alt)
  have c1: "unat (c - 1) = unat c - 1"
    using unat_sub [OF c] by simp
  then show "unat (c - 1) < 60" using assms by simp
  assume i: "i < 60"
  have "unat (of_nat i + 1 :: u32) = i + 1"
    using i by (simp add: unat_word_ariths unat_of_nat)
  then have "c = of_nat i + 1 \<longleftrightarrow> unat c = i + 1"
    by (metis word_unat_eq_iff)
  then show "c = of_nat i + 1 \<longleftrightarrow> i = unat (c - 1)" using c1 assms(1) by auto
qed

lemma counts_unlink:
  assumes "counts_ok (add_mset w M) s" "clients_in_range (add_mset w M)" "size M < 2 ^ 32 - 1"
  shows "counts_ok M (wait_unlink s w)"
proof -
  let ?i = "unat (w_client w - 1)"
  have r: "1 \<le> unat (w_client w)" "unat (w_client w) \<le> 60"
    using assms(2) by (simp_all add: clients_in_range_def)
  note i = client_index(1) [OF r]
  have w: "w_client w = of_nat i + 1 \<longleftrightarrow> i = ?i" if "i < 60" for i
    using client_index(2) [OF r that] .
  let ?k = "size {#x \<in># M. w_client x = w_client w#}"
  have k: "c_nparked (v_clients s ?i) = of_nat (Suc ?k)"
    using assms(1) i w [OF i] by (simp add: counts_ok_def)
  have "?k < 2 ^ 32 - 1" using assms(3) size_filter_mset_lesseq [of _ M] by (metis le_less_trans)
  then have k1: "0 < c_nparked (v_clients s ?i)"
    unfolding k by (simp add: word_less_nat_alt unat_of_nat del: of_nat_Suc)
  have g: "1 \<le> w_client w" using r(1) by (simp add: word_le_nat_alt)
  show ?thesis
    using assms(1) k k1 g r w
    by (auto simp: counts_ok_def wait_unlink_def Let_def fun_upd_def)
qed

lemma in_range_add:
  "clients_in_range (add_mset w M) \<longleftrightarrow>
     1 \<le> unat (w_client w) \<and> unat (w_client w) \<le> V3DA_MAX_CLIENTS \<and> clients_in_range M"
  by (auto simp: clients_in_range_def)

lemma counts_timeouts [simp]: "counts_ok M (s\<lparr>v_timeouts := t\<rparr>) = counts_ok M s"
  by (simp add: counts_ok_def)

lemma counts_waits [simp]: "counts_ok M (s\<lparr>waits := ws\<rparr>) = counts_ok M s"
  by (simp add: counts_ok_def)

lemma scan_list_keep:
  assumes "stays s now w"
  shows "scan_list now (w # ws) s a = (let (keep, s', a') = scan_list now ws s a in (w # keep, s', a'))"
  using assms by (auto simp: stays_def split: wait_verdict.splits)

lemma scan_list_drop:
  assumes "\<not> stays s now w"
  obtains t where "scan_list now (w # ws) s a =
    scan_list now ws (wait_unlink (s\<lparr>v_timeouts := t\<rparr>) w) (scan_answer s w # a)"
proof -
  have e: "s\<lparr>v_timeouts := v_timeouts s\<rparr> = s" by simp
  show thesis
  proof (cases "wait_eval s w")
    case NotYet
    then have "w_deadline w \<le> now" using assms by (simp add: stays_def)
    then show thesis using NotYet that by (simp add: wait_claim_eq scan_answer_def)
  qed (use that [of "v_timeouts s"] e in \<open>simp_all add: wait_claim_eq scan_answer_def\<close>)
qed

declare scan_list.simps(2) [simp del]

lemma stays_unlink [simp]:
  "stays (wait_unlink (s\<lparr>v_timeouts := t\<rparr>) w) = stays s"
  "scan_answer (wait_unlink (s\<lparr>v_timeouts := t\<rparr>) w) = scan_answer s"
  by (rule stays_cong; simp)+

lemma scan_list_eq:
  "scan_list now ws s a =
     (filter (stays s now) ws, fst (snd (scan_list now ws s a)),
      rev (map (scan_answer s) (filter (\<lambda>w. \<not> stays s now w) ws)) @ a)"
proof (induction ws arbitrary: s a)
  case (Cons w ws)
  show ?case
  proof (cases "stays s now w")
    case True
    show ?thesis
      using arg_cong [OF Cons.IH [of s a], of fst] arg_cong [OF Cons.IH [of s a], of "\<lambda>x. snd (snd x)"] True
      by (simp add: scan_list_keep case_prod_unfold Let_def prod_eq_iff)
  next
    case False
    from scan_list_drop [OF this] obtain t where t: "scan_list now (w # ws) s a =
      scan_list now ws (wait_unlink (s\<lparr>v_timeouts := t\<rparr>) w) (scan_answer s w # a)" .
    show ?thesis unfolding t by (subst Cons.IH) (simp add: False)
  qed
qed simp

lemma scan_list_core: "same_core s (fst (snd (scan_list now ws s a)))"
proof (induction ws arbitrary: s a)
  case (Cons w ws)
  show ?case
  proof (cases "stays s now w")
    case True
    show ?thesis using Cons.IH [of s a] True by (simp add: scan_list_keep case_prod_unfold Let_def)
  next
    case False
    from scan_list_drop [OF this] obtain t where t: "scan_list now (w # ws) s a =
      scan_list now ws (wait_unlink (s\<lparr>v_timeouts := t\<rparr>) w) (scan_answer s w # a)" .
    show ?thesis unfolding t
      by (rule same_core_timeouts [OF same_core_trans [OF same_core_unlink Cons.IH]])
  qed
qed (simp add: same_core_refl)

lemma scan_list_counts:
  assumes "counts_ok (M + mset ws) s" "clients_in_range (M + mset ws)" "size M + length ws < 2 ^ 32"
  shows "counts_ok (M + mset (filter (stays s now) ws)) (fst (snd (scan_list now ws s a)))"
  using assms
proof (induction ws arbitrary: M s a)
  case (Cons w ws)
  show ?case
  proof (cases "stays s now w")
    case True
    show ?thesis using Cons.IH [of "add_mset w M" s a] Cons.prems True
      by (simp add: scan_list_keep case_prod_unfold Let_def)
  next
    case False
    from scan_list_drop [OF this] obtain t where t: "scan_list now (w # ws) s a =
      scan_list now ws (wait_unlink (s\<lparr>v_timeouts := t\<rparr>) w) (scan_answer s w # a)" .
    have "counts_ok (M + mset ws) (wait_unlink (s\<lparr>v_timeouts := t\<rparr>) w)"
      by (rule counts_unlink) (use Cons.prems in \<open>simp_all add: size_mset\<close>)
    from Cons.IH [OF this, of "scan_answer s w # a"] show ?thesis
      unfolding t using Cons.prems False by (simp add: in_range_add)
  qed
qed simp

lemma gone_list_eq:
  "gone_list c ws s a =
     (filter (\<lambda>w. w_client w \<noteq> c) ws, fst (snd (gone_list c ws s a)),
      rev (map (claimed (Some EPIPE)) (filter (\<lambda>w. w_client w = c) ws)) @ a)"
proof (induction ws arbitrary: s a)
  case (Cons w ws)
  show ?case
    using arg_cong [OF Cons.IH [of s a], of fst] arg_cong [OF Cons.IH [of s a], of "\<lambda>x. snd (snd x)"]
      Cons.IH [of "wait_unlink s w" "claimed (Some EPIPE) w # a"]
    by (auto simp: wait_claim_eq case_prod_unfold Let_def prod_eq_iff)
qed simp

lemma gone_list_core: "same_core s (fst (snd (gone_list c ws s a)))"
  by (induction ws arbitrary: s a)
    (auto simp: wait_claim_eq case_prod_unfold Let_def same_core_refl
      intro: same_core_trans [OF same_core_unlink])

lemma gone_list_counts:
  assumes "counts_ok (M + mset ws) s" "clients_in_range (M + mset ws)" "size M + length ws < 2 ^ 32"
  shows "counts_ok (M + mset (filter (\<lambda>w. w_client w \<noteq> c) ws)) (fst (snd (gone_list c ws s a)))"
  using assms
proof (induction ws arbitrary: M s a)
  case (Cons w ws)
  show ?case
  proof (cases "w_client w = c")
    case True
    have "counts_ok (M + mset ws) (wait_unlink s w)"
      by (rule counts_unlink) (use Cons.prems in \<open>simp_all add: size_mset\<close>)
    from Cons.IH [OF this, of "claimed (Some EPIPE) w # a"] show ?thesis
      using Cons.prems True by (simp add: in_range_add wait_claim_eq)
  next
    case False
    show ?thesis using Cons.IH [of "add_mset w M" s a] Cons.prems False
      by (simp add: case_prod_unfold Let_def)
  qed
qed simp

lemma all_list_eq: "all_list e ws s a = (fst (all_list e ws s a), rev (map (claimed e) ws) @ a)"
proof (induction ws arbitrary: s a)
  case (Cons w ws)
  show ?case using Cons.IH [of "wait_unlink s w" "claimed e w # a"] by (simp add: wait_claim_eq)
qed simp

lemma all_list_core: "same_core s (fst (all_list e ws s a))"
  by (induction ws arbitrary: s a)
    (auto simp: wait_claim_eq same_core_refl intro: same_core_trans [OF same_core_unlink])

lemma all_list_counts:
  assumes "counts_ok (mset ws) s" "clients_in_range (mset ws)" "length ws < 2 ^ 32"
  shows "counts_ok {#} (fst (all_list e ws s a))"
  using assms
proof (induction ws arbitrary: s a)
  case (Cons w ws)
  have "counts_ok (mset ws) (wait_unlink s w)"
    by (rule counts_unlink) (use Cons.prems in \<open>simp_all add: size_mset\<close>)
  from Cons.IH [OF this, of "claimed e w # a"] show ?case
    using Cons.prems by (simp add: in_range_add wait_claim_eq)
qed simp

lemma waits_scan_eq:
  "fst (waits_scan s now) = (fst (snd (scan_list now (waits s) s [])))\<lparr>waits := filter (stays s now) (waits s)\<rparr>"
  "snd (waits_scan s now) = rev (map (scan_answer s) (filter (\<lambda>w. \<not> stays s now w) (waits s)))"
  by (subst waits_scan_def, subst scan_list_eq, simp)+

lemma client_gone_eq:
  "fst (v3da_waits_client_gone s c a) =
     (fst (snd (gone_list c (waits s) s a)))\<lparr>waits := filter (\<lambda>w. w_client w \<noteq> c) (waits s)\<rparr>"
  "snd (v3da_waits_client_gone s c a) =
     rev (map (claimed (Some EPIPE)) (filter (\<lambda>w. w_client w = c) (waits s))) @ a"
  by (subst v3da_waits_client_gone_def, subst gone_list_eq, simp)+

lemma waits_all_eq:
  "fst (v3da_waits_all s a e) = (fst (all_list e (waits s) s a))\<lparr>waits := []\<rparr>"
  "snd (v3da_waits_all s a e) = rev (map (claimed e) (waits s)) @ a"
  by (subst v3da_waits_all_def, subst all_list_eq, simp)+

subsection \<open>Histories\<close>

text \<open>The server's life as seen by its waits: clients come and go, requests arrive on a port, a job
  completes (or the set of jobs in flight changes), the event thread scans, the server quits. Each
  event yields the responses sent; a closing client is released after its waits are answered.\<close>

datatype v3da_event =
    EvOpen int
  | EvHello u64 u32
  | EvClose u64
  | EvReq bool u64 u32 int u64 v3da_req
  | EvActive "nat \<Rightarrow> v3da_fence option"
  | EvComplete v3da_fence nat bool
  | EvScan u64
  | EvQuit

definition close_waits :: "v3da_srv \<Rightarrow> u64 \<Rightarrow> v3da_srv \<times> v3da_wait list" where
  "close_waits s oid =
     (case client_get s oid of
        None \<Rightarrow> (s, [])
      | Some ci \<Rightarrow>
          (let (s1, a) = v3da_waits_client_gone s (c_id (v_clients s ci)) []
           in (s1\<lparr>v_clients := (v_clients s1)(ci := (v_clients s1 ci)\<lparr>c_used := False\<rparr>),
                  nclients := nclients s1 - 1\<rparr>, a)))"

fun ev_step :: "u32 \<Rightarrow> v3da_event \<Rightarrow> v3da_srv \<Rightarrow> v3da_srv \<times> (u32 \<times> int \<times> v3da_resp) list" where
  "ev_step port (EvOpen pid) s = (fst (client_open s pid), [])"
| "ev_step port (EvHello oid proto) s = (fst (client_hello s oid proto), [])"
| "ev_step port (EvClose oid) s =
     (let (s', a) = close_waits s oid in (s', v3da_waits_answer port a))"
| "ev_step port (EvReq calloc_ok now rx rid oid req) s =
     (case handle_raw calloc_ok now (s\<lparr>rx_port := rx\<rparr>) oid rid req of
        (s', None) \<Rightarrow> (s', [])
      | (s', Some r) \<Rightarrow> (s', [(rx, rid, r)]))"
| "ev_step port (EvActive a) s = (s\<lparr>active_fence := a\<rparr>, [])"
| "ev_step port (EvComplete f q e) s = (v3da_fence_complete s f q e, [])"
| "ev_step port (EvScan now) s = (let (s', a) = waits_scan s now in (s', v3da_waits_answer port a))"
| "ev_step port EvQuit s =
     (let (s', a) = v3da_waits_all s [] (Some ENODEV) in (s', v3da_waits_answer port a))"

fun ev_run :: "u32 \<Rightarrow> v3da_event list \<Rightarrow> v3da_srv \<Rightarrow> v3da_srv \<times> (u32 \<times> int \<times> v3da_resp) list" where
  "ev_run port [] s = (s, [])"
| "ev_run port (e # es) s =
     (let (s1, r1) = ev_step port e s; (s2, r2) = ev_run port es s1 in (s2, r1 @ r2))"

definition v3da_srv0 :: v3da_srv where
  "v3da_srv0 = \<lparr>rx_port = 0, v_slot = (\<lambda>_. \<lparr>s_completed = (\<lambda>_. 0), s_error_seq = 0, s_gen = 0\<rparr>),
     hw_completed = (\<lambda>_. 0), v_clients = (\<lambda>i. (new_client i 0)\<lparr>c_used := False, c_id := 0, c_slot := 0\<rparr>), nclients = 0,
     slot_gen = (\<lambda>_. 0), dead_flush = (\<lambda>_ _. 0), active_fence = (\<lambda>_. None), waits = [], v_nparked = 0,
     parked_max = 0, v_timeouts = 0, kick_pending = False\<rparr>"

text \<open>The requests received.\<close>

fun ev_rids :: "v3da_event \<Rightarrow> (u32 \<times> int) list" where
  "ev_rids (EvReq calloc_ok now rx rid oid req) = [(rx, rid)]"
| "ev_rids _ = []"

fun ev_port_ok :: "v3da_event \<Rightarrow> bool" where
  "ev_port_ok (EvReq calloc_ok now rx rid oid req) \<longleftrightarrow> rx \<noteq> 0"
| "ev_port_ok _ \<longleftrightarrow> True"

definition srv_ok :: "v3da_srv \<Rightarrow> bool" where
  "srv_ok s \<longleftrightarrow> counts_ok (mset (waits s)) s \<and> clients_in_range (mset (waits s)) \<and>
     (\<forall>w\<in>set (waits s). w_port w \<noteq> 0 \<and> c_used (v_clients s (unat (w_client w - 1)))) \<and>
     (\<forall>i<V3DA_MAX_CLIENTS. c_used (v_clients s i) \<longrightarrow> c_id (v_clients s i) = of_nat i + 1) \<and>
     (\<forall>i. s_gen (v_slot s i) = slot_gen s i)"

abbreviation rid_of :: "v3da_wait \<Rightarrow> u32 \<times> int" where
  "rid_of w \<equiv> (w_port w, w_rid w)"

end
