(* ===== verification/V3da_Waits.thy ===== *)
theory V3da_Waits
  imports V3da
begin

text \<open>
  Properties of the waits and fences of the GPU render server over its histories: every request is
  answered once and on its own port, no wait outlives its deadline unanswered, and a signalled fence
  stays signalled while the completions of its queue come in order.
\<close>

lemma nslots_code [code]: "V3DA_FENCE_NSLOTS = 60"
  by simp

subsection \<open>Every request is answered once\<close>

text \<open>The part of the state the invariant reads.\<close>

definition same_view :: "v3da_srv \<Rightarrow> v3da_srv \<Rightarrow> bool" where
  "same_view s s' \<longleftrightarrow> waits s' = waits s \<and> v_nparked s' = v_nparked s \<and> slot_gen s' = slot_gen s \<and>
     (\<forall>i. s_gen (v_slot s' i) = s_gen (v_slot s i)) \<and>
     (\<forall>i. c_used (v_clients s' i) = c_used (v_clients s i) \<and> c_id (v_clients s' i) = c_id (v_clients s i) \<and>
          c_nparked (v_clients s' i) = c_nparked (v_clients s i))"

lemma same_view_ok: "same_view s s' \<Longrightarrow> srv_ok s \<Longrightarrow> srv_ok s'"
  by (simp add: same_view_def srv_ok_def counts_ok_def)

lemma same_view_refl [simp]: "same_view s s"
  by (simp add: same_view_def)

lemma same_view_rx [simp]: "same_view s (s\<lparr>rx_port := p\<rparr>)"
  by (simp add: same_view_def)

lemma same_view_trans: "same_view s s' \<Longrightarrow> same_view s' s'' \<Longrightarrow> same_view s s''"
  by (simp add: same_view_def)

lemma sync_views:
  "same_view s (fst (v3da_syncobj_create s ci fl))"
  "same_view s (fst (v3da_syncobj_destroy s ci h))"
  "same_view s (fst (v3da_syncobj_reset s ci h))"
  "same_view s (fst (v3da_syncobj_signal s ci h))"
  "same_view s (fst (v3da_syncobj_import s ci h f))"
  "same_view s (fst (client_hello s oid p))"
  "same_view s (v3da_fence_complete s f q e)"
  by (simp_all add: same_view_def v3da_syncobj_create_def v3da_syncobj_destroy_def v3da_syncobj_reset_def
      v3da_syncobj_signal_def v3da_syncobj_import_def client_hello_def v3da_fence_complete_def set_sync_def
      v3da_kick_event_thread_def Let_def split: option.splits)

lemma client_get_Some:
  assumes "client_get s oid = Some ci"
  shows "ci < 60" "c_used (v_clients s ci)"
proof -
  have o: "\<not> oid < 1" "unat oid \<le> 60" "ci = unat (oid - 1)" "c_used (v_clients s ci)"
    using assms by (auto simp: client_get_def split: if_splits)
  then have "1 \<le> oid" by (simp only: not_less)
  then have "unat (oid - 1) = unat oid - 1" by (simp add: unat_sub)
  moreover have "0 < unat oid" using \<open>1 \<le> oid\<close> by (simp add: word_le_nat_alt)
  ultimately show "ci < 60" "c_used (v_clients s ci)" using o by simp_all
qed

lemma park_cases:
  assumes "v3da_wait_park calloc_ok now s ci kind op rid fences handles n all for_submit timeout_ms = (s', res)"
  obtains "res \<noteq> Parked" "s' = s"
  | w where "res = Parked" "w_client w = c_id (v_clients s ci)" "w_rid w = rid" "w_port w = rx_port s"
      "s' = v3da_kick_event_thread
         (s\<lparr>waits := w # waits s,
            v_clients := (v_clients s)(ci := (v_clients s ci)\<lparr>c_nparked := c_nparked (v_clients s ci) + 1\<rparr>),
            v_nparked := v_nparked s + 1,
            parked_max := (if parked_max s < v_nparked s + 1 then v_nparked s + 1 else parked_max s)\<rparr>)"
proof (cases "V3DA_SYNCOBJ_WAIT_MAX < n \<or> \<not> calloc_ok")
  case True
  then have "v3da_wait_park calloc_ok now s ci kind op rid fences handles n all for_submit timeout_ms =
    (s, Refused (if V3DA_SYNCOBJ_WAIT_MAX < n then EINVAL else ENOMEM))"
    by (cases "V3DA_SYNCOBJ_WAIT_MAX < n") (simp_all add: v3da_wait_park_def)
  then show thesis using assms that(1) by auto
next
  case False
  define w where "w = \<lparr>w_kind = kind, w_client = c_id (v_clients s ci), w_rid = rid, w_port = rx_port s,
    w_deadline = 0, w_fence = pad_to 8 zero_fence (take (unat n) fences),
    w_handle = pad_to 8 0 (take (unat n) handles), w_n = n, w_all = all, w_for_submit = for_submit,
    w_resp = resp0 op\<rparr>"
  define w' where "w' = w\<lparr>w_deadline :=
    now + ucast (if V3DA_WAIT_MAX_MS < timeout_ms then V3DA_WAIT_MAX_MS else timeout_ms) * 1000\<rparr>"
  note e = assms [unfolded v3da_wait_park_def Let_def, folded w_def, folded w'_def]
  show thesis
  proof (cases "wait_eval s w")
    case NotYet
    show thesis
    proof (cases "timeout_ms = 0")
      case True
      then show thesis using e False NotYet that(1) by auto
    next
      case nz: False
      show thesis
        by (rule that(2) [of w']) (use e False NotYet nz in \<open>simp_all add: w'_def w_def\<close>)
    qed
  qed (use e False that(1) in auto)
qed

lemma client_word:
  assumes "i < 60"
  shows "unat (of_nat i + 1 :: u32) = i + 1" "unat (of_nat i :: u32) = i"
  using assms by (simp_all add: unat_word_ariths unat_of_nat)

lemma counts_park:
  assumes "counts_ok (mset (waits s)) s" "ci < 60" "w_client w = of_nat ci + 1"
    "v_nparked s' = v_nparked s + 1"
    "v_clients s' = (v_clients s)(ci := (v_clients s ci)\<lparr>c_nparked := c_nparked (v_clients s ci) + 1\<rparr>)"
  shows "counts_ok (mset (w # waits s)) s'"
proof -
  have "(of_nat ci + 1 :: u32) = of_nat i + 1 \<longleftrightarrow> i = ci" if "i < 60" for i
    using client_index(2) [of "of_nat ci + 1" i] client_index(2) [of "of_nat ci + 1" ci] assms(2) that
    by (auto simp: client_word)
  then show ?thesis using assms by (auto simp: counts_ok_def)
qed

lemma park_ok:
  assumes "srv_ok s" "rx_port s \<noteq> 0" "ci < 60" "c_used (v_clients s ci)"
    "v3da_wait_park calloc_ok now s ci kind op rid fences handles n all for_submit timeout_ms = (s', res)"
  shows "srv_ok s' \<and> map rid_of (waits s') = (if res = Parked then [(rx_port s, rid)] else []) @ map rid_of (waits s)"
  using assms(5)
proof (cases rule: park_cases)
  case 1
  then show ?thesis using assms(1) by simp
next
  case (2 w)
  have c: "c_id (v_clients s ci) = of_nat ci + 1" using assms by (simp add: srv_ok_def)
  have ci: "unat (w_client w - 1) = ci" "1 \<le> unat (w_client w)" "unat (w_client w) \<le> 60"
    using 2 c assms(3) by (simp_all add: client_word)
  have "counts_ok (mset (w # waits s)) s'"
    by (rule counts_park [where ci = ci]) (use 2 c assms in \<open>simp_all add: srv_ok_def v3da_kick_event_thread_def\<close>)
  then show ?thesis
    using 2 c ci assms by (auto simp: srv_ok_def v3da_kick_event_thread_def clients_in_range_def)
qed

text \<open>A request is answered at once or parked, never both.\<close>

definition one_answer :: "v3da_srv \<Rightarrow> int \<Rightarrow> v3da_srv \<times> v3da_resp option \<Rightarrow> bool" where
  "one_answer s rid x \<longleftrightarrow> srv_ok (fst x) \<and>
     map rid_of (waits (fst x)) = (if snd x = None then [(rx_port s, rid)] else []) @ map rid_of (waits s)"

lemma one_answer_err: "srv_ok s \<Longrightarrow> same_view s (fst x) \<Longrightarrow> one_answer s rid (respond_err op x)"
  using same_view_ok by (auto simp: one_answer_def respond_err_def same_view_def)

lemma one_answer_park:
  assumes "srv_ok s" "rx_port s \<noteq> 0" "ci < 60" "c_used (v_clients s ci)"
  shows "one_answer s rid
    (respond_park op (v3da_wait_park calloc_ok now s ci kind op rid fences handles n all for_submit timeout_ms))"
proof -
  obtain s' res where r: "v3da_wait_park calloc_ok now s ci kind op rid fences handles n all for_submit timeout_ms =
    (s', res)" by fastforce
  from park_ok [OF assms r] show ?thesis
    unfolding r by (cases res) (simp_all add: one_answer_def respond_park_def)
qed

lemma handle_raw_one:
  assumes "srv_ok s" "rx_port s \<noteq> 0"
  shows "one_answer s rid (handle_raw calloc_ok now s oid rid req)"
proof (cases "client_get s oid")
  case None
  then show ?thesis using one_answer_err [OF assms(1)] by (simp add: handle_raw_def)
next
  case (Some ci)
  note park = one_answer_park [OF assms client_get_Some [OF Some]]
  note err = one_answer_err [OF assms(1)]
  note view = same_view_ok [OF _ assms(1)]
  show ?thesis
  proof (cases req)
    case (BO_WAIT lasts t)
    then show ?thesis using Some park err by (cases lasts) (simp_all add: handle_raw_def)
  next
    case (SYNCOBJ_CREATE fl)
    obtain s' r where c: "v3da_syncobj_create s ci fl = (s', r)" by fastforce
    then have v: "same_view s s'" using sync_views(1) [of s ci fl] by simp
    show ?thesis using Some SYNCOBJ_CREATE c v view [OF v] err [of "(s', _)"]
      by (cases r) (simp_all add: handle_raw_def one_answer_def same_view_def respond_err_def)
  next
    case (SYNCOBJ_QUERY h)
    then show ?thesis using Some assms(1) err
      by (cases "v3da_syncobj_query s ci h") (auto simp: handle_raw_def one_answer_def)
  qed (use Some park err sync_views in \<open>simp_all add: handle_raw_def\<close>)
qed

text \<open>Walks and clients.\<close>

lemma walk_ok:
  assumes "srv_ok s" "same_core s t" "counts_ok (mset ws) t" "set ws \<subseteq> set (waits s)" "waits t = ws"
  shows "srv_ok t"
  using assms by (auto simp: srv_ok_def same_core_def clients_in_range_def)

lemma mset_filter_split: "mset (map f (filter P xs)) + mset (map f (filter (\<lambda>x. \<not> P x) xs)) = mset (map f xs)"
  by (induction xs) auto

text \<open>What the three walks over the parked waits have in common: some waits stay, the others are answered
  under their own identity, and only the counters change besides.\<close>

locale wait_walk =
  fixes walk :: "v3da_srv \<Rightarrow> v3da_srv \<times> v3da_wait list"
    and stay :: "v3da_srv \<Rightarrow> v3da_wait \<Rightarrow> bool"
    and ans :: "v3da_srv \<Rightarrow> v3da_wait \<Rightarrow> v3da_wait"
  assumes keeps: "waits (fst (walk s)) = filter (stay s) (waits s)"
    and answers: "snd (walk s) = rev (map (ans s) (filter (\<lambda>w. \<not> stay s w) (waits s)))"
    and core: "same_core s (fst (walk s))"
    and counts: "counts_ok (mset (waits s)) s \<Longrightarrow> clients_in_range (mset (waits s)) \<Longrightarrow> length (waits s) < 2 ^ 32 \<Longrightarrow>
      counts_ok (mset (filter (stay s) (waits s))) (fst (walk s))"
    and same_request: "rid_of (ans s w) = rid_of w"
begin

lemma walk_keeps_ok:
  assumes "srv_ok s" "length (waits s) < 2 ^ 32"
  shows "srv_ok (fst (walk s))"
  by (rule walk_ok [OF assms(1) core counts _ keeps]) (use assms in \<open>auto simp: srv_ok_def\<close>)

lemma walk_answers_once:
  "mset (map rid_of (snd (walk s))) + mset (map rid_of (waits (fst (walk s)))) = mset (map rid_of (waits s))"
proof -
  have "rid_of \<circ> ans s = rid_of" using same_request by (auto simp: fun_eq_iff)
  then show ?thesis
    using mset_filter_split [of rid_of "stay s" "waits s"]
    by (simp add: keeps answers multiset.map_comp union_commute)
qed

lemma walk_ports:
  assumes "srv_ok s" "w \<in> set (snd (walk s))"
  shows "w_port w \<noteq> 0"
  using assms same_request by (auto simp: answers srv_ok_def)

end

lemma scan_answer_simps [simp]:
  "w_rid (scan_answer s w) = w_rid w" "w_port (scan_answer s w) = w_port w"
  by (simp_all add: scan_answer_def split: wait_verdict.splits)

lemma same_core_waits [simp]: "same_core s (t\<lparr>waits := ws\<rparr>) = same_core s t"
  by (simp add: same_core_def)

interpretation scan: wait_walk "\<lambda>s. waits_scan s now" "\<lambda>s. stays s now" scan_answer for now
proof
  fix s w
  show "counts_ok (mset (filter (stays s now) (waits s))) (fst (waits_scan s now))"
    if "counts_ok (mset (waits s)) s" "clients_in_range (mset (waits s))" "length (waits s) < 2 ^ 32"
    using scan_list_counts [of "{#}" "waits s" s now "[]"] that by (simp add: waits_scan_eq)
qed (simp_all add: waits_scan_eq scan_list_core)

interpretation gone: wait_walk "\<lambda>s. v3da_waits_client_gone s c []" "\<lambda>s w. w_client w \<noteq> c"
  "\<lambda>s. claimed (Some EPIPE)" for c
proof
  fix s w
  show "counts_ok (mset (filter (\<lambda>w. w_client w \<noteq> c) (waits s))) (fst (v3da_waits_client_gone s c []))"
    if "counts_ok (mset (waits s)) s" "clients_in_range (mset (waits s))" "length (waits s) < 2 ^ 32"
    using gone_list_counts [of "{#}" "waits s" s c "[]"] that by (simp add: client_gone_eq)
qed (simp_all add: client_gone_eq gone_list_core)

interpretation quit: wait_walk "\<lambda>s. v3da_waits_all s [] e" "\<lambda>s w. False" "\<lambda>s. claimed e" for e
proof
  fix s w
  show "counts_ok (mset (filter (\<lambda>w. False) (waits s))) (fst (v3da_waits_all s [] e))"
    if "counts_ok (mset (waits s)) s" "clients_in_range (mset (waits s))" "length (waits s) < 2 ^ 32"
    using all_list_counts [of "waits s" s e "[]"] that by (simp add: waits_all_eq)
qed (simp_all add: waits_all_eq all_list_core)

lemma wait_index:
  assumes "srv_ok s" "w \<in> set (waits s)" "i < 60"
  shows "w_client w = of_nat i + 1 \<longleftrightarrow> unat (w_client w - 1) = i"
proof -
  have "1 \<le> unat (w_client w)" "unat (w_client w) \<le> 60"
    using assms(1,2) by (simp_all add: srv_ok_def clients_in_range_def)
  from client_index(2) [OF this assms(3)] show ?thesis by auto
qed

lemma open_ok:
  assumes "srv_ok s"
  shows "srv_ok (fst (client_open s pid))" "waits (fst (client_open s pid)) = waits s"
proof -
  have "srv_ok (fst (client_open s pid)) \<and> waits (fst (client_open s pid)) = waits s"
  proof (cases "List.find (\<lambda>i. \<not> c_used (v_clients s i) \<and> \<not> v3da_slot_busy s i) [0..<V3DA_MAX_CLIENTS]")
    case None
    then show ?thesis using assms by (simp add: client_open_def)
  next
    case (Some i)
    then have i: "i < 60" "\<not> c_used (v_clients s i)"
      by (auto simp: find_Some_iff nth_append)
    have no: "w_client w \<noteq> of_nat i + 1" "unat (w_client w - 1) \<noteq> i" if "w \<in> set (waits s)" for w
      using wait_index [OF assms that i(1)] assms i(2) that by (auto simp: srv_ok_def)
    then have z: "{#w \<in># mset (waits s). w_client w = of_nat i + 1#} = {#}"
      by (auto simp: multiset_eq_iff count_eq_zero_iff)
    show ?thesis
      using Some assms no i
      by (auto simp: client_open_def v3da_slot_assign_def Let_def srv_ok_def counts_ok_def new_client_def z)
  qed
  then show "srv_ok (fst (client_open s pid))" "waits (fst (client_open s pid)) = waits s" by blast+
qed

lemma close_ok:
  assumes "srv_ok s" "length (waits s) < 2 ^ 32"
  shows "srv_ok (fst (close_waits s oid))"
    "mset (map rid_of (snd (close_waits s oid))) + mset (map rid_of (waits (fst (close_waits s oid)))) =
     mset (map rid_of (waits s))"
    "\<forall>w\<in>set (snd (close_waits s oid)). w_port w \<noteq> 0"
proof -
  have "srv_ok (fst (close_waits s oid)) \<and>
    mset (map rid_of (snd (close_waits s oid))) + mset (map rid_of (waits (fst (close_waits s oid)))) =
     mset (map rid_of (waits s)) \<and> (\<forall>w\<in>set (snd (close_waits s oid)). w_port w \<noteq> 0)"
  proof (cases "client_get s oid")
    case None
    then show ?thesis using assms by (simp add: close_waits_def)
  next
    case (Some ci)
    note ci = client_get_Some [OF Some]
    define c where "c = c_id (v_clients s ci)"
    define t where "t = fst (v3da_waits_client_gone s c [])"
    have c: "c = of_nat ci + 1" using assms(1) ci by (simp add: srv_ok_def c_def)
    have t: "srv_ok t" "waits t = filter (\<lambda>w. w_client w \<noteq> c) (waits s)"
      unfolding t_def by (rule gone.walk_keeps_ok [OF assms], rule gone.keeps)
    have no: "unat (w_client w - 1) \<noteq> ci" if "w \<in> set (waits t)" for w
      using wait_index [OF t(1) that ci(1)] t(2) c that by auto
    have e: "close_waits s oid =
      (t\<lparr>v_clients := (v_clients t)(ci := (v_clients t ci)\<lparr>c_used := False\<rparr>), nclients := nclients t - 1\<rparr>,
       snd (v3da_waits_client_gone s c []))"
      using Some by (simp add: close_waits_def c_def t_def case_prod_unfold Let_def)
    have "srv_ok (fst (close_waits s oid))"
      unfolding e using t(1) no by (auto simp: srv_ok_def counts_ok_def)
    moreover have "mset (map rid_of (snd (close_waits s oid))) + mset (map rid_of (waits (fst (close_waits s oid)))) =
      mset (map rid_of (waits s))"
      unfolding e using gone.walk_answers_once [of s c] by (simp add: t_def)
    moreover have "\<forall>w\<in>set (snd (close_waits s oid)). w_port w \<noteq> 0"
      unfolding e using gone.walk_ports [OF assms(1)] by auto
    ultimately show ?thesis by blast
  qed
  then show "srv_ok (fst (close_waits s oid))"
    "mset (map rid_of (snd (close_waits s oid))) + mset (map rid_of (waits (fst (close_waits s oid)))) =
     mset (map rid_of (waits s))"
    "\<forall>w\<in>set (snd (close_waits s oid)). w_port w \<noteq> 0"
    by blast+
qed

lemma answer_rids:
  assumes "\<forall>w\<in>set ws. w_port w \<noteq> 0"
  shows "map (\<lambda>(p, i, r). (p, i)) (v3da_waits_answer port ws) = map rid_of ws"
  using assms by (induction ws) (simp_all add: v3da_waits_answer_def)

lemma ev_step_once:
  assumes "srv_ok s" "length (waits s) < 2 ^ 32" "ev_port_ok e" "ev_step port e s = (s', r)"
  shows "srv_ok s'"
    "mset (map (\<lambda>(p, i, r). (p, i)) r) + mset (map rid_of (waits s')) = mset (map rid_of (waits s)) + mset (ev_rids e)"
proof -
  have p: "\<forall>w\<in>set (waits s). w_port w \<noteq> 0" using assms(1) by (simp add: srv_ok_def)
  have "srv_ok s' \<and> mset (map (\<lambda>(p, i, r). (p, i)) r) + mset (map rid_of (waits s')) =
    mset (map rid_of (waits s)) + mset (ev_rids e)"
  proof (cases e)
    case (EvOpen pid)
    then show ?thesis using assms(4) open_ok [OF assms(1), of pid] by auto
  next
    case (EvHello oid proto)
    have "same_view s s'" using assms(4) EvHello sync_views(6) [of s oid proto] by auto
    then show ?thesis using assms(1,4) EvHello same_view_ok [of s s'] by (auto simp: same_view_def)
  next
    case (EvClose oid)
    then have "s' = fst (close_waits s oid)" "r = v3da_waits_answer port (snd (close_waits s oid))"
      using assms(4) by (auto simp: case_prod_unfold Let_def)
    then show ?thesis using EvClose close_ok [OF assms(1,2), of oid]
      by (simp add: answer_rids)
  next
    case (EvReq calloc_ok now rx rid oid req)
    let ?s = "s\<lparr>rx_port := rx\<rparr>"
    have ok: "srv_ok ?s" by (rule same_view_ok [OF _ assms(1)]) simp
    obtain t x where t: "handle_raw calloc_ok now ?s oid rid req = (t, x)" by fastforce
    have "rx_port ?s \<noteq> 0" using assms(3) EvReq by simp
    from handle_raw_one [OF ok this, of rid calloc_ok now oid req] show ?thesis
      using assms(4) EvReq t by (cases x) (auto simp: one_answer_def)
  next
    case (EvActive a)
    then have "same_view s s'" using assms(4) by (auto simp: same_view_def)
    then show ?thesis using assms(1,4) EvActive same_view_ok [of s s'] by (auto simp: same_view_def)
  next
    case (EvComplete f q err)
    then have "same_view s s'" using assms(4) sync_views(7) [of s f q err] by auto
    then show ?thesis using assms(1,4) EvComplete same_view_ok [of s s'] by (auto simp: same_view_def)
  next
    case (EvScan now)
    then have s': "s' = fst (waits_scan s now)" "r = v3da_waits_answer port (snd (waits_scan s now))"
      using assms(4) by (auto simp: case_prod_unfold Let_def)
    then show ?thesis
      using EvScan scan.walk_keeps_ok [OF assms(1,2)] scan.walk_ports [OF assms(1)] scan.walk_answers_once [of s now]
      by (simp add: answer_rids)
  next
    case EvQuit
    then have s': "s' = fst (v3da_waits_all s [] (Some ENODEV))"
      "r = v3da_waits_answer port (snd (v3da_waits_all s [] (Some ENODEV)))"
      using assms(4) by (auto simp: case_prod_unfold Let_def)
    then show ?thesis
      using EvQuit quit.walk_keeps_ok [OF assms(1,2)] quit.walk_ports [OF assms(1)]
        quit.walk_answers_once [of s "Some ENODEV"]
      by (simp add: answer_rids)
  qed
  then show "srv_ok s'" "mset (map (\<lambda>(p, i, r). (p, i)) r) + mset (map rid_of (waits s')) =
    mset (map rid_of (waits s)) + mset (ev_rids e)" by blast+
qed

lemma ev_step_length:
  assumes "srv_ok s" "length (waits s) < 2 ^ 32" "ev_port_ok e" "ev_step port e s = (s', r)"
  shows "length (waits s') \<le> Suc (length (waits s))"
proof -
  have "length r + length (waits s') = length (waits s) + length (ev_rids e)"
    using arg_cong [OF ev_step_once(2) [OF assms], of size] by simp
  moreover have "length (ev_rids e) \<le> 1" by (cases e) simp_all
  ultimately show ?thesis by simp
qed

lemma ev_run_once:
  assumes "srv_ok s" "length (waits s) + length es < 2 ^ 32" "list_all ev_port_ok es" "ev_run port es s = (s', r)"
  shows "srv_ok s' \<and> mset (map (\<lambda>(p, i, r). (p, i)) r) + mset (map rid_of (waits s')) =
    mset (map rid_of (waits s)) + mset (concat (map ev_rids es))"
  using assms
proof (induction es arbitrary: s r)
  case (Cons e es)
  obtain s1 r1 where 1: "ev_step port e s = (s1, r1)" by fastforce
  obtain r2 where 2: "ev_run port es s1 = (s', r2)" "r = r1 @ r2"
    using Cons.prems(4) 1 by (auto split: prod.splits)
  have pre: "srv_ok s" "length (waits s) < 2 ^ 32" "ev_port_ok e" using Cons.prems by simp_all
  have "length (waits s1) + length es < 2 ^ 32"
    using ev_step_length [OF pre 1] Cons.prems(2) by simp
  from Cons.IH [OF ev_step_once(1) [OF pre 1] this _ 2(1)] ev_step_once(2) [OF pre 1] Cons.prems(3) 2(2)
  show ?case by (simp add: add.assoc)
qed simp

lemma srv0_ok: "srv_ok v3da_srv0"
  by (simp add: srv_ok_def counts_ok_def clients_in_range_def v3da_srv0_def new_client_def)

text \<open>C35. Every request on a fence, a sync object or a buffer's idleness is answered exactly once: in any
  history of the server from its start, the responses sent together with the requests still parked
  are the requests received, each on the port it arrived on; and the server's and each client's
  counts of parked requests are exact.\<close>

theorem v3da_answered_once:
  assumes "ev_run port es v3da_srv0 = (s', r)" "list_all ev_port_ok es" "length es < 2 ^ 32"
  shows "mset (map (\<lambda>(p, i, r). (p, i)) r) + mset (map rid_of (waits s')) = mset (concat (map ev_rids es)) \<and>
    v_nparked s' = of_nat (length (waits s')) \<and>
    (\<forall>i<60. c_nparked (v_clients s' i) =
      of_nat (length (filter (\<lambda>w. w_client w = of_nat i + 1) (waits s'))))"
proof -
  have "waits v3da_srv0 = []" by (simp add: v3da_srv0_def)
  with ev_run_once [OF srv0_ok _ assms(2,1)] assms(3)
  have "srv_ok s'" and
    m: "mset (map (\<lambda>(p, i, r). (p, i)) r) + mset (map rid_of (waits s')) = mset (concat (map ev_rids es))"
    by simp_all
  then have c: "counts_ok (mset (waits s')) s'" by (simp add: srv_ok_def)
  have "size {#w \<in># mset ws. P w#} = length (filter P ws)" for P :: "v3da_wait \<Rightarrow> bool" and ws
    by (metis mset_filter size_mset)
  then show ?thesis using c m by (simp add: counts_ok_def)
qed

text \<open>A client waits for a buffer a job still uses and asks about one that is not there; the job completes
  and the event thread scans: two requests, two answers.\<close>

definition sample_fence :: v3da_fence where
  "sample_fence = \<lparr>vf_slot = 0, vf_queue = 1, vf_gen = 1, vf_seqno = 1\<rparr>"

definition sample_events :: "v3da_event list" where
  "sample_events = [EvOpen 7, EvReq True 1000 5 11 1 (BO_WAIT (Some [sample_fence]) 50),
     EvReq True 1000 5 12 1 (BO_WAIT None 50), EvComplete sample_fence 1 False, EvScan 2000]"

theorem v3da_answered_once_witness:
  "map (\<lambda>(p, i, r). (p, i)) (snd (ev_run 5 sample_events v3da_srv0)) = [(5, 12), (5, 11)] \<and>
   mset (map (\<lambda>(p, i, r). (p, i)) (snd (ev_run 5 sample_events v3da_srv0))) +
     mset (map rid_of (waits (fst (ev_run 5 sample_events v3da_srv0)))) =
   mset (concat (map ev_rids sample_events))"
proof
  show "map (\<lambda>(p, i, r). (p, i)) (snd (ev_run 5 sample_events v3da_srv0)) = [(5, 12), (5, 11)]"
    by code_simp
  have "list_all ev_port_ok sample_events" "length sample_events < 2 ^ 32"
    by (simp_all add: sample_events_def)
  from v3da_answered_once [OF _ this, of 5 "fst (ev_run 5 sample_events v3da_srv0)"
      "snd (ev_run 5 sample_events v3da_srv0)"]
  show "mset (map (\<lambda>(p, i, r). (p, i)) (snd (ev_run 5 sample_events v3da_srv0))) +
     mset (map rid_of (waits (fst (ev_run 5 sample_events v3da_srv0)))) =
   mset (concat (map ev_rids sample_events))" by simp
qed

subsection \<open>Deadlines\<close>

definition wait_left :: "u64 \<Rightarrow> v3da_wait \<Rightarrow> u64" where
  "wait_left now w = (if now < w_deadline w then w_deadline w - now else 1)"

lemma fold_min:
  fixes t :: u64
  shows "fold (\<lambda>w t. let d = wait_left now w in if d < t then d else t) ws t \<le> t"
    "w \<in> set ws \<Longrightarrow> fold (\<lambda>w t. let d = wait_left now w in if d < t then d else t) ws t \<le> wait_left now w"
proof -
  have m: "(\<lambda>w t. let d = wait_left now w in if d < t then d else t) = (\<lambda>w. min (wait_left now w))"
    by (auto simp: fun_eq_iff min_def Let_def)
  have le: "fold (\<lambda>w. min (wait_left now w)) ws t \<le> t" for ws and t :: u64
  proof (induction ws arbitrary: t)
    case (Cons x ws)
    show ?case using order_trans [OF Cons.IH [of "min (wait_left now x) t"] min.cobounded2] by simp
  qed simp
  then show "fold (\<lambda>w t. let d = wait_left now w in if d < t then d else t) ws t \<le> t" by (simp add: m)
  have "w \<in> set ws \<Longrightarrow> fold (\<lambda>w. min (wait_left now w)) ws t \<le> wait_left now w"
  proof (induction ws arbitrary: t)
    case (Cons x ws)
    show ?case
      using Cons order_trans [OF le [of ws "min (wait_left now x) t"] min.cobounded1] by auto
  qed simp
  then show "w \<in> set ws \<Longrightarrow>
      fold (\<lambda>w t. let d = wait_left now w in if d < t then d else t) ws t \<le> wait_left now w"
    by (simp add: m)
qed

lemma wait_left_pos: "0 < wait_left now w"
  by (auto simp: wait_left_def word_neq_0_conv [symmetric])

lemma next_timeout_bounds:
  fixes s :: v3da_srv and now jd :: u64 and flips poll :: u32 and irq_on busy :: bool
  defines "t \<equiv> next_timeout_us s now jd flips irq_on busy poll"
  shows "1 \<le> t" "unat t \<le> 100000" "w \<in> set (waits s) \<Longrightarrow> unat t \<le> unat (wait_left now w)"
proof -
  define t0 where "t0 = (if jd < IDLE_TIMEOUT_US then jd else IDLE_TIMEOUT_US)"
  define t1 where "t1 = fold (\<lambda>w t. let d = wait_left now w in if d < t then d else t) (waits s) t0"
  define t2 where "t2 = (if flips \<noteq> 0 \<and> 1000 < t1 then 1000 else t1)"
  define t3 where "t3 = (if irq_on then (if IRQ_BACKSTOP_US < t2 then IRQ_BACKSTOP_US else t2)
                else if busy \<and> ucast poll < t2 then ucast poll else t2)"
  have t: "t = (if t3 = 0 then 1 else ucast t3)"
    unfolding t_def next_timeout_us_def t3_def t2_def t1_def t0_def wait_left_def Let_def by (rule refl)
  have 0: "t0 \<le> IDLE_TIMEOUT_US" by (simp add: t0_def order_less_imp_le)
  have 32: "t3 \<le> t2" "t2 \<le> t1" by (simp_all add: t3_def t2_def order_less_imp_le)
  have 1: "t1 \<le> t0" unfolding t1_def by (rule fold_min(1))
  have "t3 \<le> 100000" using 32 1 0 by (simp add: IDLE_TIMEOUT_US_def)
  then have u3: "unat t3 \<le> 100000" by (simp add: word_le_nat_alt)
  then have u: "unat (ucast t3 :: u32) = unat t3" by (simp add: unsigned_ucast_eq take_bit_nat_eq_self)
  show "unat t \<le> 100000" using u u3 t by simp
  have "0 < unat t3" if "t3 \<noteq> 0" using that by (simp add: unat_gt_0)
  then show "1 \<le> t" using t u by (auto simp: word_le_nat_alt)
  assume w: "w \<in> set (waits s)"
  have "t3 \<le> wait_left now w" using 32 fold_min(2) [OF w, of now t0] by (simp add: t1_def)
  then have "unat t3 \<le> unat (wait_left now w)" by (simp add: word_le_nat_alt)
  moreover have "1 \<le> unat (wait_left now w)" using wait_left_pos [of now w] by (simp add: word_less_nat_alt)
  ultimately show "unat t \<le> unat (wait_left now w)" using t u by simp
qed

text \<open>C36. After the event thread's scan a request is still parked only when it is neither satisfied nor
  failed and its deadline is ahead; every request taken off the list was answered with its verdict, or
  with a timeout once its deadline had passed; and the thread then sleeps at least a microsecond and
  never past the earliest deadline or the heartbeat.\<close>

theorem v3da_scan_deadlines:
  assumes "waits_scan s now = (s', answer)"
  shows "(\<forall>w\<in>set (waits s'). w \<in> set (waits s) \<and> wait_eval s' w = NotYet \<and> now < w_deadline w \<and>
       unat (next_timeout_us s' now jd flips irq_on busy poll) \<le> unat (w_deadline w - now)) \<and>
    list_all2 (\<lambda>a w. w_rid a = w_rid w \<and>
        rs_err (w_resp a) = (case wait_eval s w of Satisfied r \<Rightarrow> None | Failed e \<Rightarrow> Some e | NotYet \<Rightarrow> Some ETIMEDOUT) \<and>
        (wait_eval s w = NotYet \<longrightarrow> w_deadline w \<le> now))
      (rev answer) (filter (\<lambda>w. w \<notin> set (waits s')) (waits s)) \<and>
    1 \<le> next_timeout_us s' now jd flips irq_on busy poll \<and>
    unat (next_timeout_us s' now jd flips irq_on busy poll) \<le> 100000"
proof -
  have s': "waits s' = filter (stays s now) (waits s)"
    and a: "rev answer = map (scan_answer s) (filter (\<lambda>w. \<not> stays s now w) (waits s))"
    using waits_scan_eq [of s now] assms by simp_all
  have e: "wait_eval s' w = wait_eval s w" for w
    by (rule wait_eval_cong) (use waits_scan_eq(1) [of s now] assms scan_list_core [of s now "waits s" "[]"]
        in \<open>simp_all add: same_core_def\<close>)
  have st: "wait_eval s w = NotYet \<and> now < w_deadline w" if "stays s now w" for w
    using that by (simp add: stays_def split: wait_verdict.splits)
  have "filter (\<lambda>w. w \<notin> set (waits s')) (waits s) = filter (\<lambda>w. \<not> stays s now w) (waits s)"
    by (rule filter_cong) (simp_all add: s')
  moreover have "w_rid (scan_answer s w) = w_rid w \<and>
      rs_err (w_resp (scan_answer s w)) =
        (case wait_eval s w of Satisfied r \<Rightarrow> None | Failed e \<Rightarrow> Some e | NotYet \<Rightarrow> Some ETIMEDOUT) \<and>
      (wait_eval s w = NotYet \<longrightarrow> w_deadline w \<le> now)" if "\<not> stays s now w" for w
    using that by (auto simp: stays_def scan_answer_def split: wait_verdict.splits)
  ultimately have all: "list_all2 (\<lambda>a w. w_rid a = w_rid w \<and>
        rs_err (w_resp a) = (case wait_eval s w of Satisfied r \<Rightarrow> None | Failed e \<Rightarrow> Some e | NotYet \<Rightarrow> Some ETIMEDOUT) \<and>
        (wait_eval s w = NotYet \<longrightarrow> w_deadline w \<le> now))
      (rev answer) (filter (\<lambda>w. w \<notin> set (waits s')) (waits s))"
    unfolding a list_all2_map1 by (simp only:) (rule list.rel_refl_strong, simp)
  have "unat (next_timeout_us s' now jd flips irq_on busy poll) \<le> unat (w_deadline w - now)"
    if "w \<in> set (waits s')" for w
    using next_timeout_bounds(3) [OF that, of now jd flips irq_on busy poll] st s' that
    by (simp add: wait_left_def)
  then show ?thesis
    using all next_timeout_bounds(1,2) [of s' now jd flips irq_on busy poll] s' e st by simp
qed

theorem v3da_scan_deadlines_witness:
  "let s = fst (ev_run 5 (take 2 sample_events) v3da_srv0); (s', answer) = waits_scan s 2000
   in length (waits s') = 1 \<and> answer = [] \<and>
     (\<forall>w\<in>set (waits s'). 2000 < w_deadline w \<and>
        unat (next_timeout_us s' 2000 100000 0 False False 200) \<le> unat (w_deadline w - 2000))"
proof -
  define s where "s = fst (ev_run 5 (take 2 sample_events) v3da_srv0)"
  obtain s' answer where sc: "waits_scan s 2000 = (s', answer)" by fastforce
  have "length (waits (fst (waits_scan s 2000))) = 1" "map w_rid (snd (waits_scan s 2000)) = []"
    unfolding s_def by code_simp+
  then have "length (waits s') = 1" "answer = []" using sc by simp_all
  then show ?thesis
    using v3da_scan_deadlines [OF sc, of 100000 0 False False 200] sc by (simp add: s_def [symmetric])
qed

subsection \<open>A signalled fence stays signalled\<close>

text \<open>A completion is in order when it does not move its queue's completed count back.\<close>

fun in_order :: "v3da_srv \<Rightarrow> v3da_event \<Rightarrow> bool" where
  "in_order s (EvComplete f q e) \<longleftrightarrow> s_completed (v_slot s (fslot f)) q \<le> vf_seqno f"
| "in_order s _ \<longleftrightarrow> True"

fun run_in_order :: "u32 \<Rightarrow> v3da_event list \<Rightarrow> v3da_srv \<Rightarrow> bool" where
  "run_in_order port [] s \<longleftrightarrow> True"
| "run_in_order port (e # es) s \<longleftrightarrow> in_order s e \<and> run_in_order port es (fst (ev_step port e s))"

text \<open>The fence names a generation its slot has had.\<close>

definition issued :: "v3da_srv \<Rightarrow> v3da_fence \<Rightarrow> bool" where
  "issued s f \<longleftrightarrow> unat (vf_gen f) \<le> unat (slot_gen s (fslot f))"

definition gens_ok :: "nat \<Rightarrow> v3da_srv \<Rightarrow> bool" where
  "gens_ok n s \<longleftrightarrow> (\<forall>i. s_gen (v_slot s i) = slot_gen s i \<and> unat (slot_gen s i) + n < 2 ^ 32)"

definition same_page :: "v3da_srv \<Rightarrow> v3da_srv \<Rightarrow> bool" where
  "same_page s s' \<longleftrightarrow> v_slot s' = v_slot s \<and> slot_gen s' = slot_gen s"

lemma park_page: "same_page s (fst (v3da_wait_park c now s ci kind op rid fs hs n all fsub t))"
proof -
  obtain s' res where r: "v3da_wait_park c now s ci kind op rid fs hs n all fsub t = (s', res)" by fastforce
  then show ?thesis
    by (cases rule: park_cases) (simp_all add: same_page_def v3da_kick_event_thread_def r)
qed

lemma sync_pages:
  "same_page s (fst (v3da_syncobj_create s ci fl))"
  "same_page s (fst (v3da_syncobj_destroy s ci h))"
  "same_page s (fst (v3da_syncobj_reset s ci h))"
  "same_page s (fst (v3da_syncobj_signal s ci h))"
  "same_page s (fst (v3da_syncobj_import s ci h f))"
  "same_page s (fst (client_hello s oid p))"
  by (simp_all add: same_page_def v3da_syncobj_create_def v3da_syncobj_destroy_def v3da_syncobj_reset_def
      v3da_syncobj_signal_def v3da_syncobj_import_def client_hello_def set_sync_def
      v3da_kick_event_thread_def Let_def split: option.splits)

lemma handle_raw_page: "same_page s (fst (handle_raw c now s oid rid req))"
proof (cases "client_get s oid")
  case None
  then show ?thesis by (simp add: handle_raw_def respond_err_def same_page_def)
next
  case (Some ci)
  have err: "same_page s (fst (respond_err op x)) = same_page s (fst x)" for op x
    by (simp add: respond_err_def)
  have park: "same_page s (fst (respond_park op x)) = same_page s (fst x)" for op x
    by (simp add: respond_park_def split: park_result.splits)
  have refl: "same_page s s" by (simp add: same_page_def)
  show ?thesis
  proof (cases req)
    case (BO_WAIT lasts t)
    then show ?thesis using Some by (cases lasts) (simp_all add: handle_raw_def err park park_page refl)
  next
    case (SYNCOBJ_CREATE fl)
    then show ?thesis using Some sync_pages(1) [of s ci fl]
      by (auto simp: handle_raw_def err split: prod.splits sum.splits)
  next
    case (SYNCOBJ_QUERY h)
    then show ?thesis using Some by (auto simp: handle_raw_def err refl split: sum.splits)
  qed (use Some in \<open>simp_all add: handle_raw_def err park park_page refl sync_pages\<close>)
qed

lemma core_page: "same_core s s' \<Longrightarrow> same_page s (s'\<lparr>waits := ws\<rparr>)"
  by (simp add: same_core_def same_page_def)

lemma close_page: "same_page s (fst (close_waits s oid))"
  using core_page [OF gone_list_core, of s]
  by (simp add: close_waits_def same_page_def client_gone_eq case_prod_unfold Let_def split: option.splits)

lemma step_page:
  assumes "\<forall>pid. e \<noteq> EvOpen pid" "\<forall>f q err. e \<noteq> EvComplete f q err"
  shows "same_page s (fst (ev_step port e s))"
proof (cases e)
  case (EvReq c now rx rid oid req)
  have "same_page (s\<lparr>rx_port := rx\<rparr>) (fst (handle_raw c now (s\<lparr>rx_port := rx\<rparr>) oid rid req))"
    by (rule handle_raw_page)
  then show ?thesis using EvReq by (auto simp: same_page_def split: prod.splits option.splits)
next
  case (EvHello oid proto)
  then show ?thesis by (simp add: sync_pages)
next
  case (EvClose oid)
  then show ?thesis using close_page by (simp add: case_prod_unfold Let_def)
next
  case (EvScan now)
  then show ?thesis using core_page [OF scan_list_core, of s]
    by (simp add: case_prod_unfold Let_def waits_scan_eq same_page_def)
next
  case EvQuit
  then show ?thesis using core_page [OF all_list_core, of s]
    by (simp add: case_prod_unfold Let_def waits_all_eq same_page_def)
qed (use assms in \<open>simp_all add: same_page_def\<close>)

lemma page_signaled: "same_page s s' \<Longrightarrow> v3da_fence_signaled s' f = v3da_fence_signaled s f"
  by (rule signaled_cong) (simp add: same_page_def)

lemma signaled_iff:
  "fst (v3da_fence_signaled s f) \<longleftrightarrow> 60 \<le> fslot f \<or> 6 \<le> fqueue f \<or> \<not> slot_gen_ok s f \<or>
     vf_seqno f \<le> s_completed (v_slot s (fslot f)) (fqueue f)"
  by (auto simp: v3da_fence_signaled_def Let_def)

lemma complete_signaled:
  assumes "s_completed (v_slot s (fslot g)) q \<le> vf_seqno g" "fst (v3da_fence_signaled s f)"
  shows "fst (v3da_fence_signaled (v3da_fence_complete s g q e) f)"
proof -
  define s' where "s' = v3da_fence_complete s g q e"
  have "s_gen (v_slot s' i) = s_gen (v_slot s i)" for i
    by (simp add: s'_def v3da_fence_complete_def Let_def)
  then have g: "slot_gen_ok s' f = slot_gen_ok s f" by (simp add: slot_gen_ok_def)
  have le: "s_completed (v_slot s i) r \<le> s_completed (v_slot s' i) r" for i r
    using assms(1) by (auto simp: s'_def v3da_fence_complete_def Let_def)
  show ?thesis
    unfolding s'_def [symmetric] using assms(2) order_trans [OF _ le] by (auto simp: signaled_iff g)
qed

lemma assign_signaled:
  assumes "gens_ok (Suc n) s" "issued s f" "fst (v3da_fence_signaled s f)"
  shows "fst (v3da_fence_signaled (v3da_slot_assign s i) f)"
proof (cases "fslot f = i")
  case False
  then have "v_slot (v3da_slot_assign s i) (fslot f) = v_slot s (fslot f)"
    by (simp add: v3da_slot_assign_def Let_def)
  then show ?thesis using assms(3) by (simp add: signaled_iff slot_gen_ok_def)
next
  case True
  have lt: "unat (slot_gen s i) + 1 < 2 ^ 32" 
    using assms(1) unfolding gens_ok_def by (elim allE [of _ i]) simp
  have "unat (slot_gen s i + 1) = unat (slot_gen s i) + 1"
    using lt by (simp add: unat_word_ariths)
  then have "unat (ucast (slot_gen s i + 1) :: u32) = unat (slot_gen s i) + 1"
    using lt by (simp add: unsigned_ucast_eq take_bit_nat_eq_self)
  then have "(ucast (slot_gen s i + 1) :: u32) \<noteq> vf_gen f"
    using assms(2) True by (auto simp: issued_def)
  then have "\<not> slot_gen_ok (v3da_slot_assign s i) f"
    using True by (simp add: slot_gen_ok_def v3da_slot_assign_def Let_def)
  then show ?thesis by (simp add: signaled_iff)
qed

lemma gens_less: "gens_ok (Suc n) s \<Longrightarrow> gens_ok n s"
  unfolding gens_ok_def by (intro allI, elim allE) auto

lemma assign_gens:
  assumes "gens_ok (Suc n) s"
  shows "gens_ok n (v3da_slot_assign s i)" "issued s f \<Longrightarrow> issued (v3da_slot_assign s i) f"
proof -
  have "unat (slot_gen s i) + Suc n < 2 ^ 32" using assms by (simp add: gens_ok_def)
  then have "unat (slot_gen s i + 1) = unat (slot_gen s i) + 1"
    by (simp add: unat_word_ariths)
  then show "gens_ok n (v3da_slot_assign s i)" "issued s f \<Longrightarrow> issued (v3da_slot_assign s i) f"
    using assms gens_less [OF assms] by (auto simp: gens_ok_def issued_def v3da_slot_assign_def Let_def)
qed

lemma open_page:
  obtains "fst (client_open s pid) = s"
  | t i where "same_page s t" "same_page (v3da_slot_assign t i) (fst (client_open s pid))"
proof (cases "List.find (\<lambda>i. \<not> c_used (v_clients s i) \<and> \<not> v3da_slot_busy s i) [0..<V3DA_MAX_CLIENTS]")
  case None
  then show thesis using that(1) by (simp add: client_open_def)
next
  case (Some i)
  show thesis
    by (rule that(2) [of "s\<lparr>v_clients := (v_clients s)(i := new_client i pid)\<rparr>" i])
      (use Some in \<open>simp_all add: client_open_def Let_def same_page_def\<close>)
qed

lemma page_gens:
  assumes "same_page s s'"
  shows "gens_ok n s \<Longrightarrow> gens_ok n s'" "issued s f \<Longrightarrow> issued s' f"
  using assms by (simp_all add: same_page_def gens_ok_def issued_def)

lemma step_signaled:
  assumes "gens_ok (Suc n) s" "in_order s e"
  shows "gens_ok n (fst (ev_step port e s))"
    "issued s f \<Longrightarrow> issued (fst (ev_step port e s)) f"
    "issued s f \<Longrightarrow> fst (v3da_fence_signaled s f) \<Longrightarrow> fst (v3da_fence_signaled (fst (ev_step port e s)) f)"
proof -
  let ?s = "fst (ev_step port e s)"
  have "gens_ok n ?s \<and> (issued s f \<longrightarrow> issued ?s f \<and>
    (fst (v3da_fence_signaled s f) \<longrightarrow> fst (v3da_fence_signaled ?s f)))"
  proof (cases e)
    case (EvOpen pid)
    show ?thesis
    proof (cases rule: open_page [of s pid])
      case 1
      then show ?thesis using EvOpen assms gens_less by simp
    next
      case (2 t i)
      note t = page_gens [OF 2(1)] and u = page_gens [OF 2(2)]
      have g: "gens_ok (Suc n) t" using t(1) assms(1) by blast
      show ?thesis
        using EvOpen u assign_gens [OF g] t(2) assign_signaled [OF g] page_signaled [OF 2(1)] page_signaled [OF 2(2)]
        by auto
    qed
  next
    case (EvComplete g q err)
    have "slot_gen ?s = slot_gen s" "s_gen (v_slot ?s i) = s_gen (v_slot s i)" for i
      using EvComplete by (simp_all add: v3da_fence_complete_def Let_def)
    then show ?thesis
      using EvComplete assms complete_signaled [of s g q f err] gens_less [OF assms(1)]
      by (simp add: gens_ok_def issued_def)
  qed (use step_page [of e s port] page_gens [of s ?s] page_signaled [of s ?s f] gens_less [OF assms(1)] in auto)
  then show "gens_ok n ?s" "issued s f \<Longrightarrow> issued ?s f"
    "issued s f \<Longrightarrow> fst (v3da_fence_signaled s f) \<Longrightarrow> fst (v3da_fence_signaled ?s f)" by blast+
qed

lemma run_signaled:
  assumes "gens_ok (n + length es) s" "run_in_order port es s"
  shows "gens_ok n (fst (ev_run port es s))"
    "issued s f \<Longrightarrow> fst (v3da_fence_signaled s f) \<Longrightarrow> fst (v3da_fence_signaled (fst (ev_run port es s)) f)"
proof -
  have "gens_ok n (fst (ev_run port es s)) \<and> (issued s f \<longrightarrow> fst (v3da_fence_signaled s f) \<longrightarrow>
    fst (v3da_fence_signaled (fst (ev_run port es s)) f))"
    using assms
  proof (induction es arbitrary: s)
    case (Cons e es)
    have "gens_ok (Suc (n + length es)) s" "in_order s e" using Cons.prems by simp_all
    note st = step_signaled [OF this]
    show ?case using Cons.IH [OF st(1)] Cons.prems st(2,3) by (simp add: case_prod_unfold Let_def)
  qed simp
  then show "gens_ok n (fst (ev_run port es s))"
    "issued s f \<Longrightarrow> fst (v3da_fence_signaled s f) \<Longrightarrow> fst (v3da_fence_signaled (fst (ev_run port es s)) f)" by blast+
qed

lemma run_append: "ev_run port (xs @ ys) s =
  (let (s1, r1) = ev_run port xs s; (s2, r2) = ev_run port ys s1 in (s2, r1 @ r2))"
  by (induction xs arbitrary: s) (simp_all add: case_prod_unfold Let_def)



end
