(* ===== verification/V3da_Pool.thy ===== *)
theory V3da_Pool
  imports Dev_Prelude "HOL-Library.Multiset"
begin

text \<open>
  The memory blocks of the GPU render server: the placement policy of \<open>v3da_lowmem.h\<close>, the pool bound of
  \<open>v3da_pool.h\<close>, and \<open>block_get\<close>, \<open>block_put\<close> and the trimming of \<open>v3da_bo.c\<close> on top of them. A block is
  named by its mapping address. The pool array up to its count is a list; removing entry \<open>i\<close> moves the
  last entry into its place. What \<open>mmap\<close> and \<open>va2pa\<close> answer is an argument, and the blocks given back
  to the kernel are part of the result.
\<close>

subsection \<open>Footprint and placement\<close>

definition V3DA_LOWMEM_LIMIT :: u64 where "V3DA_LOWMEM_LIMIT = 0x40000000"
definition V3DA_LOWMEM_TRIES :: nat where "V3DA_LOWMEM_TRIES = 16"
definition PAGE_SIZE :: u32 where "PAGE_SIZE = 4096"

record v3da_pool_block =
  pb_cpu :: nat
  pb_pa :: u64
  pb_pages :: u32
  pb_cached :: u32
  pb_freed_us :: u64

text \<open>The doubling loop may run for ever (a page size of zero, a wrapped \<open>b\<close>): not ending is \<open>None\<close>.\<close>

partial_function (option) footprint_loop :: "u64 \<Rightarrow> u64 \<Rightarrow> u64 option" where
  "footprint_loop want b = (if b < want then footprint_loop want (push_bit 1 b) else Some b)"

declare footprint_loop.simps [code]

definition v3da_lowmem_footprint :: "u32 \<Rightarrow> u32 \<Rightarrow> u64 option" where
  "v3da_lowmem_footprint pages page_size =
     footprint_loop (ucast pages * ucast page_size) (ucast page_size)"

definition v3da_lowmem_admit :: "u64 \<Rightarrow> u64 \<Rightarrow> u64 \<Rightarrow> bool" where
  "v3da_lowmem_admit live foot budget \<longleftrightarrow> foot \<le> budget \<and> live \<le> budget - foot"

definition v3da_lowmem_is_low :: "u64 \<Rightarrow> u64 \<Rightarrow> bool" where
  "v3da_lowmem_is_low pa bytes \<longleftrightarrow> bytes \<noteq> 0 \<and> pa \<le> pa + bytes \<and> pa + bytes \<le> V3DA_LOWMEM_LIMIT"

text \<open>The walk of \<open>v3da_pool_pick\<close> from entry \<open>i\<close> on; \<open>any\<close> is the first low block of the right kind.\<close>

fun pick_loop :: "v3da_pool_block list \<Rightarrow> nat \<Rightarrow> u32 \<Rightarrow> u32 \<Rightarrow> bool \<Rightarrow> u32 \<Rightarrow> nat option \<Rightarrow> nat option" where
  "pick_loop [] i pages cached want_low page_size any = (if want_low then None else any)"
| "pick_loop (b # bs) i pages cached want_low page_size any =
     (if pb_pages b \<noteq> pages \<or> pb_cached b \<noteq> cached
      then pick_loop bs (i + 1) pages cached want_low page_size any
      else let low = v3da_lowmem_is_low (pb_pa b) (ucast pages * ucast page_size)
           in if want_low
              then (if low then Some i else pick_loop bs (i + 1) pages cached want_low page_size any)
              else if \<not> low then Some i
              else pick_loop bs (i + 1) pages cached want_low page_size
                     (if any = None then Some i else any))"

definition v3da_pool_pick :: "v3da_pool_block list \<Rightarrow> u32 \<Rightarrow> u32 \<Rightarrow> bool \<Rightarrow> u32 \<Rightarrow> nat option" where
  "v3da_pool_pick pool pages cached want_low page_size = pick_loop pool 0 pages cached want_low page_size None"

text \<open>A fresh block: its mapping and the physical addresses of its first and last page.\<close>

type_synonym fresh_block = "nat \<times> u64 \<times> u64"

record v3da_lowmem_result =
  lr_tries :: u32
  lr_rejected :: u32
  lr_low :: bool

text \<open>The tries: the blocks held in order with whether each is contiguous, the index to keep and whether
  it is low. \<open>answers\<close> are the allocator's answers from here on; when they run out it has nothing more.\<close>

fun lowmem_tries :: "u64 \<Rightarrow> u32 \<Rightarrow> nat \<Rightarrow> fresh_block list \<Rightarrow> fresh_block list \<Rightarrow> nat option \<Rightarrow>
    fresh_block list \<times> nat option \<times> bool"
where
  "lowmem_tries bytes page_size 0 answers held keep = (held, keep, False)"
| "lowmem_tries bytes page_size (Suc k) [] held keep = (held, keep, False)"
| "lowmem_tries bytes page_size (Suc k) ((cpu, first, lst) # answers) held keep =
     (let held' = held @ [(cpu, first, lst)]
      in if first \<noteq> - 1 \<and> lst = first + bytes - ucast page_size
         then if v3da_lowmem_is_low first bytes then (held', Some (length held), True)
              else lowmem_tries bytes page_size k answers held' (Some (length held))
         else lowmem_tries bytes page_size k answers held' keep)"

definition v3da_lowmem_map ::
  "u64 \<Rightarrow> nat \<Rightarrow> u32 \<Rightarrow> fresh_block list \<Rightarrow> (nat \<times> u64) option \<times> fresh_block list \<times> v3da_lowmem_result"
where
  "v3da_lowmem_map bytes tries page_size answers =
     (if bytes = 0 \<or> page_size = 0 \<or> bytes mod ucast page_size \<noteq> 0
      then (None, [], \<lparr>lr_tries = 0, lr_rejected = 0, lr_low = False\<rparr>)
      else let (held, keep, low) =
                 lowmem_tries bytes page_size (min tries V3DA_LOWMEM_TRIES) answers [] None;
               unmapped = map (\<lambda>i. held ! i) (filter (\<lambda>i. keep \<noteq> Some i) [0..<length held]);
               res = \<lparr>lr_tries = of_nat (length held), lr_rejected = of_nat (length unmapped), lr_low = low\<rparr>
           in (map_option (\<lambda>i. (fst (held ! i), fst (snd (held ! i)))) keep, unmapped, res))"

subsection \<open>Bounding the pool\<close>

record v3da_pool_freed =
  fr_bytes :: u64
  fr_blocks :: u32
  fr_idle :: u32
  fr_cap :: u32

definition v3da_pool_block_bytes :: "v3da_pool_block \<Rightarrow> u32 \<Rightarrow> u64 option" where
  "v3da_pool_block_bytes b page_size = v3da_lowmem_footprint (pb_pages b) page_size"

definition block_low :: "v3da_pool_block \<Rightarrow> u32 \<Rightarrow> bool" where
  "block_low b page_size = v3da_lowmem_is_low (pb_pa b) (ucast (pb_pages b) * ucast page_size)"

fun victim_loop :: "v3da_pool_block list \<Rightarrow> nat \<Rightarrow> u32 \<Rightarrow> (nat \<times> v3da_pool_block) option \<Rightarrow> nat option" where
  "victim_loop [] i page_size best = map_option fst best"
| "victim_loop (b # bs) i page_size best =
     (let better = (case best of
            None \<Rightarrow> True
          | Some (_, x) \<Rightarrow>
              \<not> block_low b page_size \<and> block_low x page_size \<or>
              block_low b page_size = block_low x page_size \<and> pb_freed_us b < pb_freed_us x)
      in victim_loop bs (i + 1) page_size (if better then Some (i, b) else best))"

definition v3da_pool_victim :: "v3da_pool_block list \<Rightarrow> u32 \<Rightarrow> nat option" where
  "v3da_pool_victim pool page_size = victim_loop pool 0 page_size None"

text \<open>Entry \<open>i\<close> of the array is overwritten by the last one, and the count goes down.\<close>

definition swap_out :: "'a list \<Rightarrow> nat \<Rightarrow> 'a list" where
  "swap_out xs i = butlast (xs[i := last xs])"

record pool_state =
  ps_pool :: "v3da_pool_block list"
  ps_bytes :: u64
  ps_freed :: v3da_pool_freed
  ps_released :: "v3da_pool_block list"

definition v3da_pool_remove :: "u32 \<Rightarrow> nat \<Rightarrow> pool_state \<Rightarrow> pool_state option" where
  "v3da_pool_remove page_size i s =
     (if i < length (ps_pool s) then
        (case v3da_pool_block_bytes (ps_pool s ! i) page_size of
           None \<Rightarrow> None
         | Some foot \<Rightarrow>
             Some (s\<lparr>ps_released := ps_released s @ [ps_pool s ! i],
                     ps_bytes := (if foot \<le> ps_bytes s then ps_bytes s - foot else 0),
                     ps_freed := (ps_freed s)\<lparr>fr_bytes := fr_bytes (ps_freed s) + foot,
                                              fr_blocks := fr_blocks (ps_freed s) + 1\<rparr>,
                     ps_pool := swap_out (ps_pool s) i\<rparr>))
      else None)"

definition is_idle :: "u64 \<Rightarrow> u64 \<Rightarrow> v3da_pool_block \<Rightarrow> bool" where
  "is_idle now idle_us b \<longleftrightarrow> pb_freed_us b \<le> now \<and> idle_us \<le> now - pb_freed_us b"

lemma remove_shorter:
  "v3da_pool_remove ps i s = Some s' \<Longrightarrow> length (ps_pool s') = length (ps_pool s) - 1 \<and> i < length (ps_pool s)"
  by (auto simp: v3da_pool_remove_def swap_out_def split: if_splits option.splits)

function idle_loop :: "u64 \<Rightarrow> u64 \<Rightarrow> u32 \<Rightarrow> nat \<Rightarrow> pool_state \<Rightarrow> pool_state option" where
  "idle_loop now idle_us page_size i s =
     (if i < length (ps_pool s) then
        if is_idle now idle_us (ps_pool s ! i) then
          (case v3da_pool_remove page_size i s of
             None \<Rightarrow> None
           | Some s' \<Rightarrow>
               idle_loop now idle_us page_size i
                 (s'\<lparr>ps_freed := (ps_freed s')\<lparr>fr_idle := fr_idle (ps_freed s') + 1\<rparr>\<rparr>))
        else idle_loop now idle_us page_size (i + 1) s
      else Some s)"
  by pat_completeness auto
termination
  by (relation "measure (\<lambda>(_, _, _, i, s). length (ps_pool s) - i)") (auto dest!: remove_shorter)

function cap_loop :: "u64 \<Rightarrow> u32 \<Rightarrow> pool_state \<Rightarrow> pool_state option" where
  "cap_loop cap page_size s =
     (if cap < ps_bytes s then
        (case v3da_pool_victim (ps_pool s) page_size of
           None \<Rightarrow> Some s
         | Some v \<Rightarrow>
             (case v3da_pool_remove page_size v s of
                None \<Rightarrow> None
              | Some s' \<Rightarrow> cap_loop cap page_size s'))
      else Some s)"
  by pat_completeness auto
termination
  by (relation "measure (\<lambda>(_, _, s). length (ps_pool s))") (auto dest!: remove_shorter)

declare idle_loop.simps [simp del] cap_loop.simps [simp del]

definition v3da_pool_trim ::
  "v3da_pool_block list \<Rightarrow> u64 \<Rightarrow> u64 \<Rightarrow> u64 \<Rightarrow> u64 \<Rightarrow> u32 \<Rightarrow> pool_state option"
where
  "v3da_pool_trim pool bytes cap now_us idle_us page_size =
     (let s0 = \<lparr>ps_pool = pool, ps_bytes = bytes,
                ps_freed = \<lparr>fr_bytes = 0, fr_blocks = 0, fr_idle = 0, fr_cap = 0\<rparr>, ps_released = []\<rparr>
      in case (if idle_us \<noteq> 0 then idle_loop now_us idle_us page_size 0 s0 else Some s0) of
           None \<Rightarrow> None
         | Some s1 \<Rightarrow>
             (case cap_loop cap page_size s1 of
                None \<Rightarrow> None
              | Some s2 \<Rightarrow>
                  Some (s2\<lparr>ps_freed := (ps_freed s2)\<lparr>fr_cap := fr_blocks (ps_freed s2) - fr_blocks (ps_freed s1)\<rparr>\<rparr>)))"

subsection \<open>The server's blocks\<close>

definition V3DA_MAX_POOL :: nat where "V3DA_MAX_POOL = 1024"
definition POOL_SCAN_US :: u64 where "POOL_SCAN_US = 1000000"
definition POOL_NOTE_US :: u64 where "POOL_NOTE_US = 1000000"

text \<open>\<open>kernel_gave\<close> and \<open>kernel_got\<close> record the blocks \<open>mmap\<close> returned and those \<open>munmap\<close> took, in order.\<close>

record pool_srv =
  pv_pool :: "v3da_pool_block list"
  pool_bytes :: u64
  pool_peak :: u64
  pool_cap :: u64
  pool_idle_us :: u64
  pool_scan_us :: u64
  pool_trimmed :: u64
  pool_trims :: u32
  pool_note_bytes :: u64
  pool_note_blocks :: u32
  pool_note_idle :: u32
  pool_note_cap :: u32
  pool_note_us :: u64
  pages_to_kernel :: u32
  low_tries :: u32
  low_rejected :: u32
  kernel_gave :: "nat list"
  kernel_got :: "nat list"

definition pool_note :: "u64 \<Rightarrow> pool_srv \<Rightarrow> pool_srv" where
  "pool_note now s =
     (if pool_note_blocks s = 0 \<or> now < pool_note_us s then s
      else s\<lparr>pool_note_us := now + POOL_NOTE_US, pool_note_bytes := 0, pool_note_blocks := 0,
             pool_note_idle := 0, pool_note_cap := 0\<rparr>)"

definition pool_trim :: "u64 \<Rightarrow> u64 \<Rightarrow> pool_srv \<Rightarrow> pool_srv option" where
  "pool_trim now idle_us s =
     (case v3da_pool_trim (pv_pool s) (pool_bytes s) (pool_cap s) now idle_us PAGE_SIZE of
        None \<Rightarrow> None
      | Some t \<Rightarrow>
          (let f = ps_freed t;
               s1 = s\<lparr>pv_pool := ps_pool t, pool_bytes := ps_bytes t,
                      kernel_got := kernel_got s @ map pb_cpu (ps_released t)\<rparr>
           in Some (if fr_blocks f = 0 then s1
              else pool_note now
                     (s1\<lparr>pool_trimmed := pool_trimmed s1 + fr_bytes f, pool_trims := pool_trims s1 + fr_blocks f,
                         pool_note_bytes := pool_note_bytes s1 + fr_bytes f,
                         pool_note_blocks := pool_note_blocks s1 + fr_blocks f,
                         pool_note_idle := pool_note_idle s1 + fr_idle f,
                         pool_note_cap := pool_note_cap s1 + fr_cap f\<rparr>))))"

definition block_put :: "u64 \<Rightarrow> nat \<Rightarrow> u64 \<Rightarrow> u32 \<Rightarrow> u32 \<Rightarrow> pool_srv \<Rightarrow> pool_srv option" where
  "block_put now cpu pa pages cached s =
     (if length (pv_pool s) < V3DA_MAX_POOL then
        (let b = \<lparr>pb_cpu = cpu, pb_pa = pa, pb_pages = pages, pb_cached = cached, pb_freed_us = now\<rparr>
         in case v3da_pool_block_bytes b PAGE_SIZE of
              None \<Rightarrow> None
            | Some foot \<Rightarrow>
                (let s1 = s\<lparr>pv_pool := pv_pool s @ [b], pool_bytes := pool_bytes s + foot\<rparr>;
                     s2 = (if pool_peak s1 < pool_bytes s1 then s1\<lparr>pool_peak := pool_bytes s1\<rparr> else s1)
                 in if pool_cap s2 < pool_bytes s2 then pool_trim now 0 s2 else Some s2))
      else Some (s\<lparr>pages_to_kernel := pages_to_kernel s + pages, kernel_got := kernel_got s @ [cpu]\<rparr>))"

definition v3da_bo_pool_tick :: "u64 \<Rightarrow> bool \<Rightarrow> pool_srv \<Rightarrow> pool_srv option" where
  "v3da_bo_pool_tick now soon s =
     (case (if soon \<or> pool_scan_us s \<le> now
            then pool_trim now (pool_idle_us s) (s\<lparr>pool_scan_us := now + POOL_SCAN_US\<rparr>) else Some s) of
        None \<Rightarrow> None
      | Some s' \<Rightarrow> Some (pool_note now s'))"

text \<open>A block handed out: its address, whether it lies below the limit and whether it was pooled.\<close>

record placed =
  pl_cpu :: nat
  pl_pa :: u64
  pl_low :: bool
  pl_pooled :: bool

definition block_get ::
  "fresh_block list \<Rightarrow> fresh_block option \<Rightarrow> u32 \<Rightarrow> u32 \<Rightarrow> bool \<Rightarrow> pool_srv \<Rightarrow> (pool_srv \<times> placed option) option"
where
  "block_get answers plain pages cached want_low s =
     (let bytes = ucast pages * ucast PAGE_SIZE;
          ordinary = (\<lambda>s. case plain of
              None \<Rightarrow> Some (s, None)
            | Some (cpu, first, lst) \<Rightarrow>
                Some (s\<lparr>kernel_gave := kernel_gave s @ [cpu]\<rparr>,
                      Some \<lparr>pl_cpu = cpu, pl_pa = first, pl_low = v3da_lowmem_is_low first bytes,
                               pl_pooled = False\<rparr>))
      in case v3da_pool_pick (pv_pool s) pages cached want_low PAGE_SIZE of
           Some i \<Rightarrow>
             (let b = pv_pool s ! i
              in case v3da_pool_block_bytes b PAGE_SIZE of
                   None \<Rightarrow> None
                 | Some foot \<Rightarrow>
                     Some (s\<lparr>pool_bytes := pool_bytes s - foot, pv_pool := swap_out (pv_pool s) i\<rparr>,
                           Some \<lparr>pl_cpu = pb_cpu b, pl_pa = pb_pa b,
                                 pl_low = v3da_lowmem_is_low (pb_pa b) bytes, pl_pooled = True\<rparr>))
         | None \<Rightarrow>
             if want_low then
               (let (kept, unmapped, res) = v3da_lowmem_map bytes V3DA_LOWMEM_TRIES PAGE_SIZE answers;
                    s1 = s\<lparr>low_tries := low_tries s + lr_tries res, low_rejected := low_rejected s + lr_rejected res,
                           kernel_gave := kernel_gave s @ map fst (take (unat (lr_tries res)) answers),
                           kernel_got := kernel_got s @ map fst unmapped\<rparr>
                in case kept of
                     Some (cpu, pa) \<Rightarrow>
                       Some (s1, Some \<lparr>pl_cpu = cpu, pl_pa = pa, pl_low = lr_low res, pl_pooled = False\<rparr>)
                   | None \<Rightarrow> ordinary s1)
             else ordinary s)"

subsection \<open>Footprints\<close>

lemma footprint_loop_terminates:
  assumes "0 < unat b" "unat want \<le> 2 ^ 63"
  shows "\<exists>k. footprint_loop want b = Some (push_bit k b) \<and> unat (push_bit k b) = unat b * 2 ^ k \<and>
    unat want \<le> unat b * 2 ^ k \<and> (0 < k \<longrightarrow> unat b * 2 ^ (k - 1) < unat want)"
  using assms(1)
proof (induction "2 ^ 64 - unat b" arbitrary: b rule: less_induct)
  case less
  show ?case
  proof (cases "b < want")
    case False
    then have "footprint_loop want b = Some b" by (subst footprint_loop.simps) simp
    then show ?thesis using False by (intro exI [of _ 0]) (simp add: word_le_nat_alt not_less)
  next
    case True
    have lt: "unat b < unat want" using True by (simp add: word_less_nat_alt)
    have d: "unat (push_bit 1 b) = 2 * unat b"
      using lt assms(2) by (simp add: unat_word_ariths push_bit_eq_mult)
    have "2 ^ 64 - unat (push_bit 1 b) < 2 ^ 64 - unat b" "0 < unat (push_bit 1 b)"
      unfolding d using lt assms(2) less.prems by auto
    from less.hyps [OF this] obtain k where k: "footprint_loop want (push_bit 1 b) = Some (push_bit k (push_bit 1 b))"
      "unat (push_bit k (push_bit 1 b)) = unat (push_bit 1 b) * 2 ^ k"
      "unat want \<le> unat (push_bit 1 b) * 2 ^ k"
      "0 < k \<longrightarrow> unat (push_bit 1 b) * 2 ^ (k - 1) < unat want" by blast
    have p: "push_bit k (push_bit 1 b) = push_bit (Suc k) b" by (simp add: push_bit_push_bit add.commute)
    show ?thesis
    proof (intro exI [of _ "Suc k"] conjI)
      show "footprint_loop want b = Some (push_bit (Suc k) b)"
        using True k(1) by (subst footprint_loop.simps) (simp add: p [symmetric])
      show "unat (push_bit (Suc k) b) = unat b * 2 ^ Suc k" using k(2) d by (simp add: p)
      show "unat want \<le> unat b * 2 ^ Suc k" using k(3) d by simp
      show "0 < Suc k \<longrightarrow> unat b * 2 ^ (Suc k - 1) < unat want"
        using k(4) d lt by (cases k) simp_all
    qed
  qed
qed

text \<open>The footprint of a pooled block, and of a collection of them.\<close>

definition foot :: "v3da_pool_block \<Rightarrow> u64" where
  "foot b = the (v3da_pool_block_bytes b PAGE_SIZE)"

definition footprint :: "v3da_pool_block multiset \<Rightarrow> nat" where
  "footprint M = (\<Sum>b\<in>#M. unat (foot b))"

lemma foot_spec:
  "v3da_pool_block_bytes b PAGE_SIZE = Some (foot b)"
  "unat (pb_pages b) * 4096 \<le> unat (foot b)" "unat (foot b) \<le> 2 ^ 45"
  "\<exists>k. unat (foot b) = 4096 * 2 ^ k \<and> (0 < k \<longrightarrow> 4096 * 2 ^ (k - 1) < unat (pb_pages b) * 4096)"
proof -
  define want where "want = (ucast (pb_pages b) * ucast PAGE_SIZE :: u64)"
  have pg: "unat (pb_pages b) < 2 ^ 32" using unsigned_less [of "pb_pages b"] by simp
  have "unat (ucast (pb_pages b) :: u64) = unat (pb_pages b)"
    using pg by (simp add: unsigned_ucast_eq take_bit_nat_eq_self)
  then have want: "unat want = unat (pb_pages b) * 4096"
    using pg by (simp add: want_def PAGE_SIZE_def unat_word_ariths)
  have "\<exists>k. footprint_loop want 4096 = Some (push_bit k 4096) \<and> unat (push_bit k 4096 :: u64) = unat (4096 :: u64) * 2 ^ k \<and>
    unat want \<le> unat (4096 :: u64) * 2 ^ k \<and> (0 < k \<longrightarrow> unat (4096 :: u64) * 2 ^ (k - 1) < unat want)"
    by (rule footprint_loop_terminates) (use want pg in simp_all)
  then obtain k where k: "footprint_loop want 4096 = Some (push_bit k 4096)"
    "unat (push_bit k 4096 :: u64) = 4096 * 2 ^ k" "unat want \<le> 4096 * 2 ^ k"
    "0 < k \<longrightarrow> 4096 * 2 ^ (k - 1) < unat want" by auto
  have e: "v3da_pool_block_bytes b PAGE_SIZE = Some (push_bit k 4096)"
    using k(1) by (simp add: v3da_pool_block_bytes_def v3da_lowmem_footprint_def want_def PAGE_SIZE_def)
  then have f: "foot b = push_bit k 4096" by (simp add: foot_def)
  show "v3da_pool_block_bytes b PAGE_SIZE = Some (foot b)" using e f by simp
  show "unat (pb_pages b) * 4096 \<le> unat (foot b)" using k(2,3) want f by simp
  show "unat (foot b) \<le> 2 ^ 45" using k(2,4) want f pg by (cases k) simp_all
  show "\<exists>k. unat (foot b) = 4096 * 2 ^ k \<and> (0 < k \<longrightarrow> 4096 * 2 ^ (k - 1) < unat (pb_pages b) * 4096)"
    using k(2,4) want f by (intro exI [of _ k]) simp
qed

lemma footprint_simps [simp]:
  "footprint {#} = 0" "footprint (add_mset b M) = unat (foot b) + footprint M" "footprint (M + N) = footprint M + footprint N"
  by (simp_all add: footprint_def)

lemma footprint_bound: "footprint M \<le> size M * 2 ^ 45"
  by (induction M) (use foot_spec(3) in \<open>simp_all add: add_mono\<close>)

subsection \<open>Removing a block\<close>

lemma mset_swap_out:
  assumes "i < length xs"
  shows "add_mset (xs ! i) (mset (swap_out xs i)) = mset xs" "length (swap_out xs i) = length xs - 1"
    "j < i \<Longrightarrow> swap_out xs i ! j = xs ! j"
proof -
  have ne: "xs \<noteq> []" using assms by auto
  have "add_mset (xs ! i) (mset (xs[i := last xs])) = add_mset (last xs) (mset xs)"
    using assms by (simp add: mset_update)
  moreover have "last (xs[i := last xs]) = last xs"
    using assms ne by (simp add: last_list_update)
  then have "mset (xs[i := last xs]) = add_mset (last xs) (mset (swap_out xs i))"
    unfolding swap_out_def using ne
    by (metis append_butlast_last_id list_update_nonempty mset.simps(2) union_mset_add_mset_right mset_append
        add.right_neutral mset.simps(1))
  ultimately show "add_mset (xs ! i) (mset (swap_out xs i)) = mset xs"
    by (simp add: add_mset_commute)
  show "length (swap_out xs i) = length xs - 1" by (simp add: swap_out_def)
  show "j < i \<Longrightarrow> swap_out xs i ! j = xs ! j" using assms by (simp add: swap_out_def nth_butlast)
qed

lemma remove_spec:
  assumes "i < length (ps_pool s)" "unat (ps_bytes s) = footprint (mset (ps_pool s))"
  obtains s' where "v3da_pool_remove PAGE_SIZE i s = Some s'"
    "ps_pool s' = swap_out (ps_pool s) i" "ps_released s' = ps_released s @ [ps_pool s ! i]"
    "unat (ps_bytes s') = footprint (mset (ps_pool s'))"
    "ps_freed s' = (ps_freed s)\<lparr>fr_bytes := fr_bytes (ps_freed s) + foot (ps_pool s ! i),
       fr_blocks := fr_blocks (ps_freed s) + 1\<rparr>"
proof -
  let ?b = "ps_pool s ! i"
  have f: "footprint (mset (ps_pool s)) = unat (foot ?b) + footprint (mset (swap_out (ps_pool s) i))"
    using mset_swap_out(1) [OF assms(1)] by (metis footprint_simps(2))
  then have le: "foot ?b \<le> ps_bytes s" using assms(2) by (simp add: word_le_nat_alt)
  show thesis
    by (rule that [of "s\<lparr>ps_released := ps_released s @ [?b], ps_bytes := ps_bytes s - foot ?b,
          ps_freed := (ps_freed s)\<lparr>fr_bytes := fr_bytes (ps_freed s) + foot ?b,
             fr_blocks := fr_blocks (ps_freed s) + 1\<rparr>, ps_pool := swap_out (ps_pool s) i\<rparr>"])
      (use assms f le foot_spec(1) [of ?b] in \<open>simp_all add: unat_sub v3da_pool_remove_def\<close>)
qed

subsection \<open>Trimming\<close>

text \<open>The state of a trim that started from \<open>M\<close>: nothing is lost, and the sums are those of the blocks.\<close>

definition trim_ok :: "v3da_pool_block multiset \<Rightarrow> pool_state \<Rightarrow> bool" where
  "trim_ok M s \<longleftrightarrow> mset (ps_pool s) + mset (ps_released s) = M \<and>
     unat (ps_bytes s) = footprint (mset (ps_pool s)) \<and>
     fr_blocks (ps_freed s) = of_nat (length (ps_released s)) \<and>
     fr_bytes (ps_freed s) = of_nat (footprint (mset (ps_released s)))"

lemma trim_ok_remove:
  assumes "trim_ok M s" "i < length (ps_pool s)"
  obtains s' where "v3da_pool_remove PAGE_SIZE i s = Some s'" "trim_ok M s'"
    "ps_pool s' = swap_out (ps_pool s) i" "ps_released s' = ps_released s @ [ps_pool s ! i]"
    "fr_idle (ps_freed s') = fr_idle (ps_freed s)"
proof -
  have "unat (ps_bytes s) = footprint (mset (ps_pool s))" using assms(1) by (simp add: trim_ok_def)
  from remove_spec [OF assms(2) this] obtain s' where s': "v3da_pool_remove PAGE_SIZE i s = Some s'"
    "ps_pool s' = swap_out (ps_pool s) i" "ps_released s' = ps_released s @ [ps_pool s ! i]"
    "unat (ps_bytes s') = footprint (mset (ps_pool s'))"
    "ps_freed s' = (ps_freed s)\<lparr>fr_bytes := fr_bytes (ps_freed s) + foot (ps_pool s ! i),
       fr_blocks := fr_blocks (ps_freed s) + 1\<rparr>" .
  have "trim_ok M s'"
    using assms(1) s' mset_swap_out(1) [OF assms(2)]
    by (auto simp: trim_ok_def add.commute)
  with s' that show thesis by simp
qed

lemma trim_ok_idle_count [simp]: "trim_ok M (s\<lparr>ps_freed := (ps_freed s)\<lparr>fr_idle := n\<rparr>\<rparr>) = trim_ok M s"
  by (simp add: trim_ok_def)

lemma idle_loop_spec:
  assumes "trim_ok M s" "\<forall>j<i. j < length (ps_pool s) \<longrightarrow> \<not> is_idle now idle_us (ps_pool s ! j)"
    "list_all (is_idle now idle_us) (ps_released s)"
  shows "\<exists>s'. idle_loop now idle_us PAGE_SIZE i s = Some s' \<and> trim_ok M s' \<and>
    list_all (\<lambda>b. \<not> is_idle now idle_us b) (ps_pool s') \<and> list_all (is_idle now idle_us) (ps_released s')"
  using assms
proof (induction "length (ps_pool s) - i" arbitrary: i s rule: less_induct)
  case less
  show ?case
  proof (cases "i < length (ps_pool s)")
    case False
    then show ?thesis using less.prems by (subst idle_loop.simps) (auto simp: list_all_length)
  next
    case i: True
    show ?thesis
    proof (cases "is_idle now idle_us (ps_pool s ! i)")
      case True
      from trim_ok_remove [OF less.prems(1) i] obtain s' where s': "v3da_pool_remove PAGE_SIZE i s = Some s'"
        "trim_ok M s'" "ps_pool s' = swap_out (ps_pool s) i" "ps_released s' = ps_released s @ [ps_pool s ! i]" .
      define t where "t = s'\<lparr>ps_freed := (ps_freed s')\<lparr>fr_idle := fr_idle (ps_freed s') + 1\<rparr>\<rparr>"
      have "\<exists>r. idle_loop now idle_us PAGE_SIZE i t = Some r \<and> trim_ok M r \<and>
        list_all (\<lambda>b. \<not> is_idle now idle_us b) (ps_pool r) \<and> list_all (is_idle now idle_us) (ps_released r)"
        by (rule less.hyps)
          (use s' i True less.prems mset_swap_out [OF i] in \<open>auto simp: t_def\<close>)
      then show ?thesis using i True s'(1) by (subst idle_loop.simps) (simp add: t_def)
    next
      case False
      have "\<exists>r. idle_loop now idle_us PAGE_SIZE (i + 1) s = Some r \<and> trim_ok M r \<and>
        list_all (\<lambda>b. \<not> is_idle now idle_us b) (ps_pool r) \<and> list_all (is_idle now idle_us) (ps_released r)"
        by (rule less.hyps) (use i False less.prems in \<open>auto simp: less_Suc_eq\<close>)
      then show ?thesis using i False by (subst idle_loop.simps) simp
    qed
  qed
qed

text \<open>The order blocks are given up in: above the limit before below it, then oldest first.\<close>

definition goes_first :: "v3da_pool_block \<Rightarrow> v3da_pool_block \<Rightarrow> bool" where
  "goes_first a b \<longleftrightarrow> (block_low a PAGE_SIZE \<longrightarrow> block_low b PAGE_SIZE) \<and>
     (block_low a PAGE_SIZE = block_low b PAGE_SIZE \<longrightarrow> pb_freed_us a \<le> pb_freed_us b)"

lemma goes_first_refl: "goes_first a a"
  by (simp add: goes_first_def)

lemma goes_first_trans: "goes_first a b \<Longrightarrow> goes_first b c \<Longrightarrow> goes_first a c"
  by (auto simp: goes_first_def)

lemma drop_eq_Cons:
  assumes "b # bs = drop i xs"
  shows "b = xs ! i" "bs = drop (i + 1) xs" "i < length xs"
proof -
  show i: "i < length xs" using assms by (metis drop_all list.distinct(1) not_less)
  then have "drop i xs = xs ! i # drop (Suc i) xs" by (rule Cons_nth_drop_Suc [symmetric])
  then show "b = xs ! i" "bs = drop (i + 1) xs" using assms by simp_all
qed

lemma victim_loop_spec:
  assumes "\<forall>x. best = Some x \<longrightarrow> fst x < i \<and> xs ! fst x = snd x \<and> (\<forall>j<i. goes_first (snd x) (xs ! j))"
    "best = None \<longrightarrow> i = 0" "bs = drop i xs" "i \<le> length xs"
  shows "case victim_loop bs i PAGE_SIZE best of
      None \<Rightarrow> xs = []
    | Some v \<Rightarrow> v < length xs \<and> (\<forall>j<length xs. goes_first (xs ! v) (xs ! j))"
  using assms
proof (induction bs arbitrary: i best)
  case Nil
  then have "i = length xs" by simp
  then show ?case using Nil by (cases best) auto
next
  case (Cons b bs)
  note b = drop_eq_Cons [OF Cons.prems(3)]
  define better where "better = (case best of None \<Rightarrow> True | Some (_, x) \<Rightarrow>
    \<not> block_low b PAGE_SIZE \<and> block_low x PAGE_SIZE \<or>
    block_low b PAGE_SIZE = block_low x PAGE_SIZE \<and> pb_freed_us b < pb_freed_us x)"
  have "case victim_loop bs (i + 1) PAGE_SIZE (if better then Some (i, b) else best) of
      None \<Rightarrow> xs = [] | Some v \<Rightarrow> v < length xs \<and> (\<forall>j<length xs. goes_first (xs ! v) (xs ! j))"
  proof (rule Cons.IH)
    show "\<forall>x. (if better then Some (i, b) else best) = Some x \<longrightarrow>
      fst x < i + 1 \<and> xs ! fst x = snd x \<and> (\<forall>j<i + 1. goes_first (snd x) (xs ! j))"
    proof (cases best)
      case None
      then show ?thesis using Cons.prems(2) b by (auto simp: better_def goes_first_refl)
    next
      case (Some y)
      have y: "fst y < i" "xs ! fst y = snd y" "\<forall>j<i. goes_first (snd y) (xs ! j)" using Cons.prems(1) Some by auto
      show ?thesis
      proof (cases better)
        case True
        then have "goes_first b (snd y)" using Some by (auto simp: better_def goes_first_def split: prod.splits)
        then show ?thesis using True y b goes_first_trans by (auto simp: less_Suc_eq goes_first_refl)
      next
        case False
        then have "goes_first (snd y) b"
          using Some by (auto simp: better_def goes_first_def not_less split: prod.splits)
        then show ?thesis using False Some y b by (auto simp: less_Suc_eq)
      qed
    qed
    show "(if better then Some (i, b) else best) = None \<longrightarrow> i + 1 = 0" by (cases best) (simp_all add: better_def)
    show "bs = drop (i + 1) xs" "i + 1 \<le> length xs" using b by simp_all
  qed
  then show ?case by (simp add: better_def Let_def)
qed

lemma victim_spec:
  "case v3da_pool_victim xs PAGE_SIZE of
     None \<Rightarrow> xs = []
   | Some v \<Rightarrow> v < length xs \<and> (\<forall>b\<in>set xs. goes_first (xs ! v) b)"
  using victim_loop_spec [of None 0 xs xs]
  by (auto simp: v3da_pool_victim_def in_set_conv_nth split: option.splits)

lemma cap_loop_spec:
  assumes "trim_ok M s"
  shows "\<exists>s' B. cap_loop cap PAGE_SIZE s = Some s' \<and> trim_ok M s' \<and> ps_bytes s' \<le> cap \<and>
    ps_released s' = ps_released s @ B \<and> set (ps_pool s') \<subseteq> set (ps_pool s) \<and>
    (\<forall>a\<in>set B. \<forall>b\<in>set (ps_pool s'). goes_first a b) \<and>
    (B \<noteq> [] \<longrightarrow> unat cap < unat (ps_bytes s') + unat (foot (last B))) \<and>
    fr_idle (ps_freed s') = fr_idle (ps_freed s)"
  using assms
proof (induction "length (ps_pool s)" arbitrary: s rule: less_induct)
  case less
  show ?case
  proof (cases "cap < ps_bytes s")
    case False
    then have "cap_loop cap PAGE_SIZE s = Some s" by (subst cap_loop.simps) simp
    then show ?thesis using False less.prems by (intro exI [of _ s] exI [of _ "[]"]) (simp add: not_less)
  next
    case over: True
    have "ps_pool s \<noteq> []" using over less.prems by (auto simp: trim_ok_def word_less_nat_alt)
    then obtain v where v: "v3da_pool_victim (ps_pool s) PAGE_SIZE = Some v" "v < length (ps_pool s)"
      "\<forall>b\<in>set (ps_pool s). goes_first (ps_pool s ! v) b"
      using victim_spec [of "ps_pool s"] by (auto split: option.splits)
    from trim_ok_remove [OF less.prems v(2)] obtain t where t: "v3da_pool_remove PAGE_SIZE v s = Some t"
      "trim_ok M t" "ps_pool t = swap_out (ps_pool s) v" "ps_released t = ps_released s @ [ps_pool s ! v]"
      "fr_idle (ps_freed t) = fr_idle (ps_freed s)" .
    note sw = mset_swap_out [OF v(2)]
    have sub: "set (ps_pool t) \<subseteq> set (ps_pool s)"
      using arg_cong [OF sw(1), of set_mset] t(3) by auto
    have "length (ps_pool t) < length (ps_pool s)" using sw(2) v(2) t(3) by simp
    from less.hyps [OF this t(2)] obtain s' B where s': "cap_loop cap PAGE_SIZE t = Some s'" "trim_ok M s'"
      "ps_bytes s' \<le> cap" "ps_released s' = ps_released t @ B" "set (ps_pool s') \<subseteq> set (ps_pool t)"
      "\<forall>a\<in>set B. \<forall>b\<in>set (ps_pool s'). goes_first a b"
      "B \<noteq> [] \<longrightarrow> unat cap < unat (ps_bytes s') + unat (foot (last B))"
      "fr_idle (ps_freed s') = fr_idle (ps_freed t)" by blast
    have eq: "cap_loop cap PAGE_SIZE s = Some s'"
      using over v(1) t(1) s'(1) by (subst cap_loop.simps) simp
    have last: "unat cap < unat (ps_bytes s') + unat (foot (ps_pool s ! v))" if "B = []"
    proof -
      have "mset (ps_pool s') = mset (ps_pool t)"
        using s'(2,4) t(2) that by (simp add: trim_ok_def) (metis add_right_cancel)
      then show ?thesis
        using over less.prems s'(2) arg_cong [OF sw(1), of footprint] t(3)
        by (simp add: trim_ok_def word_less_nat_alt add.commute)
    qed
    show ?thesis
      by (rule exI [of _ s'], rule exI [of _ "ps_pool s ! v # B"])
        (use eq s' t sub v(3) last in \<open>auto simp: last_ConsR\<close>)
  qed
qed

lemma pool_trim_full:
  assumes "unat bytes = footprint (mset pool)"
  shows "\<exists>s A B. v3da_pool_trim pool bytes cap now idle_us PAGE_SIZE = Some s \<and>
    ps_released s = A @ B \<and> mset (ps_pool s) + mset A + mset B = mset pool \<and>
    list_all (is_idle now idle_us) A \<and> (idle_us = 0 \<longrightarrow> A = []) \<and>
    (idle_us \<noteq> 0 \<longrightarrow> list_all (\<lambda>b. \<not> is_idle now idle_us b) (ps_pool s)) \<and>
    (\<forall>a\<in>set B. \<forall>b\<in>set (ps_pool s). goes_first a b) \<and>
    unat (ps_bytes s) = footprint (mset (ps_pool s)) \<and> ps_bytes s \<le> cap \<and>
    (B \<noteq> [] \<longrightarrow> unat cap < unat (ps_bytes s) + unat (foot (last B))) \<and>
    fr_blocks (ps_freed s) = of_nat (length A + length B) \<and> fr_cap (ps_freed s) = of_nat (length B) \<and>
    fr_bytes (ps_freed s) = of_nat (footprint (mset A + mset B))"
proof -
  define s0 where "s0 = \<lparr>ps_pool = pool, ps_bytes = bytes,
    ps_freed = \<lparr>fr_bytes = 0, fr_blocks = 0, fr_idle = 0, fr_cap = 0\<rparr>, ps_released = []\<rparr>"
  have ok0: "trim_ok (mset pool) s0" using assms by (simp add: trim_ok_def s0_def)
  obtain s1 where s1: "(if idle_us \<noteq> 0 then idle_loop now idle_us PAGE_SIZE 0 s0 else Some s0) = Some s1"
    "trim_ok (mset pool) s1" "list_all (is_idle now idle_us) (ps_released s1)"
    "idle_us = 0 \<longrightarrow> ps_released s1 = []" "idle_us \<noteq> 0 \<longrightarrow> list_all (\<lambda>b. \<not> is_idle now idle_us b) (ps_pool s1)"
  proof (cases "idle_us = 0")
    case True
    then show thesis using that [of s0] ok0 by (simp add: s0_def)
  next
    case False
    have "list_all (is_idle now idle_us) (ps_released s0)" by (simp add: s0_def)
    then show thesis using that idle_loop_spec [OF ok0, of 0 now idle_us] False by auto
  qed
  from cap_loop_spec [OF s1(2), of cap] obtain s2 B where s2: "cap_loop cap PAGE_SIZE s1 = Some s2"
    "trim_ok (mset pool) s2" "ps_bytes s2 \<le> cap" "ps_released s2 = ps_released s1 @ B"
    "set (ps_pool s2) \<subseteq> set (ps_pool s1)" "\<forall>a\<in>set B. \<forall>b\<in>set (ps_pool s2). goes_first a b"
    "B \<noteq> [] \<longrightarrow> unat cap < unat (ps_bytes s2) + unat (foot (last B))" by blast
  define s where "s = s2\<lparr>ps_freed := (ps_freed s2)\<lparr>fr_cap := fr_blocks (ps_freed s2) - fr_blocks (ps_freed s1)\<rparr>\<rparr>"
  have "v3da_pool_trim pool bytes cap now idle_us PAGE_SIZE = Some s"
    using s1(1) s2(1) by (simp add: v3da_pool_trim_def s0_def [symmetric] s_def)
  moreover have "list_all (\<lambda>b. \<not> is_idle now idle_us b) (ps_pool s)" if "idle_us \<noteq> 0"
    using s1(5) s2(5) that by (auto simp: s_def list_all_iff)
  ultimately show ?thesis
    using s1 s2 by (intro exI [of _ s] exI [of _ "ps_released s1"] exI [of _ B]) (simp add: s_def trim_ok_def add.assoc)
qed

text \<open>C39. Trimming the pool of a server that accounts for its blocks ends, loses no block and gives back none
  twice; it gives back every block that has idled long enough and none of the others unless the cap
  demands it; then the blocks above the display limit before those below it, each kind oldest first,
  until the rest fits under the cap and not a block further; and the byte count and the report of what
  went are exact.\<close>

theorem pool_trim_spec:
  assumes "unat bytes = footprint (mset pool)"
  shows "\<exists>s A B. v3da_pool_trim pool bytes cap now idle_us PAGE_SIZE = Some s \<and>
    ps_released s = A @ B \<and> mset (ps_pool s) + mset A + mset B = mset pool \<and>
    list_all (is_idle now idle_us) A \<and> (idle_us = 0 \<longrightarrow> A = []) \<and>
    (idle_us \<noteq> 0 \<longrightarrow> list_all (\<lambda>b. \<not> is_idle now idle_us b) (ps_pool s)) \<and>
    (\<forall>a\<in>set B. \<forall>b\<in>set (ps_pool s). goes_first a b) \<and>
    unat (ps_bytes s) = footprint (mset (ps_pool s)) \<and> ps_bytes s \<le> cap \<and>
    (B \<noteq> [] \<longrightarrow> unat cap < unat (ps_bytes s) + unat (foot (last B))) \<and>
    fr_blocks (ps_freed s) = of_nat (length A + length B) \<and> fr_cap (ps_freed s) = of_nat (length B) \<and>
    fr_bytes (ps_freed s) = of_nat (footprint (mset A + mset B))"
  using assms by (rule pool_trim_full)

definition sample_pool :: "v3da_pool_block list" where
  "sample_pool = [\<lparr>pb_cpu = 1, pb_pa = 0x1000, pb_pages = 1, pb_cached = 0, pb_freed_us = 50\<rparr>,
     \<lparr>pb_cpu = 2, pb_pa = 0x80000000, pb_pages = 3, pb_cached = 0, pb_freed_us = 90\<rparr>,
     \<lparr>pb_cpu = 3, pb_pa = 0x90000000, pb_pages = 2, pb_cached = 0, pb_freed_us = 20\<rparr>]"

theorem pool_trim_spec_witness:
  "\<exists>s. v3da_pool_trim sample_pool 28672 20000 100 75 PAGE_SIZE = Some s \<and>
     map pb_cpu (ps_pool s) = [1] \<and> map pb_cpu (ps_released s) = [3, 2] \<and>
     unat (ps_bytes s) = footprint (mset (ps_pool s)) \<and> ps_bytes s \<le> 20000"
proof -
  have "map foot sample_pool = [4096, 16384, 8192]" by code_simp
  then have "unat (28672 :: u64) = footprint (mset sample_pool)"
    by (simp add: footprint_def sample_pool_def)
  from pool_trim_spec [OF this, of 20000 100 75] obtain s where
    s: "v3da_pool_trim sample_pool 28672 20000 100 75 PAGE_SIZE = Some s"
      "unat (ps_bytes s) = footprint (mset (ps_pool s))" "ps_bytes s \<le> 20000" by blast
  have "map_option (\<lambda>s. (map pb_cpu (ps_pool s), map pb_cpu (ps_released s)))
      (v3da_pool_trim sample_pool 28672 20000 100 75 PAGE_SIZE) = Some ([1], [3, 2])"
    by code_simp
  with s show ?thesis by simp
qed

subsection \<open>Placement\<close>

definition contiguous :: "u64 \<Rightarrow> u32 \<Rightarrow> fresh_block \<Rightarrow> bool" where
  "contiguous bytes page_size x \<longleftrightarrow>
     fst (snd x) \<noteq> - 1 \<and> snd (snd x) = fst (snd x) + bytes - ucast page_size"

text \<open>The index kept is the last contiguous block so far.\<close>

definition keep_ok :: "u64 \<Rightarrow> u32 \<Rightarrow> fresh_block list \<Rightarrow> nat option \<Rightarrow> bool" where
  "keep_ok bytes page_size held keep \<longleftrightarrow>
     (case keep of
        None \<Rightarrow> list_all (\<lambda>x. \<not> contiguous bytes page_size x) held
      | Some i \<Rightarrow> i < length held \<and> contiguous bytes page_size (held ! i))"

definition none_low :: "u64 \<Rightarrow> u32 \<Rightarrow> fresh_block list \<Rightarrow> bool" where
  "none_low bytes page_size held \<longleftrightarrow>
     list_all (\<lambda>x. contiguous bytes page_size x \<longrightarrow> \<not> v3da_lowmem_is_low (fst (snd x)) bytes) held"

lemma lowmem_tries_spec:
  assumes "lowmem_tries bytes page_size k answers held keep = (held', keep', low)"
    "keep_ok bytes page_size held keep" "none_low bytes page_size held"
  shows "\<exists>m\<le>k. m \<le> length answers \<and> held' = held @ take m answers \<and> keep_ok bytes page_size held' keep' \<and>
    (if low then \<exists>i. keep' = Some i \<and> v3da_lowmem_is_low (fst (snd (held' ! i))) bytes
     else none_low bytes page_size held' \<and> (m = k \<or> m = length answers))"
  using assms
proof (induction bytes page_size k answers held keep rule: lowmem_tries.induct)
  case (3 bytes page_size k cpu first lst answers held keep)
  let ?x = "(cpu, first, lst)"
  let ?h = "held @ [?x]"
  have step: "\<exists>m\<le>Suc k. m \<le> length (?x # answers) \<and> held' = held @ take m (?x # answers) \<and>
      keep_ok bytes page_size held' keep' \<and>
      (if low then \<exists>i. keep' = Some i \<and> v3da_lowmem_is_low (fst (snd (held' ! i))) bytes
       else none_low bytes page_size held' \<and> (m = Suc k \<or> m = length (?x # answers)))"
    if "\<exists>m\<le>k. m \<le> length answers \<and> held' = ?h @ take m answers \<and> keep_ok bytes page_size held' keep' \<and>
      (if low then \<exists>i. keep' = Some i \<and> v3da_lowmem_is_low (fst (snd (held' ! i))) bytes
       else none_low bytes page_size held' \<and> (m = k \<or> m = length answers))"
  proof -
    from that obtain m where m: "m \<le> k" "m \<le> length answers" "held' = ?h @ take m answers"
      "keep_ok bytes page_size held' keep'"
      "if low then \<exists>i. keep' = Some i \<and> v3da_lowmem_is_low (fst (snd (held' ! i))) bytes
       else none_low bytes page_size held' \<and> (m = k \<or> m = length answers)" by blast
    show ?thesis by (rule exI [of _ "Suc m"]) (use m in \<open>simp split: if_splits\<close>)
  qed
  show ?case
  proof (cases "contiguous bytes page_size ?x")
    case c: True
    show ?thesis
    proof (cases "v3da_lowmem_is_low first bytes")
      case True
      then have "held' = ?h" "keep' = Some (length held)" "low" using 3(3) c by (auto simp: contiguous_def)
      then show ?thesis using True c
        by (intro exI [of _ 1]) (simp add: keep_ok_def)
    next
      case False
      have n: "none_low bytes page_size ?h" using 3(5) False by (simp add: none_low_def)
      have k: "keep_ok bytes page_size ?h (Some (length held))" using c by (simp add: keep_ok_def)
      show ?thesis
        by (rule step, rule 3(1) [OF refl _ False]) (use 3(3) c False n k in \<open>simp_all add: contiguous_def\<close>)
    qed
  next
    case False
    have n: "none_low bytes page_size ?h" using 3(5) False by (simp add: none_low_def)
    have k: "keep_ok bytes page_size ?h keep"
      using 3(4) False by (auto simp: keep_ok_def nth_append split: option.splits)
    show ?thesis
      by (rule step, rule 3(2) [OF refl]) (use 3(3) False n k in \<open>auto simp: contiguous_def\<close>)
  qed
qed (auto simp: none_low_def)

text \<open>All but the kept block, and the kept block, are the blocks held.\<close>

lemma filter_upt_one: "i < n \<Longrightarrow> filter (\<lambda>j. i = j) [0..<n] = [i]"
proof (induction n)
  case (Suc n)
  have "filter (\<lambda>j. i = j) [0..<n] = []" if "n = i" using that by (simp add: filter_empty_conv)
  then show ?case using Suc by (cases "i = n") auto
qed simp

lemma mset_but_one:
  assumes "i < length xs"
  shows "add_mset (xs ! i) (mset (map ((!) xs) (filter (\<lambda>j. Some i \<noteq> Some j) [0..<length xs]))) = mset xs"
proof -
  have "mset (map ((!) xs) (filter (\<lambda>j. i = j) [0..<length xs])) +
      mset (map ((!) xs) (filter (\<lambda>j. i \<noteq> j) [0..<length xs])) = mset (map ((!) xs) [0..<length xs])"
    by (simp only: mset_map mset_filter image_mset_union [symmetric] multiset_partition [symmetric])
  then show ?thesis using filter_upt_one [OF assms] by (simp add: map_nth del: mset_map mset_filter)
qed

lemma lowmem_map_full:
  assumes "v3da_lowmem_map bytes tries page_size answers = (kept, unmapped, res)"
    "bytes \<noteq> 0" "page_size \<noteq> 0" "bytes mod ucast page_size = 0"
  shows "\<exists>m\<le>min tries 16. m \<le> length answers \<and> lr_tries res = of_nat m \<and>
    lr_rejected res = of_nat (length unmapped) \<and>
    (case kept of
       None \<Rightarrow> unmapped = take m answers \<and> \<not> lr_low res \<and>
         list_all (\<lambda>x. \<not> contiguous bytes page_size x) (take m answers)
     | Some (cpu, pa) \<Rightarrow> \<exists>lst. contiguous bytes page_size (cpu, pa, lst) \<and>
         add_mset (cpu, pa, lst) (mset unmapped) = mset (take m answers) \<and>
         lr_low res = v3da_lowmem_is_low pa bytes) \<and>
    (\<not> lr_low res \<longrightarrow> none_low bytes page_size (take m answers) \<and> (m = min tries 16 \<or> m = length answers))"
proof -
  obtain held keep low where l: "lowmem_tries bytes page_size (min tries 16) answers [] None = (held, keep, low)"
    by (metis prod_cases3)
  have "keep_ok bytes page_size [] None" "none_low bytes page_size []"
    by (simp_all add: keep_ok_def none_low_def)
  from lowmem_tries_spec [OF l this] obtain m where m: "m \<le> min tries 16" "m \<le> length answers"
    "held = take m answers" "keep_ok bytes page_size held keep"
    "if low then \<exists>i. keep = Some i \<and> v3da_lowmem_is_low (fst (snd (held ! i))) bytes
     else none_low bytes page_size held \<and> (m = min tries 16 \<or> m = length answers)" by auto
  have r: "kept = map_option (\<lambda>i. (fst (held ! i), fst (snd (held ! i)))) keep"
    "unmapped = map ((!) held) (filter (\<lambda>i. keep \<noteq> Some i) [0..<length held])"
    "res = \<lparr>lr_tries = of_nat (length held), lr_rejected = of_nat (length unmapped), lr_low = low\<rparr>"
    using assms l by (auto simp: v3da_lowmem_map_def V3DA_LOWMEM_TRIES_def Let_def)
  have len: "length held = m" using m(2,3) by simp
  show ?thesis
  proof (cases keep)
    case None
    then have "unmapped = held" "\<not> low" using r(2) m(5) by (simp_all add: map_nth split: if_splits)
    then show ?thesis using None m r len by (intro exI [of _ m]) (auto simp: keep_ok_def)
  next
    case (Some i)
    have i: "i < length held" "contiguous bytes page_size (held ! i)" using m(4) Some by (simp_all add: keep_ok_def)
    then have "\<not> low \<Longrightarrow> \<not> v3da_lowmem_is_low (fst (snd (held ! i))) bytes"
      using m(5) by (simp add: none_low_def list_all_length)
    then have low: "low = v3da_lowmem_is_low (fst (snd (held ! i))) bytes"
      using m(5) Some by (auto split: if_splits)
    have ms: "add_mset (held ! i) (mset unmapped) = mset held"
      using mset_but_one [OF i(1)] unfolding r(2) Some .
    obtain cpu pa lst where h: "held ! i = (cpu, pa, lst)" by (metis prod_cases3)
    have k: "kept = Some (cpu, pa)" using r(1) Some h by simp
    have q: "lr_tries res = of_nat m" "lr_rejected res = of_nat (length unmapped)" "lr_low res = low"
      unfolding r(3) using len by simp_all
    have x: "\<exists>lst. contiguous bytes page_size (cpu, pa, lst) \<and>
        add_mset (cpu, pa, lst) (mset unmapped) = mset (take m answers) \<and> lr_low res = v3da_lowmem_is_low pa bytes"
      using i(2) ms low h q(3) m(3) by (intro exI [of _ lst]) simp
    show ?thesis
      unfolding k option.case prod.case using m(1,2,3,5) q x by (intro exI [of _ m]) (auto split: if_splits)
  qed
qed

text \<open>C40. For a request of whole pages the placement loop takes fresh blocks in turn, at most sixteen, until one
  lies below the display limit or the allocator has none left. What it keeps is one contiguous block
  it was given, reported low exactly when it lies below the limit; it keeps a block above the limit
  only when no contiguous block it saw was below it, and none only when none was contiguous; every
  other block is given back once, and the counts reported are exact.\<close>

theorem lowmem_map_spec:
  assumes "v3da_lowmem_map bytes tries page_size answers = (kept, unmapped, res)"
    "bytes \<noteq> 0" "page_size \<noteq> 0" "bytes mod ucast page_size = 0"
  shows "\<exists>m\<le>min tries 16. m \<le> length answers \<and> lr_tries res = of_nat m \<and>
    lr_rejected res = of_nat (length unmapped) \<and>
    (case kept of
       None \<Rightarrow> unmapped = take m answers \<and> \<not> lr_low res \<and>
         list_all (\<lambda>x. \<not> contiguous bytes page_size x) (take m answers)
     | Some (cpu, pa) \<Rightarrow> \<exists>lst. contiguous bytes page_size (cpu, pa, lst) \<and>
         add_mset (cpu, pa, lst) (mset unmapped) = mset (take m answers) \<and>
         lr_low res = v3da_lowmem_is_low pa bytes) \<and>
    (\<not> lr_low res \<longrightarrow> none_low bytes page_size (take m answers) \<and> (m = min tries 16 \<or> m = length answers))"
  using assms by (rule lowmem_map_full)

theorem lowmem_map_spec_witness:
  "let (kept, unmapped, res) = v3da_lowmem_map 8192 16 4096 [(1, 0x80000000, 0x80001000), (2, 0x5000, 0x9000), (3, 0x6000, 0x7000)]
   in kept = Some (3, 0x6000) \<and> lr_low res \<and> v3da_lowmem_is_low 0x6000 8192"
proof -
  define x where "x = v3da_lowmem_map 8192 16 4096 [(1, 0x80000000, 0x80001000), (2, 0x5000, 0x9000), (3, 0x6000, 0x7000)]"
  obtain kept unmapped res where e: "x = (kept, unmapped, res)" by (metis prod_cases3)
  have "fst x = Some (3, 0x6000) \<and> lr_low (snd (snd x))" unfolding x_def by code_simp
  then have k: "kept = Some (3, 0x6000)" "lr_low res" using e by simp_all
  have "(8192 :: u64) mod ucast (4096 :: u32) = 0" by code_simp
  from lowmem_map_spec [OF e [unfolded x_def] _ _ this] have "lr_low res = v3da_lowmem_is_low 0x6000 8192"
    using k by auto
  with k e show ?thesis by (simp add: x_def)
qed

subsection \<open>The ledger of blocks\<close>

lemma pick_loop_spec:
  assumes "pick_loop bs i pages cached want_low page_size any = Some j" "bs = drop i xs"
    "\<forall>k. any = Some k \<longrightarrow> k < length xs \<and> pb_pages (xs ! k) = pages \<and> pb_cached (xs ! k) = cached \<and>
       v3da_lowmem_is_low (pb_pa (xs ! k)) (ucast pages * ucast page_size) \<and> \<not> want_low"
  shows "j < length xs \<and> pb_pages (xs ! j) = pages \<and> pb_cached (xs ! j) = cached \<and>
    (want_low \<longrightarrow> v3da_lowmem_is_low (pb_pa (xs ! j)) (ucast pages * ucast page_size))"
  using assms
proof (induction bs i pages cached want_low page_size any rule: pick_loop.induct)
  case (2 b bs i pages cached want_low page_size any)
  note IH = "2.IH" and prems = "2.prems"
  note b = drop_eq_Cons [OF prems(2)]
  show ?case
  proof (cases "pb_pages b \<noteq> pages \<or> pb_cached b \<noteq> cached")
    case True
    show ?thesis by (rule IH(1) [OF True]) (use prems True b(2) in simp_all)
  next
    case m: False
    define low where "low = v3da_lowmem_is_low (pb_pa b) (ucast pages * ucast page_size)"
    show ?thesis
    proof (cases "want_low \<and> low \<or> \<not> want_low \<and> \<not> low")
      case True
      then have "j = i" using prems(1) m by (auto simp: low_def)
      then show ?thesis using True m b by (auto simp: low_def)
    next
      case False
      then show ?thesis
      proof (cases want_low)
        case True
        then have n: "\<not> low" using False by simp
        show ?thesis by (rule IH(2) [OF m low_def True n]) (use prems True m n b(2) in \<open>simp_all add: low_def\<close>)
      next
        case nw: False
        then have l: "\<not> \<not> low" using False by simp
        show ?thesis
          by (rule IH(3) [OF m low_def nw l]) (use prems nw m l b in \<open>auto simp: low_def\<close>)
      qed
    qed
  qed
qed (auto split: if_splits)

lemma pool_pick_spec:
  assumes "v3da_pool_pick pool pages cached want_low page_size = Some j"
  shows "j < length pool" "pb_pages (pool ! j) = pages" "pb_cached (pool ! j) = cached"
    "want_low \<Longrightarrow> v3da_lowmem_is_low (pb_pa (pool ! j)) (ucast pages * ucast page_size)"
  using pick_loop_spec [of pool 0 pages cached want_low page_size None j pool] assms
  by (auto simp: v3da_pool_pick_def)

text \<open>A history of the pool: blocks are taken for new buffers, given back (by their place among the blocks
  handed out) and the event thread ticks.\<close>

datatype pool_op =
    PGet "fresh_block list" "fresh_block option" u32 u32 bool
  | PPut u64 nat
  | PTick u64 bool

type_synonym lent = "nat \<times> u64 \<times> u32 \<times> u32"

fun pool_step :: "pool_op \<Rightarrow> pool_srv \<times> lent list \<Rightarrow> (pool_srv \<times> lent list) option" where
  "pool_step (PGet answers plain pages cached want_low) (s, out) =
     (case block_get answers plain pages cached want_low s of
        None \<Rightarrow> None
      | Some (s', None) \<Rightarrow> Some (s', out)
      | Some (s', Some p) \<Rightarrow> Some (s', (pl_cpu p, pl_pa p, pages, cached) # out))"
| "pool_step (PPut now k) (s, out) =
     (if k < length out then
        (case out ! k of (cpu, pa, pages, cached) \<Rightarrow>
           (case block_put now cpu pa pages cached s of
              None \<Rightarrow> None
            | Some s' \<Rightarrow> Some (s', swap_out out k)))
      else Some (s, out))"
| "pool_step (PTick now soon) (s, out) =
     (case v3da_bo_pool_tick now soon s of None \<Rightarrow> None | Some s' \<Rightarrow> Some (s', out))"

fun pool_run :: "pool_op list \<Rightarrow> pool_srv \<times> lent list \<Rightarrow> (pool_srv \<times> lent list) option" where
  "pool_run [] x = Some x"
| "pool_run (op # ops) x = (case pool_step op x of None \<Rightarrow> None | Some y \<Rightarrow> pool_run ops y)"

definition pool_srv0 :: "u64 \<Rightarrow> u64 \<Rightarrow> pool_srv" where
  "pool_srv0 cap idle_us = \<lparr>pv_pool = [], pool_bytes = 0, pool_peak = 0, pool_cap = cap, pool_idle_us = idle_us,
     pool_scan_us = 0, pool_trimmed = 0, pool_trims = 0, pool_note_bytes = 0, pool_note_blocks = 0,
     pool_note_idle = 0, pool_note_cap = 0, pool_note_us = 0, pages_to_kernel = 0, low_tries = 0,
     low_rejected = 0, kernel_gave = [], kernel_got = []\<rparr>"

definition ledger :: "pool_srv \<Rightarrow> lent list \<Rightarrow> bool" where
  "ledger s out \<longleftrightarrow>
     mset (kernel_gave s) = mset (kernel_got s) + mset (map pb_cpu (pv_pool s)) + mset (map fst out) \<and>
     unat (pool_bytes s) = footprint (mset (pv_pool s)) \<and> length (pv_pool s) \<le> 1024"

lemma pool_note_simps [simp]:
  "pv_pool (pool_note now s) = pv_pool s" "pool_bytes (pool_note now s) = pool_bytes s"
  "pool_cap (pool_note now s) = pool_cap s" "kernel_gave (pool_note now s) = kernel_gave s"
  "kernel_got (pool_note now s) = kernel_got s" "pool_idle_us (pool_note now s) = pool_idle_us s"
  by (simp_all add: pool_note_def)

lemma pool_trim_ledger:
  assumes "ledger s out"
  shows "\<exists>s'. pool_trim now idle_us s = Some s' \<and> ledger s' out \<and> pool_cap s' = pool_cap s \<and> pool_bytes s' \<le> pool_cap s \<and>
    length (pv_pool s') \<le> length (pv_pool s)"
proof -
  have "unat (pool_bytes s) = footprint (mset (pv_pool s))" using assms by (simp add: ledger_def)
  from pool_trim_full [OF this, of "pool_cap s" now idle_us] obtain t A B where
    t: "v3da_pool_trim (pv_pool s) (pool_bytes s) (pool_cap s) now idle_us PAGE_SIZE = Some t"
      "ps_released t = A @ B" "mset (ps_pool t) + mset A + mset B = mset (pv_pool s)"
      "unat (ps_bytes t) = footprint (mset (ps_pool t))" "ps_bytes t \<le> pool_cap s" by blast
  have m: "mset (ps_pool t) + mset (ps_released t) = mset (pv_pool s)" "unat (ps_bytes t) = footprint (mset (ps_pool t))"
    using t(2-4) by (simp_all add: add.assoc)
  have l: "length (ps_pool t) \<le> length (pv_pool s)" using arg_cong [OF m(1), of size] by simp
  obtain s' where s': "pool_trim now idle_us s = Some s'" "pv_pool s' = ps_pool t" "pool_bytes s' = ps_bytes t"
    "pool_cap s' = pool_cap s" "kernel_gave s' = kernel_gave s" "kernel_got s' = kernel_got s @ map pb_cpu (ps_released t)"
    using t(1) by (simp add: pool_trim_def Let_def)
  have "image_mset pb_cpu (mset (ps_pool t)) + image_mset pb_cpu (mset (ps_released t)) = image_mset pb_cpu (mset (pv_pool s))"
    using arg_cong [OF m(1), of "image_mset pb_cpu"] by simp
  then have "ledger s' out"
    using assms s' m(2) l by (simp add: ledger_def) (metis add.assoc add.commute)
  then show ?thesis using s' t(5) l by (intro exI [of _ s']) simp
qed

lemma put_ledger:
  assumes "ledger s out" "pool_bytes s \<le> pool_cap s" "k < length out" "out ! k = (cpu, pa, pages, cached)"
  shows "\<exists>s'. block_put now cpu pa pages cached s = Some s' \<and> ledger s' (swap_out out k) \<and>
    pool_bytes s' \<le> pool_cap s' \<and> pool_cap s' = pool_cap s"
proof -
  have o: "mset (map fst out) = add_mset cpu (mset (map fst (swap_out out k)))"
    using arg_cong [OF mset_swap_out(1) [OF assms(3)], of "image_mset fst"] assms(4) by simp
  show ?thesis
  proof (cases "length (pv_pool s) < 1024")
    case False
    then show ?thesis using assms(1,2) o by (simp add: block_put_def V3DA_MAX_POOL_def ledger_def)
  next
    case True
    define b where "b = \<lparr>pb_cpu = cpu, pb_pa = pa, pb_pages = pages, pb_cached = cached, pb_freed_us = now\<rparr>"
    define s1 where "s1 = s\<lparr>pv_pool := pv_pool s @ [b], pool_bytes := pool_bytes s + foot b\<rparr>"
    define s2 where "s2 = (if pool_peak s1 < pool_bytes s1 then s1\<lparr>pool_peak := pool_bytes s1\<rparr> else s1)"
    have "footprint (mset (pv_pool s)) \<le> 1024 * 2 ^ 45"
      using footprint_bound [of "mset (pv_pool s)"] True by (simp add: order_trans)
    then have "unat (pool_bytes s) + unat (foot b) < 2 ^ 64"
      using assms(1) foot_spec(3) [of b] by (simp add: ledger_def)
    then have "unat (pool_bytes s + foot b) = unat (pool_bytes s) + unat (foot b)"
      by (simp add: unat_word_ariths)
    then have l2: "ledger s2 (swap_out out k)"
      using assms(1) o True by (simp add: s2_def s1_def ledger_def b_def)
    have e: "block_put now cpu pa pages cached s =
      (if pool_cap s2 < pool_bytes s2 then pool_trim now 0 s2 else Some s2)"
      using True foot_spec(1) [of b] by (simp add: block_put_def V3DA_MAX_POOL_def b_def [symmetric] s1_def s2_def)
    have "pool_cap s2 = pool_cap s" by (simp add: s2_def s1_def)
    then show ?thesis using e l2 pool_trim_ledger [OF l2, of now 0] by (auto simp: not_less)
  qed
qed

lemma lowmem_map_balance:
  assumes "v3da_lowmem_map bytes 16 page_size answers = (kept, unmapped, res)"
  shows "mset (map fst (take (unat (lr_tries res)) answers)) =
    mset (map fst unmapped) + (case kept of None \<Rightarrow> {#} | Some (cpu, pa) \<Rightarrow> {#cpu#})"
proof (cases "bytes = 0 \<or> page_size = 0 \<or> bytes mod ucast page_size \<noteq> 0")
  case True
  then show ?thesis using assms by (auto simp: v3da_lowmem_map_def)
next
  case False
  then have "bytes \<noteq> 0" "page_size \<noteq> 0" "bytes mod ucast page_size = 0" by simp_all
  from lowmem_map_full [OF assms this] obtain m where m: "m \<le> 16" "lr_tries res = of_nat m"
    "case kept of
       None \<Rightarrow> unmapped = take m answers \<and> \<not> lr_low res \<and>
         list_all (\<lambda>x. \<not> contiguous bytes page_size x) (take m answers)
     | Some (cpu, pa) \<Rightarrow> \<exists>lst. contiguous bytes page_size (cpu, pa, lst) \<and>
         add_mset (cpu, pa, lst) (mset unmapped) = mset (take m answers) \<and>
         lr_low res = v3da_lowmem_is_low pa bytes" by auto
  have "unat (lr_tries res) = m" using m(1,2) by (simp add: unat_of_nat)
  then show ?thesis
    using m(3) by (auto split: option.splits dest!: arg_cong [where f = "image_mset fst"])
qed

lemma get_ledger:
  assumes "ledger s out" "pool_bytes s \<le> pool_cap s"
  shows "\<exists>s' p. block_get answers plain pages cached want_low s = Some (s', p) \<and> pool_cap s' = pool_cap s \<and>
    pool_bytes s' \<le> pool_cap s' \<and>
    ledger s' (case p of None \<Rightarrow> out | Some x \<Rightarrow> (pl_cpu x, pl_pa x, pages, cached) # out)"
proof (cases "v3da_pool_pick (pv_pool s) pages cached want_low PAGE_SIZE")
  case (Some i)
  note i = pool_pick_spec(1) [OF Some]
  let ?b = "pv_pool s ! i"
  note sw = mset_swap_out [OF i]
  have f: "footprint (mset (pv_pool s)) = unat (foot ?b) + footprint (mset (swap_out (pv_pool s) i))"
    using arg_cong [OF sw(1), of footprint] by simp
  then have le: "foot ?b \<le> pool_bytes s" using assms(1) by (simp add: ledger_def word_le_nat_alt)
  have "pool_bytes s - foot ?b \<le> pool_bytes s" using le by (simp add: word_le_nat_alt unat_sub)
  then have cap: "pool_bytes s - foot ?b \<le> pool_cap s" using assms(2) by (rule order_trans)
  have "image_mset pb_cpu (mset (pv_pool s)) = add_mset (pb_cpu ?b) (image_mset pb_cpu (mset (swap_out (pv_pool s) i)))"
    using arg_cong [OF sw(1), of "image_mset pb_cpu"] by simp
  then show ?thesis
    using assms(1) Some foot_spec(1) [of ?b] f le sw(2) cap
    by (simp add: block_get_def Let_def ledger_def unat_sub le_diff_conv)
next
  case None
  show ?thesis
  proof (cases want_low)
    case False
    then show ?thesis using None assms by (cases plain) (auto simp: block_get_def Let_def ledger_def)
  next
    case True
    define bytes where "bytes = (ucast pages * ucast PAGE_SIZE :: u64)"
    obtain kept unmapped res where l: "v3da_lowmem_map bytes 16 PAGE_SIZE answers = (kept, unmapped, res)"
      by (metis prod_cases3)
    note bal = lowmem_map_balance [OF l]
    show ?thesis
    proof (cases kept)
      case (Some x)
      then show ?thesis using None True l assms bal
        by (cases x) (simp add: block_get_def Let_def V3DA_LOWMEM_TRIES_def bytes_def [symmetric] ledger_def)
    next
      case nk: None
      then show ?thesis using None True l assms bal
        by (cases plain)
          (auto simp: block_get_def Let_def V3DA_LOWMEM_TRIES_def bytes_def [symmetric] ledger_def)
    qed
  qed
qed

lemma tick_ledger:
  assumes "ledger s out" "pool_bytes s \<le> pool_cap s"
  shows "\<exists>s'. v3da_bo_pool_tick now soon s = Some s' \<and> ledger s' out \<and> pool_bytes s' \<le> pool_cap s' \<and> pool_cap s' = pool_cap s"
proof (cases "soon \<or> pool_scan_us s \<le> now")
  case True
  have "ledger (s\<lparr>pool_scan_us := now + POOL_SCAN_US\<rparr>) out" using assms(1) by (simp add: ledger_def)
  from pool_trim_ledger [OF this, of now "pool_idle_us s"] True show ?thesis
    by (auto simp: v3da_bo_pool_tick_def ledger_def)
next
  case False
  then show ?thesis using assms by (simp add: v3da_bo_pool_tick_def ledger_def)
qed

lemma pool_step_ledger:
  assumes "ledger s out" "pool_bytes s \<le> pool_cap s"
  shows "\<exists>s' out'. pool_step op (s, out) = Some (s', out') \<and> ledger s' out' \<and> pool_bytes s' \<le> pool_cap s' \<and>
    pool_cap s' = pool_cap s"
proof (cases op)
  case (PGet answers plain pages cached want_low)
  from get_ledger [OF assms, of answers plain pages cached want_low] obtain s' p where
    "block_get answers plain pages cached want_low s = Some (s', p)" "pool_cap s' = pool_cap s"
    "pool_bytes s' \<le> pool_cap s'" "ledger s' (case p of None \<Rightarrow> out | Some x \<Rightarrow> (pl_cpu x, pl_pa x, pages, cached) # out)"
    by blast
  then show ?thesis using PGet by (cases p) simp_all
next
  case (PPut now k)
  show ?thesis
  proof (cases "k < length out")
    case True
    obtain cpu pa pages cached where o: "out ! k = (cpu, pa, pages, cached)" by (metis prod_cases4)
    from put_ledger [OF assms True o, of now] show ?thesis using PPut True o by auto
  next
    case False
    then show ?thesis using PPut assms by simp
  qed
next
  case (PTick now soon)
  from tick_ledger [OF assms, of now soon] show ?thesis using PTick by auto
qed

text \<open>C38. In every history of the pool, whatever the kernel answers, no operation fails or fails to end, and
  every block the kernel gave is in exactly one place: pooled, lent to a buffer, or given back; the
  pool's byte count is the footprint of its blocks, never above the cap and never more than 1024 blocks.\<close>

theorem pool_ledger:
  "\<exists>s out. pool_run ops (pool_srv0 cap idle_us, []) = Some (s, out) \<and>
     mset (kernel_gave s) = mset (kernel_got s) + mset (map pb_cpu (pv_pool s)) + mset (map fst out) \<and>
     unat (pool_bytes s) = footprint (mset (pv_pool s)) \<and> pool_bytes s \<le> cap \<and> length (pv_pool s) \<le> 1024"
proof -
  have run: "\<exists>s' out'. pool_run ops (s, out) = Some (s', out') \<and> ledger s' out' \<and> pool_bytes s' \<le> pool_cap s"
    if "ledger s out" "pool_bytes s \<le> pool_cap s" for s out
    using that
  proof (induction ops arbitrary: s out)
    case (Cons op ops)
    from pool_step_ledger [OF Cons.prems, of op] obtain s1 out1 where
      1: "pool_step op (s, out) = Some (s1, out1)" "ledger s1 out1" "pool_bytes s1 \<le> pool_cap s1"
        "pool_cap s1 = pool_cap s" by blast
    from Cons.IH [OF 1(2,3)] 1 show ?case by auto
  qed auto
  have "ledger (pool_srv0 cap idle_us) []" by (simp add: ledger_def pool_srv0_def)
  from run [OF this] show ?thesis by (auto simp: pool_srv0_def ledger_def)
qed

end
