(* ===== verification/Spec2Isabelle.thy ===== *)
theory Spec2Isabelle
  imports Tty_Props Lf_Fifo Rmap Rtt Shmsrv Hid_Mouse V3da_Waits V3da_Pool
begin

text \<open>
  A verification development for the device-driver repository of Phoenix-RTOS. The repository is a
  collection of user-space servers and of libraries they link: each server owns one device, receives
  messages on a port and answers them, and most of the code is register access. The development models
  the parts whose behaviour is in the sources themselves: the libraries shared by the drivers and the
  servers that keep data structures of their own.

  \<^bold>\<open>Conventions.\<close> A struct is a record, an enum a datatype, an unsigned integer of \<open>w\<close> bits a \<open>w word\<close> with
  the wrap-around of C; signed arithmetic is on \<^typ>\<open>int\<close> where the code cannot overflow and on words
  where it can. A negative return is a value of \<open>errno\<close>. An access outside an array or through a freed
  pointer is the result \<^term>\<open>None\<close>, so that a theorem that an operation returns \<open>Some\<close> says it makes no
  such access. A loop the code does not bound is a \<open>partial_function\<close> in the option monad (not ending is
  \<^term>\<open>None\<close>) or a \<open>function\<close> with a termination proof; there is no fuel. What the kernel, an allocator
  or a device answers is an argument, and calls whose effect lies outside (\<open>memExport\<close>, \<open>munmap\<close>, wake-ups)
  are recorded in the order they are made. Handlers run under their server's lock, so an operation is one
  atomic step and a history is a list of operations; only the lock-free ring is modelled access by access.

  \<^bold>\<open>Shared theories.\<close> \<open>Dev_Prelude\<close> has the integer types, the error codes, masks of powers of two and the
  circular buffer over a list. \<open>Byte_Queue\<close> states the contract of a bounded byte queue as the locales
  \<open>bounded_queue\<close> and \<open>bounded_deque\<close> and proves the fill and drain loops of its clients once; \<open>Fifo\<close> and
  \<open>Rtt\<close> interpret it. \<open>Bytes\<close> has the byte order of protocol fields.

  \<^bold>\<open>Terminals\<close> (\<open>tty/libtty\<close>, the library every serial and console driver uses). \<open>Fifo\<close> models \<open>fifo.h\<close> and
  proves that a search of the ring ends. \<open>Lf_Fifo\<close> models \<open>libtty-lf-fifo.h\<close> as the interleaving of a
  producer and a consumer access by access and proves it linearizable. \<open>Tty_Disc\<close> models
  \<open>libtty_disc.c\<close> (input editing, output processing, canonical and raw reading), \<open>Tty_Read\<close> proves what a
  read delivers, \<open>Libtty\<close> models \<open>libtty.c\<close> (start-up, read, write, ioctl, poll, sessions) and \<open>Tty_Props\<close>
  proves the terminal correct as a whole: the ring and flag invariant of every reachable terminal, editing
  as a refinement of editing a line, in-order output, completion of writes, polling, the rules of the
  controlling terminal, settings read back. Two defects are proved: a receive overrun leaves the
  break flag stale, and a ring of at most eight bytes never accepts output.

  \<^bold>\<open>Remote memory access\<close> (\<open>spacewire/librmap\<close>). \<open>Rmap\<close> models \<open>rmap.c\<close>: command headers, replies and the
  checksum; building and parsing are inverse, and a header with a target path can overrun its buffer.

  \<^bold>\<open>Debug channels\<close> (\<open>librtt\<close>). \<open>Rtt\<close> models \<open>librtt.c\<close>: descriptors in shared memory, their verification,
  reading and writing with cache maintenance. A verified descriptor stays inside its memory, writes append
  and reads take the oldest bytes and only bytes made coherent; the overwrite mode loses the ring, and channel
  counts that wrap pass verification.

  \<^bold>\<open>Shared-memory objects\<close> (\<open>misc/shmsrv\<close>). \<open>Shmsrv\<close> models the whole message handler. Every history is free of
  bad accesses, objects refine files of bytes under read, write and truncate, and the windows the kernel
  holds, read off the recorded calls, are those of the live objects.

  \<^bold>\<open>USB mouse\<close> (\<open>tty/usbmouse/hidmouse.c\<close>). \<open>Hid_Desc\<close> models the report-descriptor parser and the
  configuration walk and proves them safe on every input; \<open>Hid_Mouse\<close> models extraction and translation and
  proves extraction equal to reading a bit stream, and that the packets of a report carry all its motion.

  \<^bold>\<open>GPU render server\<close> (\<open>gpu/rpi4-v3d-async\<close>). \<open>V3da\<close> models \<open>v3da_sched.c\<close> and the requests of
  \<open>v3da_main.c\<close> on fences, sync objects and waits; its \<open>v3da_srv\<close> holds the fields of the server's state that
  they use. \<open>V3da_Waits\<close> states what the three walks over the parked waits share as the locale \<open>wait_walk\<close>,
  interpreted on each of them, and proves over all histories that a request is answered once and on its
  own port, that no wait outlives its deadline, and that signalled fences stay signalled while completions
  come in order. \<open>V3da_Pool\<close> models \<open>v3da_lowmem.h\<close>, \<open>v3da_pool.h\<close> and the block functions of
  \<open>v3da_bo.c\<close>: every block is in one place, trimming follows its policy, placement keeps the right block.

  \<^bold>\<open>Not modelled.\<close> The register-level drivers (\<open>adc\<close>, \<open>audio\<close>, \<open>bt\<close>, \<open>can\<close>, \<open>display\<close>, \<open>dma\<close>, \<open>gpio\<close>, \<open>i2c\<close>,
  \<open>mag\<close>, \<open>multi\<close>, \<open>otp\<close>, \<open>pcie\<close>, \<open>rtc\<close>, \<open>sdio\<close>, \<open>spi\<close>, \<open>storage\<close>, \<open>temp\<close>, \<open>usb\<close>, \<open>video\<close>, \<open>watchdog\<close>, \<open>wifi\<close>, the
  drivers around the modelled libraries under \<open>tty\<close> and \<open>spacewire\<close>, \<open>net\<close>, \<open>sensors\<close> and the small servers of
  \<open>misc\<close>): what they do is decided by hardware, firmware or a bus whose behaviour is not in the repository.
  Of the GPU server, buffer objects, page tables, the hardware registers and start-up are left out. Of
  every modelled server, start-up, logging and thread creation are left out. Client stores through a mapping
  of shared memory, weak memory order beyond the acquire and release pairs of the lock-free ring, and real time
  beyond the deadlines passed as arguments are outside the model.
\<close>

end
